(* ===== verification/Rust_Std.thy ===== *)
theory Rust_Std
  imports
    Main
    "HOL-Library.Word"
    "HOL-Library.Char_ord"
    "HOL-Library.List_Lexorder"
    "HOL-Library.Product_Lexorder"
    "HOL-Library.Signed_Division"
    "HOL-Library.AList"
    "HOL-Library.Monad_Syntax"
    "HOL-Library.Sublist"
    "HOL-Library.Multiset"
    "HOL-Library.Code_Target_Numeral"
begin

text \<open>
  The prelude: what the components use of Rust and of its standard library, and the
  generic lemmas they share.

  \<^item> A Rust string is the list of its UTF-8 bytes (type \<^typ>\<open>string\<close>); the header fields the
    components parse are ASCII, where bytes and characters agree.
  \<^item> \<open>u64\<close> counters are 64-bit words: \<open>fetch_add\<close> wraps, \<open>saturating_add\<close> does not.
  \<^item> \<open>SystemTime\<close> is a signed number of nanoseconds since the Unix epoch inside the range of
    the 64-bit seconds field of the Unix implementation; \<open>Duration\<close> is a natural number of
    nanoseconds.
  \<^item> A panic (an out-of-range index, an arithmetic underflow) is the value \<^const>\<open>None\<close> of an
    option-typed operation.
\<close>

section \<open>Collections of facts\<close>

named_theorems str_simps "evaluation of the string primitives"
named_theorems keeps_inv "operations that keep a component invariant"

section \<open>Bytes and strings\<close>

definition byte :: "char \<Rightarrow> nat" where
  "byte c = of_char c"

definition is_ascii_digit :: "char \<Rightarrow> bool" where
  "is_ascii_digit c \<longleftrightarrow> 48 \<le> byte c \<and> byte c \<le> 57"

definition is_whitespace :: "char \<Rightarrow> bool" where
  "is_whitespace c \<longleftrightarrow> byte c = 32 \<or> (9 \<le> byte c \<and> byte c \<le> 13)"

definition lower_char :: "char \<Rightarrow> char" where
  "lower_char c = (if 65 \<le> byte c \<and> byte c \<le> 90 then char_of (byte c + 32) else c)"

definition to_ascii_lowercase :: "string \<Rightarrow> string" where
  "to_ascii_lowercase s = map lower_char s"

definition eq_ignore_ascii_case :: "string \<Rightarrow> string \<Rightarrow> bool" where
  "eq_ignore_ascii_case s t \<longleftrightarrow> to_ascii_lowercase s = to_ascii_lowercase t"

definition trim_start :: "string \<Rightarrow> string" where
  "trim_start s = dropWhile is_whitespace s"

definition trim_end :: "string \<Rightarrow> string" where
  "trim_end s = rev (dropWhile is_whitespace (rev s))"

definition trim :: "string \<Rightarrow> string" where
  "trim s = trim_end (trim_start s)"

text \<open>\<open>str::split\<close>: always at least one piece, and one more than there are separators.\<close>

fun split_by :: "(char \<Rightarrow> bool) \<Rightarrow> string \<Rightarrow> string list" where
  "split_by p [] = [[]]"
| "split_by p (c # cs) =
     (if p c then [] # split_by p cs
      else (case split_by p cs of [] \<Rightarrow> [[c]] | w # ws \<Rightarrow> (c # w) # ws))"

text \<open>\<open>str::find\<close> and \<open>str::rfind\<close>, as byte offsets.\<close>

fun find_char :: "(char \<Rightarrow> bool) \<Rightarrow> string \<Rightarrow> nat option" where
  "find_char p [] = None"
| "find_char p (c # cs) = (if p c then Some 0 else map_option Suc (find_char p cs))"

definition rfind_char :: "char \<Rightarrow> string \<Rightarrow> nat option" where
  "rfind_char c s =
     map_option (\<lambda>k. length s - 1 - k) (find_char (\<lambda>x. x = c) (rev s))"

definition split_once :: "char \<Rightarrow> string \<Rightarrow> (string \<times> string) option" where
  "split_once c s =
     (case find_char (\<lambda>x. x = c) s of
        None \<Rightarrow> None
      | Some i \<Rightarrow> Some (take i s, drop (Suc i) s))"

definition starts_with :: "string \<Rightarrow> string \<Rightarrow> bool" where
  "starts_with s p \<longleftrightarrow> prefix p s"

definition ends_with :: "string \<Rightarrow> string \<Rightarrow> bool" where
  "ends_with s p \<longleftrightarrow> suffix p s"

definition strip_prefix :: "string \<Rightarrow> string \<Rightarrow> string option" where
  "strip_prefix p s = (if prefix p s then Some (drop (length p) s) else None)"

definition strip_suffix :: "string \<Rightarrow> string \<Rightarrow> string option" where
  "strip_suffix p s = (if suffix p s then Some (take (length s - length p) s) else None)"

text \<open>\<open>[T]::join\<close> on strings.\<close>

fun join_with :: "string \<Rightarrow> string list \<Rightarrow> string" where
  "join_with sep [] = []"
| "join_with sep [s] = s"
| "join_with sep (s # t # ts) = s @ sep @ join_with sep (t # ts)"

subsection \<open>Facts on the string primitives\<close>

lemma byte_less_256 [simp]: "byte c < 256"
  by (simp add: byte_def)

lemma byte_inject: "byte c = byte d \<longleftrightarrow> c = d"
  by (simp add: byte_def)

lemma split_by_nonempty [simp]: "split_by p s \<noteq> []"
  by (induction s) (auto split: list.splits)

lemma split_by_Cons_not: "\<not> p c \<Longrightarrow>
  split_by p (c # cs) = (c # hd (split_by p cs)) # tl (split_by p cs)"
  by (cases "split_by p cs") auto

lemma split_by_pieces: "w \<in> set (split_by p s) \<Longrightarrow> set w \<subseteq> {c \<in> set s. \<not> p c}"
proof (induction s arbitrary: w)
  case Nil
  then show ?case by simp
next
  case (Cons c cs)
  show ?case
  proof (cases "p c")
    case True
    with Cons.prems consider "w = []" | "w \<in> set (split_by p cs)" by auto
    then show ?thesis
    proof cases
      case 2
      from Cons.IH [OF this] show ?thesis by auto
    qed simp
  next
    case False
    obtain v vs where vs: "split_by p cs = v # vs" by (meson neq_Nil_conv split_by_nonempty)
    from Cons.prems False vs have "w = c # v \<or> w \<in> set vs" by auto
    then show ?thesis using Cons.IH vs False by fastforce
  qed
qed

lemma split_by_none: "(\<forall>c \<in> set s. \<not> p c) \<Longrightarrow> split_by p s = [s]"
  by (induction s) auto

lemma split_by_append_sep:
  assumes "\<forall>c \<in> set s. \<not> p c" and "p d"
  shows "split_by p (s @ d # t) = s # split_by p t"
  using assms by (induction s) auto

lemma find_char_None: "find_char p s = None \<longleftrightarrow> (\<forall>c \<in> set s. \<not> p c)"
  by (induction s) auto

lemma find_char_Some:
  "find_char p s = Some i \<Longrightarrow> i < length s \<and> p (s ! i) \<and> (\<forall>c \<in> set (take i s). \<not> p c)"
  by (induction s arbitrary: i) (auto split: if_splits)

lemma find_char_append:
  "(\<forall>c \<in> set s. \<not> p c) \<Longrightarrow> p d \<Longrightarrow> find_char p (s @ d # t) = Some (length s)"
  by (induction s) auto

lemma split_once_append:
  assumes "c \<notin> set s"
  shows "split_once c (s @ c # t) = Some (s, t)"
proof -
  from assms have "find_char (\<lambda>x. x = c) (s @ c # t) = Some (length s)"
    by (intro find_char_append) auto
  then show ?thesis by (simp add: split_once_def)
qed

lemma split_once_Some:
  assumes "split_once c s = Some (a, b)"
  shows "s = a @ c # b" and "c \<notin> set a"
proof -
  from assms obtain i where i: "find_char (\<lambda>x. x = c) s = Some i"
    and ab: "a = take i s" "b = drop (Suc i) s"
    by (auto simp: split_once_def split: option.splits)
  from find_char_Some [OF i] have "i < length s" "s ! i = c" "c \<notin> set (take i s)" by auto
  with ab show "c \<notin> set a" by simp
  from \<open>i < length s\<close> have "s = take i s @ s ! i # drop (Suc i) s" by (rule id_take_nth_drop)
  with ab \<open>s ! i = c\<close> show "s = a @ c # b" by simp
qed

lemma set_trim: "set (trim s) \<subseteq> set s"
  by (auto simp: trim_def trim_end_def trim_start_def dest!: set_dropWhileD)

lemma trim_start_id: "s = [] \<or> \<not> is_whitespace (hd s) \<Longrightarrow> trim_start s = s"
  by (cases s) (auto simp: trim_start_def)

lemma trim_id:
  assumes "s = [] \<or> \<not> is_whitespace (hd s) \<and> \<not> is_whitespace (last s)"
  shows "trim s = s"
proof -
  from assms have "trim_start s = s" by (intro trim_start_id) auto
  moreover from assms have "trim_end s = s"
    by (cases s rule: rev_cases) (auto simp: trim_end_def)
  ultimately show ?thesis by (simp add: trim_def)
qed

lemma strip_prefix_Some: "strip_prefix p s = Some t \<longleftrightarrow> s = p @ t"
  by (auto simp: strip_prefix_def prefix_def)

lemma strip_suffix_Some: "strip_suffix p s = Some t \<longleftrightarrow> s = t @ p"
  by (auto simp: strip_suffix_def suffix_def)

lemma lower_char_idem [simp]: "lower_char (lower_char c) = lower_char c"
proof (cases "65 \<le> byte c \<and> byte c \<le> 90")
  case True
  then have "byte (lower_char c) = byte c + 32" by (simp add: lower_char_def byte_def)
  with True show ?thesis by (simp add: lower_char_def [of "lower_char c"])
next
  case False
  then have "lower_char c = c" by (simp only: lower_char_def if_False)
  then show ?thesis by simp
qed

lemma to_ascii_lowercase_idem [simp]:
  "to_ascii_lowercase (to_ascii_lowercase s) = to_ascii_lowercase s"
  by (simp add: to_ascii_lowercase_def)

lemma length_to_ascii_lowercase [simp]: "length (to_ascii_lowercase s) = length s"
  by (simp add: to_ascii_lowercase_def)

lemma rfind_char_None: "rfind_char c s = None \<longleftrightarrow> c \<notin> set s"
  by (auto simp: rfind_char_def find_char_None)

lemma rfind_char_Some:
  assumes "rfind_char c s = Some i"
  shows "i < length s" and "s ! i = c" and "c \<notin> set (drop (Suc i) s)"
proof -
  from assms obtain k where k: "find_char (\<lambda>x. x = c) (rev s) = Some k"
    and i: "i = length s - 1 - k"
    by (auto simp: rfind_char_def)
  from find_char_Some [OF k] have kl: "k < length s" and nth: "rev s ! k = c"
    and no: "c \<notin> set (take k (rev s))" by auto
  from kl i show "i < length s" by auto
  from nth kl i show "s ! i = c" by (simp add: rev_nth)
  from kl i have "take k (rev s) = rev (drop (Suc i) s)"
    by (simp add: take_rev Suc_diff_Suc)
  with no show "c \<notin> set (drop (Suc i) s)" by simp
qed

section \<open>Integers from text\<close>

definition digit_val :: "char \<Rightarrow> nat" where
  "digit_val c = byte c - 48"

definition digits_val :: "string \<Rightarrow> nat" where
  "digits_val s = foldl (\<lambda>n c. 10 * n + digit_val c) 0 s"

definition all_digits :: "string \<Rightarrow> bool" where
  "all_digits s \<longleftrightarrow> s \<noteq> [] \<and> (\<forall>c \<in> set s. is_ascii_digit c)"

text \<open>\<open>from_str\<close> of the integer types: an optional sign, then digits that fit.\<close>

definition skip_plus :: "string \<Rightarrow> string" where
  "skip_plus s = (case strip_prefix ''+'' s of Some r \<Rightarrow> r | None \<Rightarrow> s)"

definition parse_unsigned :: "nat \<Rightarrow> string \<Rightarrow> nat option" where
  "parse_unsigned bits s =
     (let ds = skip_plus s
      in if all_digits ds \<and> digits_val ds < 2 ^ bits then Some (digits_val ds) else None)"

definition parse_i64 :: "string \<Rightarrow> int option" where
  "parse_i64 s =
     (case strip_prefix ''-'' s of
        Some ds \<Rightarrow>
          (if all_digits ds \<and> digits_val ds \<le> 2 ^ 63 then Some (- int (digits_val ds)) else None)
      | None \<Rightarrow>
          (let ds = skip_plus s
           in if all_digits ds \<and> digits_val ds < 2 ^ 63 then Some (int (digits_val ds)) else None))"

lemma digits_val_bound: "\<forall>c \<in> set s. is_ascii_digit c \<Longrightarrow> digits_val s < 10 ^ length s"
proof (induction s rule: rev_induct)
  case Nil
  then show ?case by (simp add: digits_val_def)
next
  case (snoc c s)
  then have "digits_val s < 10 ^ length s" and "digit_val c < 10"
    by (auto simp: is_ascii_digit_def digit_val_def)
  then show ?case by (simp add: digits_val_def)
qed

lemma parse_i64_range:
  assumes "parse_i64 s = Some n"
  shows "- (2 ^ 63) \<le> n \<and> n < 2 ^ 63"
proof -
  have le: "int k \<le> 2 ^ 63" if "k \<le> 2 ^ 63" for k
    using that by (metis of_nat_le_iff of_nat_numeral of_nat_power)
  have less: "int k < 2 ^ 63" if "k < 2 ^ 63" for k
    using that by (metis of_nat_less_iff of_nat_numeral of_nat_power)
  show ?thesis
  proof (cases "strip_prefix ''-'' s")
    case None
    with assms have "digits_val (skip_plus s) < 2 ^ 63" and n: "n = int (digits_val (skip_plus s))"
      by (auto simp: parse_i64_def Let_def split: if_splits)
    with less show ?thesis by (smt (verit) of_nat_0_le_iff zero_le_power)
  next
    case (Some ds)
    with assms have "digits_val ds \<le> 2 ^ 63" and "n = - int (digits_val ds)"
      by (auto simp: parse_i64_def split: if_splits)
    with le show ?thesis by (smt (verit) of_nat_0_le_iff zero_less_power)
  qed
qed

text \<open>Decimal output of an unsigned integer (\<open>Display\<close>).\<close>

definition digit_char :: "nat \<Rightarrow> char" where
  "digit_char d = char_of (48 + d)"

fun show_nat :: "nat \<Rightarrow> string" where
  "show_nat n = (if n < 10 then [digit_char n] else show_nat (n div 10) @ [digit_char (n mod 10)])"

declare show_nat.simps [simp del]

lemma digit_char_digit: "d < 10 \<Longrightarrow> is_ascii_digit (digit_char d) \<and> digit_val (digit_char d) = d"
  by (simp add: is_ascii_digit_def digit_val_def digit_char_def byte_def)

lemma digits_val_snoc: "digits_val (s @ [c]) = 10 * digits_val s + digit_val c"
  by (simp add: digits_val_def)

lemma show_nat_all_digits: "all_digits (show_nat n)"
proof (induction n rule: show_nat.induct)
  case (1 n)
  show ?case
  proof (cases "n < 10")
    case True
    then show ?thesis by (simp add: show_nat.simps [of n] all_digits_def digit_char_digit)
  next
    case False
    with "1.IH" show ?thesis
      by (simp add: show_nat.simps [of n] all_digits_def digit_char_digit)
  qed
qed

lemma digits_val_show_nat: "digits_val (show_nat n) = n"
proof (induction n rule: show_nat.induct)
  case (1 n)
  show ?case
  proof (cases "n < 10")
    case True
    then show ?thesis
      using digits_val_snoc [of "[]"] by (simp add: show_nat.simps [of n] digit_char_digit digits_val_def)
  next
    case False
    then show ?thesis
      using "1.IH" by (simp add: show_nat.simps [of n] digits_val_snoc digit_char_digit)
  qed
qed

lemma show_nat_inject: "show_nat m = show_nat n \<longleftrightarrow> m = n"
  by (metis digits_val_show_nat)

section \<open>Machine integers\<close>

type_synonym u64 = "64 word"

definition u64_max :: u64 where
  "u64_max = - 1"

definition saturating_incr :: "u64 \<Rightarrow> u64" where
  "saturating_incr w = (if w = u64_max then u64_max else w + 1)"

lemma u64_max_ge [simp]: "w \<le> u64_max"
  by (simp add: u64_max_def)

lemma incr_greater:
  assumes "w \<noteq> u64_max"
  shows "w < w + 1"
proof -
  have "uint w \<noteq> uint u64_max" using assms by (simp add: word_uint_eq_iff)
  moreover have "uint u64_max = 2 ^ 64 - 1"
    by (simp add: u64_max_def unsigned_minus_1_eq_mask mask_eq_exp_minus_1)
  moreover have "uint w \<le> 2 ^ 64 - 1" using uint_lt2p [of w] by simp
  ultimately have "uint w + 1 < 2 ^ 64" by simp
  then have "uint (w + 1) = uint w + 1" by (simp add: uint_word_ariths)
  then show ?thesis by (simp add: word_less_def)
qed

lemma saturating_incr_mono: "w \<le> saturating_incr w"
  using incr_greater [of w] by (auto simp: saturating_incr_def)

section \<open>Time\<close>

type_synonym duration = nat
type_synonym system_time = int

definition nanos_per_sec :: nat where
  "nanos_per_sec = 1000000000"

definition max_time :: system_time where
  "max_time = 2 ^ 63 * int nanos_per_sec - 1"

definition min_time :: system_time where
  "min_time = - (2 ^ 63) * int nanos_per_sec"

definition max_duration :: duration where
  "max_duration = 2 ^ 64 * nanos_per_sec - 1"

definition from_secs :: "nat \<Rightarrow> duration" where
  "from_secs n = n * nanos_per_sec"

definition as_secs :: "duration \<Rightarrow> nat" where
  "as_secs d = d div nanos_per_sec"

definition checked_add :: "system_time \<Rightarrow> duration \<Rightarrow> system_time option" where
  "checked_add t d = (if t + int d \<le> max_time then Some (t + int d) else None)"

definition checked_sub :: "system_time \<Rightarrow> duration \<Rightarrow> system_time option" where
  "checked_sub t d = (if min_time \<le> t - int d then Some (t - int d) else None)"

text \<open>\<open>SystemTime::duration_since\<close>: \<^const>\<open>Inr\<close> is \<open>Ok\<close>, \<^const>\<open>Inl\<close> is the error holding the
  distance the other way.\<close>

definition duration_since :: "system_time \<Rightarrow> system_time \<Rightarrow> duration + duration" where
  "duration_since t u = (if u \<le> t then Inr (nat (t - u)) else Inl (nat (u - t)))"

definition duration_since_or_zero :: "system_time \<Rightarrow> system_time \<Rightarrow> duration" where
  "duration_since_or_zero t u = (case duration_since t u of Inr d \<Rightarrow> d | Inl _ \<Rightarrow> 0)"

definition saturating_add :: "duration \<Rightarrow> duration \<Rightarrow> duration" where
  "saturating_add a b = min (a + b) max_duration"

lemma duration_since_or_zero_eq: "duration_since_or_zero t u = nat (t - u)"
  by (simp add: duration_since_or_zero_def duration_since_def)

lemma checked_add_ge: "checked_add t d = Some u \<Longrightarrow> t \<le> u"
  by (auto simp: checked_add_def split: if_splits)

lemma as_secs_from_secs [simp]: "as_secs (from_secs n) = n"
  by (simp add: as_secs_def from_secs_def nanos_per_sec_def)

section \<open>Vectors and maps\<close>

text \<open>\<open>Vec::swap_remove\<close>: the last element takes the place of the removed one; an index out of
  range panics.\<close>

definition swap_remove :: "'a list \<Rightarrow> nat \<Rightarrow> ('a \<times> 'a list) option" where
  "swap_remove xs i =
     (if i < length xs then Some (xs ! i, butlast (xs[i := last xs])) else None)"

lemma swap_remove_Some:
  "i < length xs \<Longrightarrow> swap_remove xs i = Some (xs ! i, butlast (xs[i := last xs]))"
  by (simp add: swap_remove_def)

lemma nth_butlast_update:
  assumes "i < length xs" and "j < length xs - 1"
  shows "butlast (xs[i := last xs]) ! j = (if j = i then last xs else xs ! j)"
  using assms by (simp add: nth_butlast nth_list_update)

text \<open>Every element of the shortened vector is an element of the old one at another place.\<close>

lemma mset_snoc_last: "xs \<noteq> [] \<Longrightarrow> mset xs = add_mset (last xs) (mset (butlast xs))"
  by (cases xs rule: rev_cases) auto

lemma mset_swap_remove:
  assumes "i < length xs"
  shows "mset (butlast (xs[i := last xs])) = mset xs - {# xs ! i #}"
proof -
  from assms have ne: "xs \<noteq> []" by auto
  show ?thesis
  proof (cases "i = length xs - 1")
    case True
    with ne have "last xs = xs ! i" by (simp add: last_conv_nth)
    then show ?thesis using mset_snoc_last [OF ne] by simp
  next
    case False
    with assms have i: "i < length (butlast xs)" by auto
    then have "butlast (xs[i := last xs]) = (butlast xs)[i := last xs]"
      by (simp add: butlast_list_update)
    moreover have "xs ! i = butlast xs ! i" using i by (simp add: nth_butlast)
    ultimately show ?thesis using i mset_snoc_last [OF ne] by (simp add: mset_update)
  qed
qed

section \<open>Loops whose body may panic\<close>

text \<open>A \<open>for\<close> loop over a list whose body threads a state and may panic.\<close>

primrec for_each :: "('a \<Rightarrow> 's \<Rightarrow> 's option) \<Rightarrow> 'a list \<Rightarrow> 's \<Rightarrow> 's option" where
  "for_each f [] s = Some s"
| "for_each f (x # xs) s = Option.bind (f x s) (for_each f xs)"

lemma for_each_inv:
  assumes "\<And>x s. x \<in> set xs \<Longrightarrow> I s \<Longrightarrow> \<exists>s'. f x s = Some s' \<and> I s'" and "I s"
  shows "\<exists>s'. for_each f xs s = Some s' \<and> I s'"
  using assms
proof (induction xs arbitrary: s)
  case (Cons x xs)
  obtain s1 where "f x s = Some s1" "I s1" using Cons.prems by (meson list.set_intros(1))
  then show ?case using Cons.IH [of s1] Cons.prems(1) by simp
qed simp

text \<open>The same with an invariant that names the prefix already processed.\<close>

lemma for_each_prefix:
  assumes "\<And>pre x post s. xs = pre @ x # post \<Longrightarrow> I pre s \<Longrightarrow> \<exists>s'. f x s = Some s' \<and> I (pre @ [x]) s'"
    and "I [] s"
  shows "\<exists>s'. for_each f xs s = Some s' \<and> I xs s'"
proof -
  have "\<exists>s'. for_each f post s = Some s' \<and> I xs s'" if "xs = pre @ post" and "I pre s" for pre post s
    using that
  proof (induction post arbitrary: pre s)
    case (Cons x post)
    then obtain s1 where "f x s = Some s1" and "I (pre @ [x]) s1" using assms(1) by blast
    with Cons.IH [of "pre @ [x]" s1] Cons.prems(1) show ?case by simp
  qed simp
  from this [of "[]"] assms(2) show ?thesis by simp
qed

definition usize_max :: nat where
  "usize_max = 2 ^ 64 - 1"

definition saturating_mul :: "nat \<Rightarrow> nat \<Rightarrow> nat" where
  "saturating_mul a b = min (a * b) usize_max"

section \<open>Hash maps as association lists\<close>

lemma sum_delete:
  fixes f :: "'b \<Rightarrow> nat"
  assumes "distinct (map fst xs)"
  shows "sum_list (map (f \<circ> snd) xs) =
    (case map_of xs k of Some v \<Rightarrow> f v | None \<Rightarrow> 0) + sum_list (map (f \<circ> snd) (AList.delete k xs))"
  using assms
proof (induction xs)
  case (Cons x xs)
  obtain k' v where x: "x = (k', v)" by force
  show ?case
  proof (cases "k' = k")
    case True
    with Cons.prems x have "k \<notin> fst ` set xs" by simp
    then have "AList.delete k xs = xs" by (simp add: delete_id)
    with True x show ?thesis by (simp add: AList.delete_eq)
  next
    case False
    with Cons x show ?thesis by (simp add: AList.delete_eq)
  qed
qed simp

lemma sum_update:
  fixes f :: "'b \<Rightarrow> nat"
  assumes "distinct (map fst xs)"
  shows "sum_list (map (f \<circ> snd) (AList.update k v xs)) =
    f v + sum_list (map (f \<circ> snd) (AList.delete k xs))"
  using sum_delete [of "AList.update k v xs" f k] assms
  by (simp add: distinct_update update_conv' delete_update_same)

lemma update_memD: "(k', v') \<in> set (AList.update k v xs) \<Longrightarrow> k' = k \<and> v' = v \<or> (k', v') \<in> set xs"
  by (induction xs) (auto split: if_splits)

lemma update_mem_iff:
  assumes "distinct (map fst xs)"
  shows "(k', v') \<in> set (AList.update k v xs) \<longleftrightarrow> k' = k \<and> v' = v \<or> k' \<noteq> k \<and> (k', v') \<in> set xs"
proof -
  have d: "distinct (map fst (AList.update k v xs))" by (rule distinct_update) (rule assms)
  show ?thesis
    unfolding map_of_eq_Some_iff [OF d, symmetric] map_of_eq_Some_iff [OF assms, symmetric]
    by (auto simp: update_conv')
qed

lemma distinct_keys_filter: "distinct (map fst xs) \<Longrightarrow> distinct (map fst (filter P xs))"
  by (induction xs) auto

lemma map_of_subset:
  assumes "distinct (map fst ys)" and "set xs \<subseteq> set ys"
  shows "map_of xs \<subseteq>\<^sub>m map_of ys"
proof -
  have "map_of ys k = Some v" if "map_of xs k = Some v" for k v
    using map_of_is_SomeI [OF assms(1)] map_of_SomeD [OF that] assms(2) by blast
  then show ?thesis by (auto simp: map_le_def dom_def)
qed

section \<open>Evicting the least entries of a map\<close>

text \<open>\<open>Iterator::min_by_key\<close>: the first of the elements whose key is least.\<close>

fun min_by_key :: "('a \<Rightarrow> 'o::linorder) \<Rightarrow> 'a list \<Rightarrow> 'a option" where
  "min_by_key f [] = None"
| "min_by_key f (x # xs) =
     (case min_by_key f xs of None \<Rightarrow> Some x | Some y \<Rightarrow> Some (if f y < f x then y else x))"

lemma min_by_key_None [simp]: "min_by_key f xs = None \<longleftrightarrow> xs = []"
  by (cases xs) (auto split: option.splits)

lemma min_by_keyD:
  assumes "min_by_key f xs = Some m"
  shows "m \<in> set xs" and "\<forall>x \<in> set xs. f m \<le> f x"
proof -
  have "m \<in> set xs \<and> (\<forall>x \<in> set xs. f m \<le> f x)"
    using assms
  proof (induction xs arbitrary: m)
    case (Cons x xs)
    show ?case
    proof (cases "min_by_key f xs")
      case None
      with Cons.prems show ?thesis by simp
    next
      case (Some y)
      with Cons.prems Cons.IH [OF Some] show ?thesis by (auto split: if_splits)
    qed
  qed simp
  then show "m \<in> set xs" and "\<forall>x \<in> set xs. f m \<le> f x" by simp_all
qed

lemma set_delete: "set (AList.delete k xs) = {x \<in> set xs. fst x \<noteq> k}"
  by (auto simp: AList.delete_eq)

lemma length_delete_less:
  assumes "k \<in> fst ` set xs"
  shows "length (AList.delete k xs) < length xs"
proof -
  from assms obtain e where "e \<in> set xs" and "fst e = k" by auto
  then show ?thesis unfolding AList.delete_eq by (intro length_filter_less [of e]) (auto split: prod.splits)
qed

lemma length_delete_mem:
  assumes "distinct (map fst xs)" and "k \<in> fst ` set xs"
  shows "length (AList.delete k xs) = length xs - 1"
proof -
  obtain v where v: "map_of xs k = Some v"
    using assms(2) by (cases "map_of xs k") (simp_all add: map_of_eq_None_iff)
  have "map ((\<lambda>_. 1) \<circ> snd) ys = replicate (length ys) (1 :: nat)" for ys :: "('a \<times> 'b) list"
    by (simp add: map_replicate_const comp_def)
  then show ?thesis using sum_delete [OF assms(1), where f = "\<lambda>_. 1" and k = k] v
    by (simp add: sum_list_replicate)
qed

text \<open>The eviction loop the bounded stores share: while the map is above its capacity, remove an entry
  whose key is least.\<close>

function drop_least :: "('v \<Rightarrow> 'o::linorder) \<Rightarrow> nat \<Rightarrow> ('k \<times> 'v) list \<Rightarrow> ('k \<times> 'v) list" where
  "drop_least f cap xs =
     (if length xs \<le> cap then xs
      else (case min_by_key (\<lambda>e. f (snd e)) xs of
              None \<Rightarrow> xs
            | Some victim \<Rightarrow> drop_least f cap (AList.delete (fst victim) xs)))"
  by pat_completeness auto
termination
  by (relation "measure (\<lambda>(f, cap, xs). length xs)") (auto intro!: length_delete_less dest: min_by_keyD(1))

declare drop_least.simps [simp del]

lemma drop_least_id: "length xs \<le> cap \<Longrightarrow> drop_least f cap xs = xs"
  by (subst drop_least.simps) simp

lemma drop_least_induct [consumes 1, case_names keep drop]:
  assumes "distinct (map fst xs)"
    and "\<And>xs. length xs \<le> cap \<Longrightarrow> P xs xs"
    and "\<And>xs k v ys. cap < length xs \<Longrightarrow> distinct (map fst xs) \<Longrightarrow> (k, v) \<in> set xs \<Longrightarrow>
      \<forall>x \<in> set xs. f v \<le> f (snd x) \<Longrightarrow> P (AList.delete k xs) ys \<Longrightarrow> P xs ys"
  shows "P xs (drop_least f cap xs)"
  using assms(1)
proof (induction "length xs" arbitrary: xs rule: less_induct)
  case less
  show ?case
  proof (cases "length xs \<le> cap")
    case True
    then show ?thesis by (simp add: drop_least_id assms(2))
  next
    case False
    then have "xs \<noteq> []" by auto
    then obtain k v where m: "min_by_key (\<lambda>e. f (snd e)) xs = Some (k, v)"
      using min_by_key_None [of "\<lambda>e. f (snd e)" xs] by (metis not_Some_eq surj_pair)
    note mem = min_by_keyD [OF m]
    have step: "drop_least f cap xs = drop_least f cap (AList.delete k xs)"
      using False m by (subst drop_least.simps) simp
    have "length (AList.delete k xs) < length xs"
      using mem(1) by (intro length_delete_less) force
    with less have "P (AList.delete k xs) (drop_least f cap (AList.delete k xs))"
      by (simp add: distinct_delete)
    then show ?thesis
      using False less.prems mem assms(3) [of xs k v] step by simp
  qed
qed

lemma drop_least_length:
  assumes "distinct (map fst xs)"
  shows "length (drop_least f cap xs) = min (length xs) cap"
  using assms
proof (rule drop_least_induct [where P = "\<lambda>xs ys. length ys = min (length xs) cap"])
  fix xs :: "('k \<times> 'v) list" and k v and ys :: "('k \<times> 'v) list"
  assume "cap < length xs" and "distinct (map fst xs)" and "(k, v) \<in> set xs"
    and IH: "length ys = min (length (AList.delete k xs)) cap"
  moreover from this have "length (AList.delete k xs) = length xs - 1"
    by (intro length_delete_mem) force+
  ultimately show "length ys = min (length xs) cap" by simp
qed simp

lemma drop_least_keeps:
  assumes "distinct (map fst xs)"
  shows "distinct (map fst (drop_least f cap xs)) \<and> set (drop_least f cap xs) \<subseteq> set xs"
proof -
  have "distinct (map fst xs) \<longrightarrow> distinct (map fst (drop_least f cap xs)) \<and> set (drop_least f cap xs) \<subseteq> set xs"
    using assms
    by (rule drop_least_induct
        [where P = "\<lambda>xs ys. distinct (map fst xs) \<longrightarrow> distinct (map fst ys) \<and> set ys \<subseteq> set xs"])
      (auto simp: distinct_delete set_delete)
  with assms show ?thesis by simp
qed

text \<open>What the loop drops has a key no larger than anything it keeps.\<close>

definition least_dropped :: "('v \<Rightarrow> 'o::linorder) \<Rightarrow> ('k \<times> 'v) list \<Rightarrow> ('k \<times> 'v) list \<Rightarrow> bool" where
  "least_dropped f xs ys \<longleftrightarrow> set ys \<subseteq> set xs
     \<and> (\<forall>x \<in> set xs - set ys. \<forall>y \<in> set ys. f (snd x) \<le> f (snd y))"

lemma least_dropped_step:
  assumes "distinct (map fst xs)" and "(k, v) \<in> set xs" and "\<forall>x \<in> set xs. f v \<le> f (snd x)"
    and "least_dropped f (AList.delete k xs) ys"
  shows "least_dropped f xs ys"
proof -
  have "f (snd x) \<le> f (snd y)" if "x \<in> set xs" "x \<notin> set ys" "y \<in> set ys" for x y
  proof (cases "fst x = k")
    case True
    then have "snd x = v" using eq_key_imp_eq_value [OF assms(1, 2), of "snd x"] that(1) by (cases x) simp
    moreover have "y \<in> set xs" using assms(4) that(3) by (auto simp: least_dropped_def set_delete)
    ultimately show ?thesis using assms(3) by simp
  next
    case False
    with that assms(4) show ?thesis by (simp add: least_dropped_def set_delete)
  qed
  moreover have "set ys \<subseteq> set xs" using assms(4) by (auto simp: least_dropped_def set_delete)
  ultimately show ?thesis by (simp add: least_dropped_def)
qed

lemma drop_least_worst:
  assumes "distinct (map fst xs)"
  shows "least_dropped f xs (drop_least f cap xs)"
  using assms
  by (rule drop_least_induct [where P = "least_dropped f"])
    (simp_all add: least_dropped_def [of _ xs xs for xs] least_dropped_step)

end
