(* ===== verification/Calendar.thy ===== *)
theory Calendar
  imports Rust_Std
begin

text \<open>
  The civil calendar arithmetic the date parsers share. \<open>days_from_civil\<close> is copied in three
  crates (\<open>chromulate-cookie/src/date.rs\<close>, \<open>chromulate-cache/src/date.rs\<close> and
  \<open>chromulate-concurrency/src/adaptive/date.rs\<close>); it is modelled once, with Rust's truncating
  division, and shown to be the naive count of days over year and month lengths.
\<close>

section \<open>The algorithm of the source\<close>

definition days_from_civil :: "int \<Rightarrow> nat \<Rightarrow> nat \<Rightarrow> int" where
  "days_from_civil y0 m d =
     (let y = (if m \<le> 2 then y0 - 1 else y0);
          era = (if 0 \<le> y then y else y - 399) sdiv 400;
          yoe = y - era * 400;
          mp = (int m + 9) smod 12;
          doy = (153 * mp + 2) sdiv 5 + int d - 1;
          doe = yoe * 365 + yoe sdiv 4 - yoe sdiv 100 + doy
      in era * 146097 + doe - 719468)"

section \<open>The naive calendar\<close>

definition leap_year :: "int \<Rightarrow> bool" where
  "leap_year y \<longleftrightarrow> 4 dvd y \<and> (\<not> 100 dvd y \<or> 400 dvd y)"

definition year_len :: "int \<Rightarrow> int" where
  "year_len y = (if leap_year y then 366 else 365)"

definition month_len :: "int \<Rightarrow> nat \<Rightarrow> int" where
  "month_len y m =
     (if m = 2 then (if leap_year y then 29 else 28)
      else if m \<in> {4, 6, 9, 11} then 30 else 31)"

definition civil_days :: "int \<Rightarrow> nat \<Rightarrow> nat \<Rightarrow> int" where
  "civil_days y m d =
     (\<Sum>k \<in> {1970..<y}. year_len k) - (\<Sum>k \<in> {y..<1970}. year_len k)
     + (\<Sum>k \<in> {1..<m}. month_len y k) + (int d - 1)"

definition valid_date :: "int \<Rightarrow> nat \<Rightarrow> nat \<Rightarrow> bool" where
  "valid_date y m d \<longleftrightarrow> 1 \<le> m \<and> m \<le> 12 \<and> 1 \<le> d \<and> int d \<le> month_len y m"

fun next_day :: "int \<times> nat \<times> nat \<Rightarrow> int \<times> nat \<times> nat" where
  "next_day (y, m, d) =
     (if int d < month_len y m then (y, m, d + 1)
      else if m < 12 then (y, m + 1, 1) else (y + 1, 1, 1))"

section \<open>The algorithm is the naive count\<close>

lemma sdiv_nonneg: "0 \<le> a \<Longrightarrow> 0 < b \<Longrightarrow> a sdiv b = a div (b::int)"
  by (cases "a = 0") (simp_all add: signed_divide_int_def)

lemma era_floor: "(if 0 \<le> y then y else y - 399) sdiv 400 = y div (400::int)"
proof (cases "0 \<le> y")
  case True
  then show ?thesis by (simp add: sdiv_nonneg)
next
  case False
  define q where "q = y div 400"
  define r where "r = y mod 400"
  have y: "y = 400 * q + r" and r: "0 \<le> r" "r < 400" by (simp_all add: q_def r_def)
  have "399 - y = (399 - r) + (- q) * 400" using y by simp
  then have "(399 - y) div 400 = (399 - r) div 400 + - q" by (simp only: div_mult_self1)
  with r have "(399 - y) div 400 = - q" by simp
  moreover from False have "(y - 399) sdiv 400 = - ((399 - y) div 400)"
    by (simp add: signed_divide_int_def)
  ultimately show ?thesis using False q_def by simp
qed

lemma smod_nonneg: "0 \<le> a \<Longrightarrow> 0 < b \<Longrightarrow> a smod b = a mod (b::int)"
  by (simp add: signed_modulo_int_def sgn_mult minus_mult_div_eq_mod [symmetric])
     (cases "a = 0"; simp)

text \<open>The shifted year (March first), the days before it, and the days before a month in it.\<close>

definition shifted_year :: "int \<Rightarrow> nat \<Rightarrow> int" where
  "shifted_year y m = (if m \<le> 2 then y - 1 else y)"

definition year_days :: "int \<Rightarrow> int" where
  "year_days s = 365 * s + s div 4 - s div 100 + s div 400"

definition month_days :: "nat \<Rightarrow> int" where
  "month_days m = (153 * ((int m + 9) mod 12) + 2) div 5"

lemma days_from_civil_closed:
  "days_from_civil y m d = year_days (shifted_year y m) + month_days m + int d - 719469"
proof -
  define s where "s = shifted_year y m"
  define r where "r = s mod 400"
  define e where "e = s div 400"
  have s: "s = 400 * e + r" and r: "0 \<le> r" "r < 400"
    unfolding e_def r_def by simp_all
  have d4: "s div 4 = 100 * e + r div 4" and d100: "s div 100 = 4 * e + r div 100"
    using s by simp_all
  have mp: "(int m + 9) smod 12 = (int m + 9) mod 12" by (simp add: smod_nonneg)
  have doy: "(153 * ((int m + 9) mod 12) + 2) sdiv 5 = month_days m"
    unfolding month_days_def by (rule sdiv_nonneg) simp_all
  have "days_from_civil y m d =
      e * 146097 + ((s - e * 400) * 365 + (s - e * 400) sdiv 4 - (s - e * 400) sdiv 100
        + (month_days m + int d - 1)) - 719468"
    unfolding days_from_civil_def Let_def era_floor mp doy
    by (simp add: e_def s_def shifted_year_def)
  also have "s - e * 400 = r" using s by simp
  also have "r sdiv 4 = r div 4" using r by (simp add: sdiv_nonneg)
  also have "r sdiv 100 = r div 100" using r by (simp add: sdiv_nonneg)
  finally show ?thesis
    unfolding s_def [symmetric] year_days_def d4 d100 using s r by simp
qed

lemma div_step:
  assumes "0 < n"
  shows "y div n - (y - 1) div n = (if n dvd y then 1 else (0::int))"
proof (cases "n dvd y")
  case True
  then obtain k where k: "y = n * k" by blast
  then have "y - 1 = n * (k - 1) + (n - 1)" by (simp add: algebra_simps)
  then have "(y - 1) div n = k - 1" by (rule int_div_pos_eq) (use assms in auto)
  with True k assms show ?thesis by simp
next
  case False
  then have "y mod n \<noteq> 0" by (simp add: dvd_eq_mod_eq_0)
  with assms have "0 < y mod n" and "y mod n < n"
    using pos_mod_sign [OF assms, of y] by (auto simp del: pos_mod_sign)
  moreover have "y - 1 = n * (y div n) + (y mod n - 1)" by simp
  ultimately have "(y - 1) div n = y div n"
    by (intro int_div_pos_eq [of _ _ _ "y mod n - 1"]) linarith+
  with False show ?thesis by simp
qed

lemma year_days_step: "year_days y = year_days (y - 1) + year_len y"
proof -
  have gen: "365 + (if a then 1 else 0) - (if b then 1 else 0) + (if c then 1 else (0::int))
      = (if a \<and> (\<not> b \<or> c) then 366 else 365)" if "b \<longrightarrow> a" and "c \<longrightarrow> b" for a b c :: bool
    using that by (cases a; cases b; cases c) simp_all
  have up: "400 dvd y \<longrightarrow> 100 dvd y"
    by (rule impI, erule dvd_trans [rotated]) simp
  have up': "100 dvd y \<longrightarrow> 4 dvd y"
    by (rule impI, erule dvd_trans [rotated]) simp
  have s4: "y div 4 - (y - 1) div 4 = (if 4 dvd y then 1 else 0)" by (rule div_step) simp
  have s100: "y div 100 - (y - 1) div 100 = (if 100 dvd y then 1 else 0)" by (rule div_step) simp
  have s400: "y div 400 - (y - 1) div 400 = (if 400 dvd y then 1 else 0)" by (rule div_step) simp
  have lin: "365 * y + a - b + c - (365 * (y - 1) + a' - b' + c')
      = 365 + (a - a') - (b - b') + (c - c')" for a b c a' b' c' :: int
    by simp
  have "year_days y - year_days (y - 1) =
      365 + (y div 4 - (y - 1) div 4) - (y div 100 - (y - 1) div 100)
        + (y div 400 - (y - 1) div 400)"
    unfolding year_days_def by (rule lin)
  also have "\<dots> = 365 + (if 4 dvd y then 1 else 0) - (if 100 dvd y then 1 else 0)
        + (if 400 dvd y then 1 else 0)"
    unfolding s4 s100 s400 ..
  also have "\<dots> = year_len y"
    unfolding year_len_def leap_year_def using up' up by (rule gen)
  finally show ?thesis by simp
qed

lemma month_cases:
  assumes "1 \<le> m" and "m \<le> (12::nat)"
  obtains "m = 1" | "m = 2" | "m = 3" | "m = 4" | "m = 5" | "m = 6" | "m = 7" | "m = 8"
    | "m = 9" | "m = 10" | "m = 11" | "m = 12"
proof -
  have "[1..<13] = [1, 2, 3, 4, 5, 6, 7, 8, 9, 10, 11, 12]" by (simp add: upt_rec)
  moreover from assms have "m \<in> set [1..<13]" by simp
  ultimately have "m \<in> set [1, 2, 3, 4, 5, 6, 7, 8, 9, 10, 11, 12]" by simp
  then show ?thesis using that by auto
qed

lemma month_days_table:
  "month_days 1 = 306" "month_days 2 = 337" "month_days 3 = 0" "month_days 4 = 31"
  "month_days 5 = 61" "month_days 6 = 92" "month_days 7 = 122" "month_days 8 = 153"
  "month_days 9 = 184" "month_days 10 = 214" "month_days 11 = 245" "month_days 12 = 275"
  by (simp_all add: month_days_def)

lemma days_from_civil_day:
  "days_from_civil y m d = days_from_civil y m 1 + (int d - 1)"
  by (simp add: days_from_civil_closed)

lemma days_from_civil_january:
  "days_from_civil y 1 1 = year_days (y - 1) + 306 - 719468"
  using month_days_table(1) by (simp add: days_from_civil_closed shifted_year_def)

lemma days_from_civil_year_step:
  "days_from_civil (y + 1) 1 1 = days_from_civil y 1 1 + year_len y"
  using year_days_step [of y] unfolding days_from_civil_january by simp

lemma days_from_civil_month_step:
  assumes "1 \<le> m" and "m < 12"
  shows "days_from_civil y (m + 1) 1 = days_from_civil y m 1 + month_len y m"
proof -
  have "year_days (shifted_year y (m + 1)) + month_days (m + 1)
      = year_days (shifted_year y m) + month_days m + month_len y m"
    using assms(1) less_imp_le [OF assms(2)] assms(2) year_days_step [of y]
    by (cases rule: month_cases)
       (simp_all add: shifted_year_def month_len_def year_len_def month_days_def)
  then show ?thesis by (simp add: days_from_civil_closed)
qed

lemma days_from_civil_year_up:
  "1970 \<le> y \<Longrightarrow> days_from_civil y 1 1 = (\<Sum>k \<in> {1970..<y}. year_len k)"
proof (induction y rule: int_ge_induct)
  case base
  show ?case unfolding days_from_civil_january by (simp add: year_days_def)
next
  case (step y)
  then have "{1970..<y + 1} = insert y {1970..<y}" by auto
  with step days_from_civil_year_step [of y] show ?case by simp
qed

lemma days_from_civil_year_down:
  "y \<le> 1970 \<Longrightarrow> days_from_civil y 1 1 = - (\<Sum>k \<in> {y..<1970}. year_len k)"
proof (induction y rule: int_le_induct)
  case base
  show ?case unfolding days_from_civil_january by (simp add: year_days_def)
next
  case (step y)
  then have "{y - 1..<1970} = insert (y - 1) {y..<1970}" by auto
  with step days_from_civil_year_step [of "y - 1"] show ?case by simp
qed

lemma days_from_civil_month:
  assumes "1 \<le> m" and "m \<le> 12"
  shows "days_from_civil y m 1 = days_from_civil y 1 1 + (\<Sum>k \<in> {1..<m}. month_len y k)"
  using assms
proof (induction m rule: nat_induct_at_least)
  case base
  show ?case by simp
next
  case (Suc m)
  then have "days_from_civil y (m + 1) 1 = days_from_civil y m 1 + month_len y m"
    by (intro days_from_civil_month_step) auto
  moreover from Suc.hyps have "{1..<Suc m} = insert m {1..<m}" by auto
  ultimately show ?case using Suc by simp
qed

lemma days_from_civil_naive:
  assumes "1 \<le> m" and "m \<le> 12"
  shows "days_from_civil y m d = civil_days y m d"
proof -
  have "days_from_civil y 1 1 = (\<Sum>k \<in> {1970..<y}. year_len k) - (\<Sum>k \<in> {y..<1970}. year_len k)"
    using days_from_civil_year_up [of y] days_from_civil_year_down [of y]
    by (cases "1970 \<le> y") simp_all
  then show ?thesis
    using days_from_civil_day [of y m d] days_from_civil_month [OF assms, of y]
    by (simp add: civil_days_def)
qed

lemma days_from_civil_next:
  assumes "valid_date y m d" and "next_day (y, m, d) = (y', m', d')"
  shows "days_from_civil y' m' d' = days_from_civil y m d + 1"
proof -
  have m: "1 \<le> m" "m \<le> 12" and d: "1 \<le> d" "int d \<le> month_len y m"
    using assms(1) by (auto simp: valid_date_def)
  consider (day) "int d < month_len y m" | (month) "int d = month_len y m" "m < 12"
    | (year) "int d = month_len y m" "m = 12"
    using m d by linarith
  then show ?thesis
  proof cases
    case day
    then have "y' = y" "m' = m" "d' = d + 1" using assms(2) by simp_all
    then show ?thesis using days_from_civil_day [of y m d] days_from_civil_day [of y m "d + 1"] by simp
  next
    case month
    then have "y' = y" "m' = m + 1" "d' = 1" using assms(2) by simp_all
    then show ?thesis
      using month m days_from_civil_day [of y m d] days_from_civil_month_step [of m y] by simp
  next
    case year
    then have eqs: "y' = y + 1" "m' = 1" "d' = 1" "d = 31"
      using assms(2) by (auto simp: month_len_def)
    show ?thesis
      unfolding eqs year(2) days_from_civil_january
      using month_days_table(12) by (simp add: days_from_civil_closed shifted_year_def)
  qed
qed

text \<open>
  The instants the parsers can produce: from the first day of 1601 to the last day of 9999, with
  the day of the month anything up to 31 (a day past the end of its month rolls over).
\<close>

lemma year_days_mono: "y \<le> z \<Longrightarrow> year_days y \<le> year_days z"
proof (induction z rule: int_ge_induct)
  case base
  show ?case by simp
next
  case (step z)
  then show ?case using year_days_step [of "z + 1"] by (simp add: year_len_def split: if_splits)
qed

lemma month_sum_mono:
  "m \<le> n \<Longrightarrow> (\<Sum>k \<in> {1..<m}. month_len y k) \<le> (\<Sum>k \<in> {1..<n}. month_len y k)"
  by (rule sum_mono2) (auto simp: month_len_def)

lemma days_from_civil_range:
  assumes "1601 \<le> y" and "y \<le> 9999" and "1 \<le> m" and "m \<le> 12" and "1 \<le> d" and "d \<le> 31"
  shows "days_from_civil 1601 1 1 \<le> days_from_civil y m d"
    and "days_from_civil y m d \<le> days_from_civil 9999 12 31"
proof -
  have jan: "days_from_civil y 1 1 \<le> days_from_civil y m d"
    using days_from_civil_day [of y m d] days_from_civil_month [OF assms(3,4), of y]
      month_sum_mono [of 1 m y] assms by simp
  moreover have "days_from_civil 1601 1 1 \<le> days_from_civil y 1 1"
    using year_days_mono [of 1600 "y - 1"] assms unfolding days_from_civil_january by simp
  ultimately show "days_from_civil 1601 1 1 \<le> days_from_civil y m d" by simp
  have "days_from_civil y m d \<le> days_from_civil y 12 31"
    using days_from_civil_day [of y m d] days_from_civil_day [of y 12 31]
      days_from_civil_month [OF assms(3,4), of y] days_from_civil_month [of 12 y]
      month_sum_mono [of m 12 y] assms by simp
  also have "\<dots> \<le> days_from_civil 9999 12 31"
    using year_days_mono [of y 9999] assms by (simp add: days_from_civil_closed shifted_year_def)
  finally show "days_from_civil y m d \<le> days_from_civil 9999 12 31" .
qed

lemma civil_range_ends:
  "days_from_civil 1601 1 1 = - 134774" "days_from_civil 9999 12 31 = 2932896"
  by code_simp+

section \<open>Properties\<close>

text \<open>C35: The closed-form day count \<open>days_from_civil\<close> is the calendar: for every year, month and day it
  counts the days since 1 January 1970 exactly as summing the lengths of the intervening years and
  months does, leap years included, before and after the epoch.\<close>
theorem days_from_civil_counts_days:
  assumes "1 \<le> m" and "m \<le> 12"
  shows "days_from_civil y m d = civil_days y m d"
  using assms by (rule days_from_civil_naive)

theorem days_from_civil_counts_days_witness:
  "days_from_civil 2000 3 1 = civil_days 2000 3 1 \<and> civil_days 2000 3 1 = 11017"
  using days_from_civil_counts_days [of 3 2000 1] by code_simp

end
