(* ===== verification/Core.thy ===== *)
theory Core
  imports Rust_Std
begin

text \<open>
  The shared vocabulary of \<open>chromulate-core\<close>: origins and the referrer policy
  (\<open>src/uri.rs\<close>), and the fetch context a request carries (\<open>src/request.rs\<close>).

  The \<open>url\<close> crate is outside the repository. A \<open>Url\<close> is the record of what its accessors
  return; its serialisation (\<open>Display\<close>) is the parameter \<open>url_to_string\<close> of the operation that
  prints one.
\<close>

section \<open>URLs and origins\<close>

record url =
  url_scheme :: string
  url_username :: string
  url_password :: "string option"
  url_host_str :: "string option"
  url_port_or_known_default :: "nat option"
  url_path :: string
  url_query :: "string option"
  url_fragment :: "string option"

datatype core_error = UrlHasNoHost | SchemeHasNoDefaultPort

record origin =
  origin_scheme :: string
  origin_host :: string
  origin_port :: nat

definition origin_of :: "url \<Rightarrow> core_error + origin" where
  "origin_of u =
     (case url_host_str u of
        None \<Rightarrow> Inl UrlHasNoHost
      | Some host \<Rightarrow>
          (case url_port_or_known_default u of
             None \<Rightarrow> Inl SchemeHasNoDefaultPort
           | Some port \<Rightarrow>
               Inr \<lparr>origin_scheme = to_ascii_lowercase (url_scheme u),
                    origin_host = to_ascii_lowercase host,
                    origin_port = port\<rparr>))"

definition is_secure :: "origin \<Rightarrow> bool" where
  "is_secure g \<longleftrightarrow> origin_scheme g = ''https'' \<or> origin_scheme g = ''wss''"

definition default_port :: "string \<Rightarrow> nat" where
  "default_port scheme =
     (if scheme = ''http'' \<or> scheme = ''ws'' then 80
      else if scheme = ''https'' \<or> scheme = ''wss'' then 443
      else 0)"

definition ascii_serialization :: "origin \<Rightarrow> string" where
  "ascii_serialization g =
     (if origin_port g = default_port (origin_scheme g)
      then origin_scheme g @ ''://'' @ origin_host g
      else origin_scheme g @ ''://'' @ origin_host g @ '':'' @ show_nat (origin_port g))"

definition referrer_for :: "(url \<Rightarrow> string) \<Rightarrow> url \<Rightarrow> url \<Rightarrow> string option" where
  "referrer_for url_to_string from to =
     (case origin_of from of
        Inl _ \<Rightarrow> None
      | Inr from_origin \<Rightarrow>
          (case origin_of to of
             Inl _ \<Rightarrow> None
           | Inr to_origin \<Rightarrow>
               if is_secure from_origin \<and> \<not> is_secure to_origin then None
               else if from_origin = to_origin
               then Some (url_to_string
                      (from\<lparr>url_fragment := None, url_username := [], url_password := None\<rparr>))
               else Some (ascii_serialization from_origin @ ''/'')))"

section \<open>Fetch context\<close>

datatype fetch_mode = Navigate | Cors | NoCors | SameOriginMode | Websocket

definition fetch_mode_str :: "fetch_mode \<Rightarrow> string" where
  "fetch_mode_str m =
     (case m of Navigate \<Rightarrow> ''navigate'' | Cors \<Rightarrow> ''cors'' | NoCors \<Rightarrow> ''no-cors''
      | SameOriginMode \<Rightarrow> ''same-origin'' | Websocket \<Rightarrow> ''websocket'')"

datatype fetch_dest = Document | Iframe | Script | Style | Image | Font | EmptyDest

definition fetch_dest_str :: "fetch_dest \<Rightarrow> string" where
  "fetch_dest_str d =
     (case d of Document \<Rightarrow> ''document'' | Iframe \<Rightarrow> ''iframe'' | Script \<Rightarrow> ''script''
      | Style \<Rightarrow> ''style'' | Image \<Rightarrow> ''image'' | Font \<Rightarrow> ''font'' | EmptyDest \<Rightarrow> ''empty'')"

datatype redirect_policy = Follow nat | NoRedirect

definition default_redirect_policy :: redirect_policy where
  "default_redirect_policy = Follow 20"

record request_options =
  opt_timeout :: "duration option"
  opt_head_timeout :: "duration option"
  opt_redirect :: redirect_policy
  opt_mode :: fetch_mode
  opt_dest :: fetch_dest
  opt_initiator :: "origin option"
  opt_referrer :: "url option"
  opt_preserve_caller_headers :: bool

definition default_options :: request_options where
  "default_options =
     \<lparr>opt_timeout = None, opt_head_timeout = None, opt_redirect = default_redirect_policy,
      opt_mode = Cors, opt_dest = EmptyDest, opt_initiator = None, opt_referrer = None,
      opt_preserve_caller_headers = False\<rparr>"

definition navigation_options :: request_options where
  "navigation_options = default_options\<lparr>opt_mode := Navigate, opt_dest := Document\<rparr>"

definition api_options :: request_options where
  "api_options = default_options\<lparr>opt_mode := Cors, opt_dest := EmptyDest\<rparr>"

record cookie_context =
  cc_initiator :: "origin option"
  cc_top_level_navigation :: bool

definition conservative_default :: cookie_context where
  "conservative_default = \<lparr>cc_initiator = None, cc_top_level_navigation = True\<rparr>"

definition cookie_context_of :: "request_options \<Rightarrow> cookie_context" where
  "cookie_context_of opts =
     (case opt_initiator opts of
        None \<Rightarrow> conservative_default
      | Some initiator \<Rightarrow>
          \<lparr>cc_initiator = Some initiator, cc_top_level_navigation = (opt_mode opts = Navigate)\<rparr>)"

section \<open>Facts on origins\<close>

lemma origin_of_Inr:
  assumes "origin_of u = Inr g"
  shows "origin_host g = to_ascii_lowercase (the (url_host_str u))"
    and "origin_scheme g = to_ascii_lowercase (url_scheme u)"
    and "url_port_or_known_default u = Some (origin_port g)"
  using assms by (auto simp: origin_of_def split: option.splits)

text \<open>
  The hosts a URL carries: a colon only inside the brackets of an IPv6 literal. Schemes carry no
  colon.
\<close>

definition host_ok :: "string \<Rightarrow> bool" where
  "host_ok h \<longleftrightarrow> CHR '':'' \<notin> set h \<or> (h \<noteq> [] \<and> last h = CHR '']'')"

definition origin_ok :: "origin \<Rightarrow> bool" where
  "origin_ok g \<longleftrightarrow> CHR '':'' \<notin> set (origin_scheme g) \<and> host_ok (origin_host g)"

lemma digits_no_colon: "all_digits s \<Longrightarrow> CHR '':'' \<notin> set s"
  by (auto simp: all_digits_def is_ascii_digit_def byte_def)

lemma last_digit:
  assumes "all_digits s"
  shows "last s \<noteq> CHR '']''"
proof -
  from assms have "is_ascii_digit (last s)" by (simp add: all_digits_def)
  moreover have "\<not> is_ascii_digit (CHR '']'')" by (simp add: is_ascii_digit_def byte_def)
  ultimately show ?thesis by metis
qed

lemma host_port_apart:
  assumes "host_ok h" and "all_digits ds"
  shows "h \<noteq> k @ CHR '':'' # ds"
proof
  assume eq: "h = k @ CHR '':'' # ds"
  with assms have "last h = CHR '']''" by (auto simp: host_ok_def)
  moreover from eq assms have "last h = last ds" by (auto simp: all_digits_def)
  ultimately show False using last_digit [OF assms(2)] by simp
qed

lemma last_sep_unique:
  assumes "(c::char) \<notin> set b" and "c \<notin> set b'" and "a @ c # b = a' @ c # b'"
  shows "a = a' \<and> b = b'"
proof -
  have eq: "rev b @ c # rev a = rev b' @ c # rev a'"
    using arg_cong [OF assms(3), of rev]
    by (simp only: rev_append rev.simps append_assoc append_Cons append_Nil)
  have "split_once c (rev b @ c # rev a) = Some (rev b, rev a)"
    using assms(1) by (intro split_once_append) simp
  moreover have "split_once c (rev b' @ c # rev a') = Some (rev b', rev a')"
    using assms(2) by (intro split_once_append) simp
  ultimately have "(rev b, rev a) = (rev b', rev a')" by (simp only: eq option.inject)
  then show ?thesis by simp
qed

lemma ascii_serialization_scheme:
  assumes "origin_ok g" and "origin_ok h" and "ascii_serialization g = ascii_serialization h"
  shows "origin_scheme g = origin_scheme h"
proof -
  have shape: "\<exists>r. ascii_serialization x = origin_scheme x @ CHR '':'' # r" for x
    by (simp add: ascii_serialization_def)
  have first: "map_option fst (split_once (CHR '':'') (ascii_serialization x)) = Some (origin_scheme x)"
    if "origin_ok x" for x
    using shape [of x] that split_once_append [of "CHR '':''" "origin_scheme x"]
    by (auto simp: origin_ok_def)
  from first [OF assms(1)] first [OF assms(2)] show ?thesis
    unfolding assms(3) by simp
qed

lemma ascii_serialization_inject:
  assumes ok: "origin_ok g" "origin_ok h"
    and eq: "ascii_serialization g = ascii_serialization h"
  shows "g = h"
proof -
  have scheme: "origin_scheme g = origin_scheme h"
    using assms by (rule ascii_serialization_scheme)
  define port where
    "port x = (if origin_port x = default_port (origin_scheme x) then []
               else CHR '':'' # show_nat (origin_port x))" for x :: origin
  have ser: "ascii_serialization x = origin_scheme x @ ''://'' @ origin_host x @ port x" for x
    by (simp add: ascii_serialization_def port_def)
  from eq scheme have tails: "origin_host g @ port g = origin_host h @ port h"
    by (simp add: ser)
  have "origin_host g = origin_host h \<and> origin_port g = origin_port h"
  proof (cases "port g = []"; cases "port h = []")
    assume "port g = []" and "port h = []"
    with tails scheme show ?thesis by (auto simp: port_def split: if_splits)
  next
    assume "port g = []" and "port h \<noteq> []"
    with tails ok host_port_apart [OF _ show_nat_all_digits, of "origin_host g"] show ?thesis
      by (auto simp: port_def origin_ok_def split: if_splits)
  next
    assume "port g \<noteq> []" and "port h = []"
    with tails ok host_port_apart [OF _ show_nat_all_digits, of "origin_host h"] show ?thesis
      by (metis append_Nil2 origin_ok_def port_def)
  next
    assume "port g \<noteq> []" and "port h \<noteq> []"
    then have "port g = CHR '':'' # show_nat (origin_port g)"
      and "port h = CHR '':'' # show_nat (origin_port h)"
      by (auto simp: port_def split: if_splits)
    with tails last_sep_unique [of "CHR '':''" "show_nat (origin_port g)" "show_nat (origin_port h)"]
    show ?thesis
      using digits_no_colon [OF show_nat_all_digits] by (simp add: show_nat_inject)
  qed
  with scheme show ?thesis by (cases g; cases h) simp
qed

section \<open>Properties\<close>

text \<open>C36: The serialisation of an origin determines it: two origins whose scheme has no colon and whose
  host is a name, an IPv4 literal or a bracketed IPv6 literal serialise to the same text only when they
  are equal, so a default port written out and one left out are never confused.\<close>
theorem origin_serialization_determines_origin:
  assumes "origin_ok g" and "origin_ok h" and "ascii_serialization g = ascii_serialization h"
  shows "g = h"
  using assms by (rule ascii_serialization_inject)

theorem origin_serialization_determines_origin_witness:
  "(let g = \<lparr>origin_scheme = ''https'', origin_host = ''[::1]'', origin_port = 8443\<rparr>
    in origin_ok g \<and> ascii_serialization g = ''https://[::1]:8443''
       \<and> (\<forall>h. origin_ok h \<and> ascii_serialization h = ''https://[::1]:8443'' \<longrightarrow> g = h))"
proof -
  let ?g = "\<lparr>origin_scheme = ''https'', origin_host = ''[::1]'', origin_port = 8443\<rparr>"
  have ok: "origin_ok ?g" and ser: "ascii_serialization ?g = ''https://[::1]:8443''" by code_simp+
  show ?thesis
    using ok ser origin_serialization_determines_origin [OF ok] by (metis (no_types, lifting))
qed

text \<open>C32: The \<open>Referer\<close> of a request leaks nothing the default policy hides. A secure page sends none
  to an insecure origin. To another origin it reveals only the page's origin: two pages of one origin
  send the same text. Even to the same origin, the page's fragment, user name and password do not
  influence it.\<close>
theorem referrer_leaks_nothing:
  assumes "origin_of page = Inr g" and "origin_of target = Inr h"
  shows "(is_secure g \<and> \<not> is_secure h \<longrightarrow> referrer_for to_str page target = None)
    \<and> (g \<noteq> h \<and> origin_of other = Inr g \<longrightarrow>
         referrer_for to_str other target = referrer_for to_str page target)
    \<and> referrer_for to_str
        (page\<lparr>url_fragment := frag, url_username := user, url_password := pass\<rparr>) target
      = referrer_for to_str page target"
  using assms by (auto simp: referrer_for_def origin_of_def split: option.splits)

theorem referrer_leaks_nothing_witness:
  "(let page = \<lparr>url_scheme = ''https'', url_username = ''u'', url_password = Some ''p'',
        url_host_str = Some ''a.test'', url_port_or_known_default = Some 443, url_path = ''/secret'',
        url_query = None, url_fragment = Some ''f''\<rparr>;
        target = page\<lparr>url_scheme := ''http'', url_port_or_known_default := Some 80\<rparr>
    in referrer_for url_path page target = None
       \<and> referrer_for url_path (page\<lparr>url_fragment := None\<rparr>) page
         = referrer_for url_path page page)"
proof -
  let ?page = "\<lparr>url_scheme = ''https'', url_username = ''u'', url_password = Some ''p'',
        url_host_str = Some ''a.test'', url_port_or_known_default = Some 443, url_path = ''/secret'',
        url_query = None, url_fragment = Some ''f''\<rparr>"
  let ?target = "?page\<lparr>url_scheme := ''http'', url_port_or_known_default := Some 80\<rparr>"
  let ?g = "\<lparr>origin_scheme = ''https'', origin_host = ''a.test'', origin_port = 443\<rparr>"
  let ?h = "\<lparr>origin_scheme = ''http'', origin_host = ''a.test'', origin_port = 80\<rparr>"
  have g: "origin_of ?page = Inr ?g" and h: "origin_of ?target = Inr ?h"
    and "is_secure ?g" and "\<not> is_secure ?h" by code_simp+
  then show ?thesis
    using referrer_leaks_nothing [OF g h, where to_str = url_path and other = ?page
        and frag = None and user = "[]" and pass = None]
      referrer_leaks_nothing [OF g g, where to_str = url_path and other = ?page
        and frag = None and user = "''u''" and pass = "Some ''p''"]
    by (simp add: Let_def)
qed

end
