(* ===== verification/Ip_Addr.thy ===== *)
theory Ip_Addr
  imports Rust_Std
begin

text \<open>
  \<open>Ipv4Addr::from_str\<close> and \<open>Ipv6Addr::from_str\<close> of the standard library, as far as the sources use
  them: whether a text is an address. A reader takes the remaining bytes and returns what is left,
  or \<^const>\<open>None\<close> when it fails (the standard library restores its position then).
\<close>

definition hex_val :: "char \<Rightarrow> nat option" where
  "hex_val c =
     (if is_ascii_digit c then Some (byte c - 48)
      else if 97 \<le> byte c \<and> byte c \<le> 102 then Some (byte c - 87)
      else if 65 \<le> byte c \<and> byte c \<le> 70 then Some (byte c - 55)
      else None)"

definition radix_val :: "nat \<Rightarrow> char \<Rightarrow> nat option" where
  "radix_val radix c = (case hex_val c of Some v \<Rightarrow> (if v < radix then Some v else None) | None \<Rightarrow> None)"

text \<open>\<open>read_number\<close>: at most \<open>max_digits\<close> digits, no redundant leading zero unless allowed, and a
  value below \<open>bound\<close>.\<close>

definition read_number :: "nat \<Rightarrow> nat \<Rightarrow> bool \<Rightarrow> nat \<Rightarrow> string \<Rightarrow> (nat \<times> string) option" where
  "read_number radix max_digits allow_zero_prefix bound s =
     (let ds = takeWhile (\<lambda>c. radix_val radix c \<noteq> None) s;
          v = foldl (\<lambda>n c. radix * n + the (radix_val radix c)) 0 ds
      in if ds = [] \<or> max_digits < length ds then None
         else if \<not> allow_zero_prefix \<and> hd ds = CHR ''0'' \<and> 1 < length ds then None
         else if bound \<le> v then None
         else Some (v, drop (length ds) s))"

definition read_given_char :: "char \<Rightarrow> string \<Rightarrow> string option" where
  "read_given_char c s = (case s of [] \<Rightarrow> None | x # xs \<Rightarrow> (if x = c then Some xs else None))"

definition read_separator :: "char \<Rightarrow> nat \<Rightarrow> (string \<Rightarrow> 'a option) \<Rightarrow> string \<Rightarrow> 'a option" where
  "read_separator sep i inner s =
     (if 0 < i then Option.bind (read_given_char sep s) inner else inner s)"

fun read_octets :: "nat \<Rightarrow> nat \<Rightarrow> string \<Rightarrow> (nat list \<times> string) option" where
  "read_octets 0 i s = Some ([], s)"
| "read_octets (Suc n) i s =
     do {
       (v, s') \<leftarrow> read_separator (CHR ''.'') i (read_number 10 3 False 256) s;
       (vs, s'') \<leftarrow> read_octets n (Suc i) s';
       Some (v # vs, s'')
     }"

definition read_ipv4_addr :: "string \<Rightarrow> (nat list \<times> string) option" where
  "read_ipv4_addr s = read_octets 4 0 s"

definition parse_ipv4 :: "string \<Rightarrow> nat list option" where
  "parse_ipv4 s =
     (if 15 < length s then None
      else (case read_ipv4_addr s of Some (vs, []) \<Rightarrow> Some vs | _ \<Rightarrow> None))"

text \<open>\<open>read_groups\<close>: up to \<open>limit\<close> groups; an embedded IPv4 address needs two groups of room and
  ends the run. The result is the number of groups read, whether an IPv4 address ended it, and
  the rest.\<close>

fun read_groups :: "nat \<Rightarrow> nat \<Rightarrow> string \<Rightarrow> nat \<times> bool \<times> string" where
  "read_groups 0 i s = (i, False, s)"
| "read_groups (Suc n) i s =
     (case (if 0 < n then read_separator (CHR '':'') i read_ipv4_addr s else None) of
        Some (_, s') \<Rightarrow> (i + 2, True, s')
      | None \<Rightarrow>
          (case read_separator (CHR '':'') i (read_number 16 4 True 65536) s of
             Some (_, s') \<Rightarrow> read_groups n (Suc i) s'
           | None \<Rightarrow> (i, False, s)))"

definition read_ipv6_addr :: "string \<Rightarrow> string option" where
  "read_ipv6_addr s =
     (case read_groups 8 0 s of
        (head_size, head_ipv4, s1) \<Rightarrow>
          if head_size = 8 then Some s1
          else if head_ipv4 then None
          else do {
            s2 \<leftarrow> read_given_char (CHR '':'') s1;
            s3 \<leftarrow> read_given_char (CHR '':'') s2;
            (case read_groups (8 - (head_size + 1)) 0 s3 of (_, _, s4) \<Rightarrow> Some s4)
          })"

definition is_ipv6 :: "string \<Rightarrow> bool" where
  "is_ipv6 s \<longleftrightarrow> read_ipv6_addr s = Some []"

definition is_ipv4 :: "string \<Rightarrow> bool" where
  "is_ipv4 s \<longleftrightarrow> parse_ipv4 s \<noteq> None"

section \<open>Facts\<close>

text \<open>Everything an IPv4 reader consumes is a digit or a dot.\<close>

lemma radix10_digit: "radix_val 10 c \<noteq> None \<Longrightarrow> is_ascii_digit c"
  by (auto simp: radix_val_def hex_val_def split: if_splits option.splits)

lemma read_number_consumes:
  assumes "read_number 10 k z b s = Some (v, s')"
  obtains ds where "s = ds @ s'" and "\<forall>c \<in> set ds. is_ascii_digit c"
proof
  let ?ds = "takeWhile (\<lambda>c. radix_val 10 c \<noteq> None) s"
  from assms have "s' = drop (length ?ds) s"
    by (auto simp: read_number_def Let_def split: if_splits)
  then have "s' = dropWhile (\<lambda>c. radix_val 10 c \<noteq> None) s" by (simp only: dropWhile_eq_drop)
  then show "s = ?ds @ s'" by (simp only: takeWhile_dropWhile_id)
  show "\<forall>c \<in> set ?ds. is_ascii_digit c" using radix10_digit by (blast dest: set_takeWhileD)
qed

lemma read_octets_consumes:
  "read_octets n i s = Some (vs, s') \<Longrightarrow>
     \<exists>p. s = p @ s' \<and> (\<forall>c \<in> set p. is_ascii_digit c \<or> c = CHR ''.'')"
proof (induction n i s arbitrary: vs s' rule: read_octets.induct)
  case (1 i s)
  then show ?case by simp
next
  case (2 n i s)
  from "2.prems" obtain v s1 vs1
    where sep: "read_separator (CHR ''.'') i (read_number 10 3 False 256) s = Some (v, s1)"
      and rest: "read_octets n (Suc i) s1 = Some (vs1, s')"
    by (auto simp: bind_eq_Some_conv)
  from sep obtain p where p: "s = p @ s1" "\<forall>c \<in> set p. is_ascii_digit c \<or> c = CHR ''.''"
  proof (cases "0 < i")
    case True
    with sep obtain r where "s = CHR ''.'' # r" "read_number 10 3 False 256 r = Some (v, s1)"
      by (auto simp: read_separator_def read_given_char_def bind_eq_Some_conv
          split: list.splits if_splits)
    then show ?thesis using that [of "CHR ''.'' # _"]
      by (metis append_Cons read_number_consumes set_ConsD)
  next
    case False
    with sep show ?thesis using that by (metis read_number_consumes read_separator_def)
  qed
  from "2.IH" [OF sep refl rest] obtain q
    where "s1 = q @ s'" "\<forall>c \<in> set q. is_ascii_digit c \<or> c = CHR ''.''" by blast
  with p show ?case by (intro exI [of _ "p @ q"]) auto
qed

lemma is_ipv4_chars: "is_ipv4 s \<Longrightarrow> c \<in> set s \<Longrightarrow> is_ascii_digit c \<or> c = CHR ''.''"
  using read_octets_consumes [of 4 0 s]
  by (auto simp: is_ipv4_def parse_ipv4_def read_ipv4_addr_def split: if_splits option.splits list.splits)

lemma is_ipv4_nonempty: "is_ipv4 s \<Longrightarrow> s \<noteq> []"
  by (auto simp: is_ipv4_def parse_ipv4_def read_ipv4_addr_def read_separator_def read_number_def
      numeral_eq_Suc split: if_splits)

lemma ip_examples:
  "is_ipv4 ''127.0.0.1''" "\<not> is_ipv4 ''127.0.0.01''" "\<not> is_ipv4 ''256.0.0.1''"
  "is_ipv6 ''::1''" "is_ipv6 ''::ffff:192.0.2.1''" "\<not> is_ipv6 ''1:2:3:4:5:6:7''"
  by code_simp+

end
