(* ===== verification/Cookie_Scope.thy ===== *)
theory Cookie_Scope
  imports Core Ip_Addr
begin

text \<open>
  Scoping rules of \<open>chromulate-cookie\<close>: domain matching, public suffixes and sites
  (\<open>src/domain.rs\<close>), path matching and default paths (\<open>src/path.rs\<close>), and the \<open>SameSite\<close> values
  (\<open>src/same_site.rs\<close>).

  The public suffix list is the \<open>psl\<close> crate, outside the repository: \<open>psl\<close> is the parameter that
  returns the registrable domain of a host, if it has one (\<open>psl::domain\<close>, \<open>psl::domain_str\<close>).
\<close>

section \<open>Domains\<close>

type_synonym psl = "string \<Rightarrow> string option"

definition is_ip_literal :: "string \<Rightarrow> bool" where
  "is_ip_literal host =
     (case Option.bind (strip_prefix ''['' host) (strip_suffix '']'') of
        Some inner \<Rightarrow> is_ipv6 inner
      | None \<Rightarrow> is_ipv4 host)"

definition is_public_suffix :: "psl \<Rightarrow> string \<Rightarrow> bool" where
  "is_public_suffix psl domain \<longleftrightarrow> psl domain = None"

definition domain_matches :: "string \<Rightarrow> string \<Rightarrow> bool" where
  "domain_matches host cookie_domain =
     (if host = cookie_domain then True
      else if is_ip_literal host then False
      else (case strip_suffix cookie_domain host of
              Some pre \<Rightarrow> ends_with pre ''.''
            | None \<Rightarrow> False))"

definition site_of :: "psl \<Rightarrow> string \<Rightarrow> string" where
  "site_of psl host =
     (if is_ip_literal host then host
      else (case psl host of Some d \<Rightarrow> d | None \<Rightarrow> host))"

definition is_same_site :: "psl \<Rightarrow> string \<Rightarrow> string \<Rightarrow> bool" where
  "is_same_site psl a b \<longleftrightarrow> site_of psl a = site_of psl b"

section \<open>Paths\<close>

definition default_path :: "string \<Rightarrow> string" where
  "default_path request_path =
     (if \<not> starts_with request_path ''/'' then ''/''
      else (case rfind_char (CHR ''/'') request_path of
              None \<Rightarrow> ''/''
            | Some last_slash \<Rightarrow> (if last_slash = 0 then ''/'' else take last_slash request_path)))"

definition path_matches :: "string \<Rightarrow> string \<Rightarrow> bool" where
  "path_matches request_path cookie_path =
     (if request_path = cookie_path then True
      else if \<not> starts_with request_path cookie_path then False
      else ends_with cookie_path ''/''
           \<or> (length cookie_path < length request_path
              \<and> request_path ! length cookie_path = CHR ''/''))"

section \<open>The SameSite attribute\<close>

datatype same_site = Strict | Lax | SameSiteNone

section \<open>What the matching rules mean\<close>

text \<open>A host lies under a domain: it is the domain, or the domain with labels in front.\<close>

definition under_domain :: "string \<Rightarrow> string \<Rightarrow> bool" where
  "under_domain host d \<longleftrightarrow> host = d \<or> (\<exists>p. host = p @ ''.'' @ d)"

lemma domain_matches_under:
  "domain_matches host d \<longleftrightarrow> host = d \<or> (\<not> is_ip_literal host \<and> under_domain host d)"
proof (cases "strip_suffix d host")
  case None
  then have "\<not> suffix d host" by (simp add: strip_suffix_def split: if_splits)
  with None show ?thesis by (auto simp: domain_matches_def under_domain_def suffix_def)
next
  case (Some p)
  then have "domain_matches host d \<longleftrightarrow> host = d \<or> (\<not> is_ip_literal host \<and> ends_with p ''.'')"
    by (simp add: domain_matches_def)
  moreover have "ends_with p ''.'' \<longleftrightarrow> (\<exists>q. host = q @ ''.'' @ d)"
    using Some by (auto simp: strip_suffix_Some ends_with_def suffix_def)
  ultimately show ?thesis by (auto simp: under_domain_def)
qed

lemma under_domain_trans: "under_domain a b \<Longrightarrow> under_domain b c \<Longrightarrow> under_domain a c"
  by (auto simp: under_domain_def)

lemma domain_matches_ip: "is_ip_literal host \<Longrightarrow> domain_matches host d \<longleftrightarrow> host = d"
  by (simp add: domain_matches_def)

text \<open>The directory of a path: the path with a trailing slash.\<close>

definition as_directory :: "string \<Rightarrow> string" where
  "as_directory p = (if ends_with p ''/'' then p else p @ ''/'')"

lemma ends_with_single: "ends_with s [c] \<longleftrightarrow> s \<noteq> [] \<and> last s = c"
  by (cases s rule: rev_cases) (auto simp: ends_with_def suffix_def)

lemma starts_with_single: "starts_with s [c] \<longleftrightarrow> s \<noteq> [] \<and> hd s = c"
  by (cases s) (auto simp: starts_with_def)

lemma path_matches_directory:
  "path_matches r c \<longleftrightarrow> r = c \<or> prefix (as_directory c) r"
proof (cases "r = c")
  case True
  then show ?thesis by (simp add: path_matches_def)
next
  case neq: False
  show ?thesis
  proof (cases "prefix c r")
    case False
    then have "\<not> prefix (as_directory c) r"
      by (metis as_directory_def append_prefixD)
    with False neq show ?thesis by (simp add: path_matches_def starts_with_def)
  next
    case True
    then obtain rest where r: "r = c @ rest" by (auto simp: prefix_def)
    with neq have "rest \<noteq> []" by auto
    then obtain x xs where "rest = x # xs" by (cases rest) auto
    with r neq show ?thesis
      by (auto simp: path_matches_def starts_with_def as_directory_def)
  qed
qed

lemma default_path_absolute: "starts_with (default_path r) ''/''"
proof -
  have "hd (take n r) = hd r \<and> take n r \<noteq> []" if "0 < n" and "r \<noteq> []" for n
    using that by (cases r; cases n) auto
  then show ?thesis
    by (auto simp: default_path_def starts_with_single dest: rfind_char_Some(1) split: option.splits)
qed

lemma default_path_matches:
  assumes "starts_with r ''/''"
  shows "path_matches r (default_path r)"
proof (cases "rfind_char (CHR ''/'') r")
  case None
  with assms show ?thesis
    by (auto simp: rfind_char_None starts_with_single dest: hd_in_set)
next
  case (Some i)
  note i = rfind_char_Some [OF Some]
  show ?thesis
  proof (cases "i = 0")
    case True
    with Some assms have "default_path r = ''/''" by (simp add: default_path_def)
    moreover have "path_matches r ''/''"
      using assms by (simp add: path_matches_def starts_with_def ends_with_single)
    ultimately show ?thesis by simp
  next
    case False
    with Some assms have "default_path r = take i r" by (simp add: default_path_def)
    with i show ?thesis
      by (simp add: path_matches_def starts_with_def take_is_prefix)
  qed
qed

text \<open>The documented contract of the \<open>psl\<close> crate the jar relies on: a registrable domain is a
  domain the host lies under, and is its own registrable domain.\<close>

definition psl_law :: "psl \<Rightarrow> bool" where
  "psl_law psl \<longleftrightarrow> (\<forall>h r. psl h = Some r \<longrightarrow> under_domain h r \<and> psl r = Some r)"

lemma is_same_site_equiv:
  "is_same_site psl a a"
  "is_same_site psl a b \<Longrightarrow> is_same_site psl b a"
  "is_same_site psl a b \<Longrightarrow> is_same_site psl b c \<Longrightarrow> is_same_site psl a c"
  by (simp_all add: is_same_site_def)

section \<open>Properties\<close>

text \<open>C37: Path matching is containment of directories: a cookie path covers a request path exactly
  when they are equal or the request path lies below the cookie path read as a directory, so \<open>/foo\<close>
  covers \<open>/foo/bar\<close> and not \<open>/foobar\<close>.\<close>
theorem path_matching_is_directory_containment:
  "path_matches request_path cookie_path \<longleftrightarrow>
     request_path = cookie_path \<or> prefix (as_directory cookie_path) request_path"
  by (rule path_matches_directory)

text \<open>C38: Domain matching never crosses a label boundary and never applies to an address: a cookie
  domain covers a host exactly when they are equal, or the host is no IP literal and is the domain
  with labels in front.\<close>
theorem domain_matching_respects_labels:
  "domain_matches host domain \<longleftrightarrow>
     host = domain \<or> (\<not> is_ip_literal host \<and> under_domain host domain)"
  by (rule domain_matches_under)

end
