(* ===== verification/Cookie_Date.thy ===== *)
theory Cookie_Date
  imports Calendar
begin

text \<open>
  The lenient \<open>cookie-date\<close> parser of \<open>chromulate-cookie/src/date.rs\<close> and the conversions between
  times and epoch seconds that the jar's snapshots use. The lemmas at the end show that the three
  date formats servers send denote the instant they print, and that whatever parses lies inside
  the years 1601 to 9999.
\<close>

section \<open>Tokens\<close>

definition cookie_months :: "string list" where
  "cookie_months =
     [''jan'', ''feb'', ''mar'', ''apr'', ''may'', ''jun'', ''jul'', ''aug'', ''sep'', ''oct'',
      ''nov'', ''dec'']"

definition is_delimiter :: "char \<Rightarrow> bool" where
  "is_delimiter c \<longleftrightarrow>
     byte c = 9 \<or> (32 \<le> byte c \<and> byte c \<le> 47) \<or> (59 \<le> byte c \<and> byte c \<le> 64)
     \<or> (91 \<le> byte c \<and> byte c \<le> 96) \<or> (123 \<le> byte c \<and> byte c \<le> 126)"

definition leading_digits :: "string \<Rightarrow> (nat \<times> nat) option" where
  "leading_digits token =
     (let stop = (case find_char (\<lambda>c. \<not> is_ascii_digit c) token of
                    Some i \<Rightarrow> i | None \<Rightarrow> length token)
      in if stop = 0 then None
         else (case parse_unsigned 32 (take stop token) of
                 Some v \<Rightarrow> Some (v, stop) | None \<Rightarrow> None))"

definition short_digits :: "string \<Rightarrow> bool" where
  "short_digits s \<longleftrightarrow> s \<noteq> [] \<and> length s \<le> 2 \<and> list_all is_ascii_digit s"

definition try_time :: "string \<Rightarrow> (nat \<times> nat \<times> nat) option" where
  "try_time token =
     do {
       (hour, rest1) \<leftarrow> split_once (CHR '':'') token;
       (minute, rest) \<leftarrow> split_once (CHR '':'') rest1;
       if \<not> short_digits hour then None
       else if \<not> short_digits minute then None
       else do {
         (second, second_len) \<leftarrow> leading_digits rest;
         if 2 < second_len then None
         else do {
           h \<leftarrow> parse_unsigned 32 hour;
           m \<leftarrow> parse_unsigned 32 minute;
           Some (h, m, second)
         }
       }
     }"

fun position_of :: "'a \<Rightarrow> 'a list \<Rightarrow> nat option" where
  "position_of x [] = None"
| "position_of x (y # ys) = (if y = x then Some 0 else map_option Suc (position_of x ys))"

definition try_month :: "string \<Rightarrow> nat option" where
  "try_month token =
     (if length token < 3 then None
      else map_option Suc (position_of (to_ascii_lowercase (take 3 token)) cookie_months))"

section \<open>Times and epoch seconds\<close>

definition epoch_seconds_to_system_time :: "int \<Rightarrow> system_time" where
  "epoch_seconds_to_system_time seconds = seconds * int nanos_per_sec"

definition system_time_to_epoch_seconds :: "system_time \<Rightarrow> int" where
  "system_time_to_epoch_seconds t =
     (case duration_since t 0 of
        Inr since_epoch \<Rightarrow> int (as_secs since_epoch)
      | Inl before_epoch \<Rightarrow> - int (as_secs before_epoch))"

section \<open>The parser\<close>

record date_fields =
  found_time :: "(nat \<times> nat \<times> nat) option"
  found_day :: "nat option"
  found_month :: "nat option"
  found_year :: "nat option"

definition no_fields :: date_fields where
  "no_fields = \<lparr>found_time = None, found_day = None, found_month = None, found_year = None\<rparr>"

definition year_token :: "string \<Rightarrow> date_fields \<Rightarrow> date_fields" where
  "year_token token f =
     (if found_year f = None then
        (case leading_digits token of
           Some (v, len) \<Rightarrow> (if len = 2 \<or> len = 4 then f\<lparr>found_year := Some v\<rparr> else f)
         | None \<Rightarrow> f)
      else f)"

definition month_token :: "string \<Rightarrow> date_fields \<Rightarrow> date_fields" where
  "month_token token f =
     (if found_month f = None then
        (case try_month token of
           Some m \<Rightarrow> f\<lparr>found_month := Some m\<rparr>
         | None \<Rightarrow> year_token token f)
      else year_token token f)"

definition day_token :: "string \<Rightarrow> date_fields \<Rightarrow> date_fields" where
  "day_token token f =
     (if found_day f = None then
        (case leading_digits token of
           Some (v, len) \<Rightarrow> (if len \<le> 2 then f\<lparr>found_day := Some v\<rparr> else month_token token f)
         | None \<Rightarrow> month_token token f)
      else month_token token f)"

definition date_token :: "string \<Rightarrow> date_fields \<Rightarrow> date_fields" where
  "date_token token f =
     (if found_time f = None then
        (case try_time token of
           Some t \<Rightarrow> f\<lparr>found_time := Some t\<rparr>
         | None \<Rightarrow> day_token token f)
      else day_token token f)"

definition date_tokens :: "string \<Rightarrow> string list" where
  "date_tokens input = filter (\<lambda>t. t \<noteq> []) (split_by is_delimiter input)"

definition scan_date :: "string list \<Rightarrow> date_fields" where
  "scan_date tokens = fold date_token tokens no_fields"

definition full_year :: "nat \<Rightarrow> nat" where
  "full_year year =
     (if 70 \<le> year \<and> year \<le> 99 then year + 1900 else if year \<le> 69 then year + 2000 else year)"

definition instant_of :: "nat \<times> nat \<times> nat \<Rightarrow> nat \<Rightarrow> nat \<Rightarrow> nat \<Rightarrow> system_time option" where
  "instant_of hms day month year0 =
     (case hms of (hour, minute, second) \<Rightarrow>
        if 23 < hour \<or> 59 < minute \<or> 60 < second \<or> day = 0 \<or> 31 < day then None
        else let year = full_year year0
             in if year < 1601 then None
                else Some (epoch_seconds_to_system_time
                       (days_from_civil (int year) month day * 86400
                        + int hour * 3600 + int minute * 60 + int second)))"

definition parse_cookie_date :: "string \<Rightarrow> system_time option" where
  "parse_cookie_date input =
     (let f = scan_date (date_tokens input)
      in do {
           hms \<leftarrow> found_time f;
           day \<leftarrow> found_day f;
           month \<leftarrow> found_month f;
           year \<leftarrow> found_year f;
           instant_of hms day month year
         })"

section \<open>Whatever parses lies between 1601 and 9999\<close>

lemma parse_unsigned_Some: "parse_unsigned b s = Some v \<Longrightarrow> v = digits_val (skip_plus s)"
  by (auto simp: parse_unsigned_def Let_def split: if_splits)

lemma skip_plus_digits: "list_all is_ascii_digit s \<Longrightarrow> skip_plus s = s"
  by (cases s) (auto simp: skip_plus_def strip_prefix_def is_ascii_digit_def byte_def)

lemma parse_unsigned_digits:
  assumes "list_all is_ascii_digit s" and "s \<noteq> []" and "length s \<le> 4"
  shows "parse_unsigned 32 s = Some (digits_val s)"
proof -
  have "digits_val s < 10 ^ length s" using assms digits_val_bound by (simp add: list_all_iff)
  also have "\<dots> \<le> (10::nat) ^ 4" using assms by (intro power_increasing) auto
  finally have "digits_val s < 2 ^ 32" by simp
  with assms show ?thesis
    by (simp add: parse_unsigned_def skip_plus_digits all_digits_def list_all_iff)
qed

lemma leading_digits_bound:
  assumes "leading_digits token = Some (v, len)"
  shows "v < 10 ^ len" and "0 < len"
proof -
  define stop where "stop = (case find_char (\<lambda>c. \<not> is_ascii_digit c) token of
      Some i \<Rightarrow> i | None \<Rightarrow> length token)"
  have digits: "\<forall>c \<in> set (take stop token). is_ascii_digit c" and le: "stop \<le> length token"
    unfolding stop_def
    by (auto split: option.split simp: find_char_None dest: find_char_Some in_set_takeD)
  from assms have len: "len = stop" and "stop \<noteq> 0"
    and v: "parse_unsigned 32 (take stop token) = Some v"
    unfolding leading_digits_def Let_def stop_def [symmetric]
    by (auto split: if_splits option.splits)
  from \<open>stop \<noteq> 0\<close> len show "0 < len" by simp
  from v have "v = digits_val (take stop token)"
    using digits parse_unsigned_Some skip_plus_digits by (metis list_all_iff)
  with digits_val_bound [OF digits] le len show "v < 10 ^ len" by simp
qed

definition fields_ok :: "date_fields \<Rightarrow> bool" where
  "fields_ok f \<longleftrightarrow>
     (\<forall>y. found_year f = Some y \<longrightarrow> y < 10000) \<and>
     (\<forall>m. found_month f = Some m \<longrightarrow> 1 \<le> m \<and> m \<le> 12)"

lemma position_of_less: "position_of x xs = Some i \<Longrightarrow> i < length xs"
  by (induction xs arbitrary: i) (auto split: if_splits)

lemma try_month_range: "try_month token = Some m \<Longrightarrow> 1 \<le> m \<and> m \<le> 12"
  by (auto simp: try_month_def cookie_months_def dest!: position_of_less split: if_splits)

lemma year_token_ok: "fields_ok f \<Longrightarrow> fields_ok (year_token token f)"
  by (auto simp: year_token_def fields_ok_def dest!: leading_digits_bound(1) split: option.splits)

lemma date_token_ok: "fields_ok f \<Longrightarrow> fields_ok (date_token token f)"
proof -
  assume ok: "fields_ok f"
  have month: "fields_ok (month_token token f)"
    using ok year_token_ok [OF ok, of token]
    by (auto simp: month_token_def fields_ok_def dest: try_month_range split: option.splits)
  have day: "fields_ok (day_token token f)"
    using ok month by (auto simp: day_token_def fields_ok_def split: option.splits)
  show ?thesis
    using ok day by (auto simp: date_token_def fields_ok_def split: option.splits)
qed

lemma fold_date_token_ok: "fields_ok f \<Longrightarrow> fields_ok (fold date_token tokens f)"
  by (induction tokens arbitrary: f) (simp_all add: date_token_ok)

lemma scan_date_ok: "fields_ok (scan_date tokens)"
  unfolding scan_date_def
  by (rule fold_date_token_ok) (simp add: fields_ok_def no_fields_def)

lemma parse_cookie_date_seconds:
  assumes "parse_cookie_date s = Some t"
  shows "\<exists>n. t = epoch_seconds_to_system_time n \<and> - 134774 * 86400 \<le> n \<and> n \<le> 2932897 * 86400"
proof -
  obtain hms day month year
    where f: "found_month (scan_date (date_tokens s)) = Some month"
      "found_year (scan_date (date_tokens s)) = Some year"
    and t: "instant_of hms day month year = Some t"
    using assms by (auto simp: parse_cookie_date_def Let_def bind_eq_Some_conv)
  obtain h mi se where hms: "hms = (h, mi, se)" by (cases hms)
  have month: "1 \<le> month" "month \<le> 12" and year: "full_year year \<le> 9999"
    using scan_date_ok [of "date_tokens s"] f by (auto simp: fields_ok_def full_year_def)
  from t hms have b: "h \<le> 23" "mi \<le> 59" "se \<le> 60" "1 \<le> day" "day \<le> 31" "1601 \<le> full_year year"
    and eq: "t = epoch_seconds_to_system_time
      (days_from_civil (int (full_year year)) month day * 86400 + int h * 3600 + int mi * 60 + int se)"
    by (auto simp: instant_of_def Let_def split: if_splits)
  from month year b have
    "- 134774 \<le> days_from_civil (int (full_year year)) month day"
    "days_from_civil (int (full_year year)) month day \<le> 2932896"
    using days_from_civil_range [of "int (full_year year)" month day] civil_range_ends by auto
  with b have
    "- 134774 * 86400 \<le> days_from_civil (int (full_year year)) month day * 86400
        + int h * 3600 + int mi * 60 + int se"
    "days_from_civil (int (full_year year)) month day * 86400
        + int h * 3600 + int mi * 60 + int se \<le> 2932897 * 86400"
    by linarith+
  with eq show ?thesis by blast
qed

lemma epoch_seconds_round_trip [simp]:
  "system_time_to_epoch_seconds (epoch_seconds_to_system_time n) = n"
proof (cases "0 \<le> n")
  case True
  then have "nat (n * int nanos_per_sec) = nat n * nanos_per_sec"
    by (simp add: nat_mult_distrib)
  with True show ?thesis
    by (simp add: system_time_to_epoch_seconds_def epoch_seconds_to_system_time_def
        duration_since_def as_secs_def nanos_per_sec_def)
next
  case False
  then have "nat ((- n) * int nanos_per_sec) = nat (- n) * nanos_per_sec"
    by (subst nat_mult_distrib) auto
  with False show ?thesis
    by (simp add: system_time_to_epoch_seconds_def epoch_seconds_to_system_time_def
        duration_since_def as_secs_def nanos_per_sec_def mult_le_0_iff)
qed

lemma cookie_date_examples:
  "parse_cookie_date ''Sun, 06 Nov 1994 08:49:37 GMT'' = Some (784111777 * 1000000000)"
  "parse_cookie_date ''Sunday, 06-Nov-94 08:49:37 GMT'' = Some (784111777 * 1000000000)"
  "parse_cookie_date ''Sun Nov  6 08:49:37 1994'' = Some (784111777 * 1000000000)"
  "parse_cookie_date ''not a date'' = None"
  by code_simp+

section \<open>The three formats denote the instant they print\<close>

definition pad2 :: "nat \<Rightarrow> string" where
  "pad2 n = [digit_char (n div 10), digit_char (n mod 10)]"

definition pad4 :: "nat \<Rightarrow> string" where
  "pad4 n = pad2 (n div 100) @ pad2 (n mod 100)"

definition month_names :: "string list" where
  "month_names = [''Jan'', ''Feb'', ''Mar'', ''Apr'', ''May'', ''Jun'', ''Jul'', ''Aug'', ''Sep'',
     ''Oct'', ''Nov'', ''Dec'']"

definition weekday_names :: "string list" where
  "weekday_names = [''Mon'', ''Tue'', ''Wed'', ''Thu'', ''Fri'', ''Sat'', ''Sun'', ''Monday'',
     ''Tuesday'', ''Wednesday'', ''Thursday'', ''Friday'', ''Saturday'', ''Sunday'']"

definition hms_text :: "nat \<Rightarrow> nat \<Rightarrow> nat \<Rightarrow> string" where
  "hms_text h mi se = pad2 h @ '':'' @ pad2 mi @ '':'' @ pad2 se"

definition imf_fixdate :: "string \<Rightarrow> nat \<Rightarrow> nat \<Rightarrow> nat \<Rightarrow> nat \<Rightarrow> nat \<Rightarrow> nat \<Rightarrow> string" where
  "imf_fixdate wd y m d h mi se =
     wd @ '', '' @ pad2 d @ '' '' @ month_names ! (m - 1) @ '' '' @ pad4 y @ '' '' @ hms_text h mi se
     @ '' GMT''"

definition rfc850_date :: "string \<Rightarrow> nat \<Rightarrow> nat \<Rightarrow> nat \<Rightarrow> nat \<Rightarrow> nat \<Rightarrow> nat \<Rightarrow> string" where
  "rfc850_date wd y m d h mi se =
     wd @ '', '' @ pad2 d @ ''-'' @ month_names ! (m - 1) @ ''-'' @ pad2 (y mod 100) @ '' ''
     @ hms_text h mi se @ '' GMT''"

definition asctime_date :: "string \<Rightarrow> nat \<Rightarrow> nat \<Rightarrow> nat \<Rightarrow> nat \<Rightarrow> nat \<Rightarrow> nat \<Rightarrow> string" where
  "asctime_date wd y m d h mi se =
     wd @ '' '' @ month_names ! (m - 1) @ '' '' @ (if d < 10 then '' '' @ [digit_char d] else pad2 d)
     @ '' '' @ hms_text h mi se @ '' '' @ pad4 y"

definition word_token :: "string \<Rightarrow> bool" where
  "word_token w \<longleftrightarrow> w \<noteq> [] \<and> list_all (\<lambda>c. \<not> is_delimiter c) w"

lemma date_tokens_word:
  "word_token w \<Longrightarrow> is_delimiter c \<Longrightarrow> date_tokens (w @ c # rest) = w # date_tokens rest"
  by (simp add: date_tokens_def word_token_def list_all_iff split_by_append_sep)

lemma date_tokens_sep: "is_delimiter c \<Longrightarrow> date_tokens (c # rest) = date_tokens rest"
  by (simp add: date_tokens_def)

lemma date_tokens_last: "word_token w \<Longrightarrow> date_tokens w = [w]"
  by (simp add: date_tokens_def word_token_def list_all_iff split_by_none)

lemma separators: "is_delimiter (CHR '' '')" "is_delimiter (CHR '','')" "is_delimiter (CHR ''-'')"
  by code_simp+

lemmas date_tokens_simps = date_tokens_word date_tokens_sep date_tokens_last separators

lemma digit_char_facts:
  assumes "d < 10"
  shows "is_ascii_digit (digit_char d)" and "digit_val (digit_char d) = d"
    and "\<not> is_delimiter (digit_char d)" and "digit_char d \<noteq> CHR '':''"
  using digit_char_digit [OF assms]
  by (auto simp: is_delimiter_def is_ascii_digit_def) (simp_all add: byte_def)

lemma pad2_facts:
  assumes "n < 100"
  shows "list_all is_ascii_digit (pad2 n)" and "digits_val (pad2 n) = n"
    and "word_token (pad2 n)" and "CHR '':'' \<notin> set (pad2 n)" and "length (pad2 n) = 2"
proof -
  have "n div 10 < 10" "n mod 10 < 10" using assms by auto
  note f = digit_char_facts [OF this(1)] digit_char_facts [OF this(2)]
  from f show "list_all is_ascii_digit (pad2 n)" "word_token (pad2 n)" "CHR '':'' \<notin> set (pad2 n)"
    "length (pad2 n) = 2" by (auto simp: pad2_def word_token_def)
  from f show "digits_val (pad2 n) = n" by (simp add: pad2_def digits_val_def)
qed

lemma pad4_facts:
  assumes "n < 10000"
  shows "list_all is_ascii_digit (pad4 n)" and "digits_val (pad4 n) = n"
    and "word_token (pad4 n)" and "CHR '':'' \<notin> set (pad4 n)" and "length (pad4 n) = 4"
proof -
  have h: "n div 100 < 100" and l: "n mod 100 < 100" using assms by auto
  note f = pad2_facts [OF h] pad2_facts [OF l]
  from f show "list_all is_ascii_digit (pad4 n)" "word_token (pad4 n)" "CHR '':'' \<notin> set (pad4 n)"
    "length (pad4 n) = 4" by (auto simp: pad4_def word_token_def)
  have "digits_val (a @ pad2 k) = 100 * digits_val a + digits_val (pad2 k)" for a k
    by (simp add: pad2_def digits_val_def)
  with f show "digits_val (pad4 n) = n" by (simp add: pad4_def)
qed

lemma leading_digits_all:
  assumes "list_all is_ascii_digit s" and "s \<noteq> []" and "length s \<le> 4"
  shows "leading_digits s = Some (digits_val s, length s)"
proof -
  have "find_char (\<lambda>c. \<not> is_ascii_digit c) s = None"
    using assms by (simp add: find_char_None list_all_iff)
  with assms show ?thesis by (simp add: leading_digits_def parse_unsigned_digits)
qed

lemma try_time_no_colon: "CHR '':'' \<notin> set s \<Longrightarrow> try_time s = None"
proof -
  assume "CHR '':'' \<notin> set s"
  then have "find_char (\<lambda>x. x = CHR '':'') s = None" by (auto simp: find_char_None)
  then show ?thesis by (simp add: try_time_def split_once_def)
qed

lemma hms_token:
  assumes "h < 100" and "mi < 100" and "se < 100"
  shows "try_time (hms_text h mi se) = Some (h, mi, se)" and "word_token (hms_text h mi se)"
proof -
  note f = pad2_facts [OF assms(1)] pad2_facts [OF assms(2)] pad2_facts [OF assms(3)]
  have s1: "split_once (CHR '':'') (pad2 h @ CHR '':'' # pad2 mi @ CHR '':'' # pad2 se)
      = Some (pad2 h, pad2 mi @ CHR '':'' # pad2 se)"
    using f by (intro split_once_append)
  have s2: "split_once (CHR '':'') (pad2 mi @ CHR '':'' # pad2 se) = Some (pad2 mi, pad2 se)"
    using f by (intro split_once_append)
  have ne: "pad2 k \<noteq> []" for k by (simp add: pad2_def)
  from f s1 s2 ne show "try_time (hms_text h mi se) = Some (h, mi, se)"
    by (simp add: try_time_def hms_text_def short_digits_def leading_digits_all parse_unsigned_digits)
  have "\<not> is_delimiter (CHR '':'')" by code_simp
  with f show "word_token (hms_text h mi se)" by (simp add: hms_text_def word_token_def)
qed

lemma weekday_facts:
  assumes "wd \<in> set weekday_names"
  shows "word_token wd \<and> try_time wd = None \<and> leading_digits wd = None \<and> try_month wd = None"
proof -
  have "list_all (\<lambda>w. word_token w \<and> try_time w = None \<and> leading_digits w = None \<and> try_month w = None)
      weekday_names" by code_simp
  with assms show ?thesis by (simp add: list_all_iff)
qed

lemma month_facts:
  assumes "1 \<le> m" and "m \<le> 12"
  shows "word_token (month_names ! (m - 1)) \<and> try_time (month_names ! (m - 1)) = None
    \<and> leading_digits (month_names ! (m - 1)) = None \<and> try_month (month_names ! (m - 1)) = Some m"
proof -
  have "list_all (\<lambda>k. word_token (month_names ! k) \<and> try_time (month_names ! k) = None
      \<and> leading_digits (month_names ! k) = None \<and> try_month (month_names ! k) = Some (Suc k)) [0..<12]"
    by code_simp
  moreover from assms have "m - 1 \<in> set [0..<12]" and "Suc (m - 1) = m" by auto
  ultimately show ?thesis unfolding list_all_iff by metis
qed

lemma gmt_facts: "word_token ''GMT''" "leading_digits ''GMT'' = None" "try_month ''GMT'' = None"
  by code_simp+

definition date_in_range :: "nat \<Rightarrow> nat \<Rightarrow> nat \<Rightarrow> nat \<Rightarrow> nat \<Rightarrow> nat \<Rightarrow> bool" where
  "date_in_range y m d h mi se \<longleftrightarrow>
     1601 \<le> y \<and> y \<le> 9999 \<and> 1 \<le> m \<and> m \<le> 12 \<and> 1 \<le> d \<and> d \<le> 31 \<and> h \<le> 23 \<and> mi \<le> 59 \<and> se \<le> 60"

definition utc_instant :: "nat \<Rightarrow> nat \<Rightarrow> nat \<Rightarrow> nat \<Rightarrow> nat \<Rightarrow> nat \<Rightarrow> system_time" where
  "utc_instant y m d h mi se =
     epoch_seconds_to_system_time
       (civil_days (int y) m d * 86400 + int h * 3600 + int mi * 60 + int se)"

lemma instant_of_in_range:
  assumes "date_in_range y m d h mi se" and "full_year yy = y"
  shows "instant_of (h, mi, se) d m yy = Some (utc_instant y m d h mi se)"
  using assms days_from_civil_naive [of m "int y" d]
  by (simp add: instant_of_def date_in_range_def utc_instant_def)

lemmas token_steps = date_token_def day_token_def month_token_def year_token_def no_fields_def

lemma parse_of_fields:
  assumes "scan_date (date_tokens s)
      = \<lparr>found_time = Some (h, mi, se), found_day = Some d, found_month = Some m, found_year = Some yy\<rparr>"
    and "date_in_range y m d h mi se" and "full_year yy = y"
  shows "parse_cookie_date s = Some (utc_instant y m d h mi se)"
  using assms by (simp add: parse_cookie_date_def instant_of_in_range)

lemma leading_digits_pad2: "n < 100 \<Longrightarrow> leading_digits (pad2 n) = Some (n, 2)"
  using leading_digits_all [of "pad2 n"] pad2_facts [of n] by (auto simp: word_token_def)

lemma leading_digits_pad4: "n < 10000 \<Longrightarrow> leading_digits (pad4 n) = Some (n, 4)"
  using leading_digits_all [of "pad4 n"] pad4_facts [of n] by (auto simp: word_token_def)

lemma parse_imf_fixdate:
  assumes wd: "wd \<in> set weekday_names" and r: "date_in_range y m d h mi se"
  shows "parse_cookie_date (imf_fixdate wd y m d h mi se) = Some (utc_instant y m d h mi se)"
proof (rule parse_of_fields [OF _ r])
  have b: "d < 100" "y < 10000" "h < 100" "mi < 100" "se < 100" and m: "1 \<le> m" "m \<le> 12"
    using r by (auto simp: date_in_range_def)
  note tok = weekday_facts [OF wd] month_facts [OF m] gmt_facts pad2_facts(3,4) [OF b(1)]
    pad4_facts(3,4) [OF b(2)] hms_token [OF b(3,4,5)]
  have "date_tokens (imf_fixdate wd y m d h mi se)
      = [wd, pad2 d, month_names ! (m - 1), pad4 y, hms_text h mi se, ''GMT'']"
    unfolding imf_fixdate_def using tok by (simp add: date_tokens_simps)
  then show "scan_date (date_tokens (imf_fixdate wd y m d h mi se))
      = \<lparr>found_time = Some (h, mi, se), found_day = Some d, found_month = Some m, found_year = Some y\<rparr>"
    using tok b by (simp add: scan_date_def token_steps try_time_no_colon leading_digits_pad2
        leading_digits_pad4)
  show "full_year y = y" using r by (simp add: full_year_def date_in_range_def)
qed

lemma full_year_window:
  assumes window: "1970 \<le> y" "y \<le> 2069"
  shows "full_year (y mod 100) = y"
proof (cases "y < 2000")
  case True
  with window have "y = 1900 + (y - 1900)" "70 \<le> y - 1900" "y - 1900 < 100" by simp_all
  then obtain k where k: "y = 1900 + k" "70 \<le> k" "k < 100" by blast
  then have "y = k + 19 * 100" by simp
  then have "y mod 100 = k mod 100" by (simp only: mod_mult_self1)
  with k show ?thesis by (simp add: full_year_def)
next
  case False
  with window have "y = 2000 + (y - 2000)" "y - 2000 < 70" by simp_all
  then obtain k where k: "y = 2000 + k" "k < 70" by blast
  then have "y = k + 20 * 100" by simp
  then have "y mod 100 = k mod 100" by (simp only: mod_mult_self1)
  with k show ?thesis by (simp add: full_year_def)
qed

lemma parse_rfc850_date:
  assumes wd: "wd \<in> set weekday_names" and r: "date_in_range y m d h mi se"
    and window: "1970 \<le> y" "y \<le> 2069"
  shows "parse_cookie_date (rfc850_date wd y m d h mi se) = Some (utc_instant y m d h mi se)"
proof (rule parse_of_fields [OF _ r])
  have b: "d < 100" "y mod 100 < 100" "h < 100" "mi < 100" "se < 100" and m: "1 \<le> m" "m \<le> 12"
    using r by (auto simp: date_in_range_def)
  note tok = weekday_facts [OF wd] month_facts [OF m] gmt_facts pad2_facts(3,4) [OF b(1)]
    pad2_facts(3,4) [OF b(2)] hms_token [OF b(3,4,5)]
  have "date_tokens (rfc850_date wd y m d h mi se)
      = [wd, pad2 d, month_names ! (m - 1), pad2 (y mod 100), hms_text h mi se, ''GMT'']"
    unfolding rfc850_date_def using tok by (simp add: date_tokens_simps)
  then show "scan_date (date_tokens (rfc850_date wd y m d h mi se))
      = \<lparr>found_time = Some (h, mi, se), found_day = Some d, found_month = Some m,
         found_year = Some (y mod 100)\<rparr>"
    using tok b by (simp add: scan_date_def token_steps try_time_no_colon leading_digits_pad2)
  show "full_year (y mod 100) = y" using window by (rule full_year_window)
qed

lemma parse_asctime_date:
  assumes wd: "wd \<in> set weekday_names" and r: "date_in_range y m d h mi se"
  shows "parse_cookie_date (asctime_date wd y m d h mi se) = Some (utc_instant y m d h mi se)"
proof (rule parse_of_fields [OF _ r])
  have b: "d < 100" "y < 10000" "h < 100" "mi < 100" "se < 100" and m: "1 \<le> m" "m \<le> 12"
    using r by (auto simp: date_in_range_def)
  define dd where "dd = (if d < 10 then [digit_char d] else pad2 d)"
  have one: "leading_digits [digit_char d] = Some (d, 1)" if "d < 10"
    using leading_digits_all [of "[digit_char d]"] digit_char_facts [OF that]
    by (simp add: digits_val_def)
  have "CHR '':'' \<notin> set dd"
    using digit_char_facts(4) [of d] pad2_facts(4) [OF b(1)] by (auto simp: dd_def)
  then have "try_time dd = None" by (rule try_time_no_colon)
  then have dd: "word_token dd" "try_time dd = None"
    "leading_digits dd = Some (d, if d < 10 then 1 else 2)"
    using digit_char_facts(3) [of d] pad2_facts(3) [OF b(1)] one leading_digits_pad2 [OF b(1)]
    by (simp_all add: dd_def word_token_def)
  note tok = weekday_facts [OF wd] month_facts [OF m] pad4_facts(3,4) [OF b(2)]
    hms_token [OF b(3,4,5)]
  have shape: "asctime_date wd y m d h mi se =
      (if d < 10
       then wd @ CHR '' '' # month_names ! (m - 1) @ CHR '' '' # CHR '' '' # dd
         @ CHR '' '' # hms_text h mi se @ CHR '' '' # pad4 y
       else wd @ CHR '' '' # month_names ! (m - 1) @ CHR '' '' # dd
         @ CHR '' '' # hms_text h mi se @ CHR '' '' # pad4 y)"
    by (simp add: asctime_date_def dd_def)
  have "date_tokens (asctime_date wd y m d h mi se)
      = [wd, month_names ! (m - 1), dd, hms_text h mi se, pad4 y]"
    unfolding shape using tok dd(1) by (simp add: date_tokens_simps)
  then show "scan_date (date_tokens (asctime_date wd y m d h mi se))
      = \<lparr>found_time = Some (h, mi, se), found_day = Some d, found_month = Some m, found_year = Some y\<rparr>"
    using tok b dd by (simp add: scan_date_def token_steps leading_digits_pad4)
  show "full_year y = y" using r by (simp add: full_year_def date_in_range_def)
qed

section \<open>Properties\<close>

text \<open>C33: Each of the three date formats servers send parses to the instant it prints: the fixed
  format of RFC 9110 and the C library format for every date from 1601 to 9999, and the older format
  with a two-digit year for 1970 to 2069, the window its years denote.\<close>
theorem server_dates_parse:
  assumes "wd \<in> set weekday_names" and "date_in_range y m d h mi se"
  shows "parse_cookie_date (imf_fixdate wd y m d h mi se) = Some (utc_instant y m d h mi se)
    \<and> parse_cookie_date (asctime_date wd y m d h mi se) = Some (utc_instant y m d h mi se)
    \<and> (1970 \<le> y \<and> y \<le> 2069 \<longrightarrow>
         parse_cookie_date (rfc850_date wd y m d h mi se) = Some (utc_instant y m d h mi se))"
  using parse_imf_fixdate [OF assms] parse_asctime_date [OF assms] parse_rfc850_date [OF assms]
  by blast

theorem server_dates_parse_witness:
  "imf_fixdate ''Sun'' 1994 11 6 8 49 37 = ''Sun, 06 Nov 1994 08:49:37 GMT''
   \<and> parse_cookie_date (imf_fixdate ''Sun'' 1994 11 6 8 49 37) = Some (utc_instant 1994 11 6 8 49 37)
   \<and> parse_cookie_date (rfc850_date ''Sun'' 1994 11 6 8 49 37) = Some (utc_instant 1994 11 6 8 49 37)"
proof -
  have "''Sun'' \<in> set weekday_names" and "date_in_range 1994 11 6 8 49 37" by code_simp+
  from server_dates_parse [OF this]
  have "parse_cookie_date (imf_fixdate ''Sun'' 1994 11 6 8 49 37) = Some (utc_instant 1994 11 6 8 49 37)"
    and "parse_cookie_date (rfc850_date ''Sun'' 1994 11 6 8 49 37) = Some (utc_instant 1994 11 6 8 49 37)"
    by simp_all
  moreover have "imf_fixdate ''Sun'' 1994 11 6 8 49 37 = ''Sun, 06 Nov 1994 08:49:37 GMT''" by code_simp
  ultimately show ?thesis by blast
qed

end
