(* ===== verification/Cookie.thy ===== *)
theory Cookie
  imports Cookie_Scope Cookie_Date
begin

text \<open>
  One cookie: \<open>Set-Cookie\<close> parsing and the per-request eligibility checks of
  \<open>chromulate-cookie/src/cookie.rs\<close>.

  Code outside the repository enters as the record \<open>externals\<close>: the public suffix list, the two
  conversions of \<open>http::HeaderValue\<close>, and the choice \<open>slice::select_nth_unstable_by_key\<close> makes among
  equal keys. A \<open>HeaderValue\<close> is the list of its bytes.
\<close>

section \<open>Externals\<close>

type_synonym header_value = string

record externals =
  ext_psl :: psl
  ext_to_str :: "header_value \<Rightarrow> string option"
  ext_from_str :: "string \<Rightarrow> header_value option"
  ext_select :: "nat \<Rightarrow> (nat \<Rightarrow> u64) \<Rightarrow> nat list \<Rightarrow> nat list"

definition header_safe_char :: "char \<Rightarrow> bool" where
  "header_safe_char c \<longleftrightarrow> byte c = 9 \<or> (32 \<le> byte c \<and> byte c \<le> 126)"

text \<open>\<open>HeaderValue::to_str\<close> returns the bytes themselves, and only when they are visible ASCII, space
  or tab; \<open>HeaderValue::from_str\<close> accepts such a text unchanged.\<close>

definition to_str_law :: "externals \<Rightarrow> bool" where
  "to_str_law E \<longleftrightarrow>
     (\<forall>h s. ext_to_str E h = Some s \<longrightarrow> s = h \<and> list_all header_safe_char s)"

definition from_str_law :: "externals \<Rightarrow> bool" where
  "from_str_law E \<longleftrightarrow> (\<forall>s. list_all header_safe_char s \<longrightarrow> ext_from_str E s = Some s)"

section \<open>The stored cookie\<close>

record cookie =
  ck_name :: string
  ck_value :: string
  ck_domain :: string
  ck_host_only :: bool
  ck_path :: string
  ck_secure :: bool
  ck_http_only :: bool
  ck_same_site :: same_site
  ck_partitioned :: bool
  ck_expires :: "system_time option"

definition max_cookie_lifetime :: duration where
  "max_cookie_lifetime = from_secs (400 * 24 * 60 * 60)"

section \<open>Name prefixes\<close>

definition starts_with_ignore_ascii_case :: "string \<Rightarrow> string \<Rightarrow> bool" where
  "starts_with_ignore_ascii_case s p \<longleftrightarrow>
     length p \<le> length s \<and> eq_ignore_ascii_case (take (length p) s) p"

definition carries_a_name_prefix :: "string \<Rightarrow> bool" where
  "carries_a_name_prefix name \<longleftrightarrow>
     starts_with_ignore_ascii_case name ''__Host-''
     \<or> starts_with_ignore_ascii_case name ''__Secure-''"

definition keeps_name_prefix_promise :: "string \<Rightarrow> bool \<Rightarrow> bool \<Rightarrow> string \<Rightarrow> bool" where
  "keeps_name_prefix_promise name secure host_only path =
     (if starts_with_ignore_ascii_case name ''__Host-'' then secure \<and> host_only \<and> path = ''/''
      else if starts_with_ignore_ascii_case name ''__Secure-'' then secure
      else True)"

section \<open>Parsing Set-Cookie\<close>

record cookie_attrs =
  at_expires :: "system_time option"
  at_max_age :: "int option"
  at_domain :: "string option"
  at_path :: "string option"
  at_secure :: bool
  at_http_only :: bool
  at_same_site :: "same_site option"
  at_partitioned :: bool

definition no_attrs :: cookie_attrs where
  "no_attrs = \<lparr>at_expires = None, at_max_age = None, at_domain = None, at_path = None,
     at_secure = False, at_http_only = False, at_same_site = None, at_partitioned = False\<rparr>"

definition same_site_value :: "string \<Rightarrow> same_site option" where
  "same_site_value v =
     (let w = to_ascii_lowercase v
      in if w = ''strict'' then Some Strict
         else if w = ''lax'' then Some Lax
         else if w = ''none'' then Some SameSiteNone
         else None)"

definition apply_attr :: "string \<Rightarrow> string option \<Rightarrow> cookie_attrs \<Rightarrow> cookie_attrs" where
  "apply_attr key val a =
     (if key = ''expires'' then
        (case Option.bind val parse_cookie_date of
           Some t \<Rightarrow> a\<lparr>at_expires := Some t\<rparr> | None \<Rightarrow> a)
      else if key = ''max-age'' then
        (case Option.bind val parse_i64 of
           Some n \<Rightarrow> a\<lparr>at_max_age := Some n\<rparr> | None \<Rightarrow> a)
      else if key = ''domain'' then
        (case val of
           Some v \<Rightarrow>
             (let stripped = (case strip_prefix ''.'' v of Some r \<Rightarrow> r | None \<Rightarrow> v)
              in if stripped = [] then a
                 else a\<lparr>at_domain := Some (to_ascii_lowercase stripped)\<rparr>)
         | None \<Rightarrow> a)
      else if key = ''path'' then
        (case val of Some v \<Rightarrow> a\<lparr>at_path := Some v\<rparr> | None \<Rightarrow> a)
      else if key = ''secure'' then a\<lparr>at_secure := True\<rparr>
      else if key = ''httponly'' then a\<lparr>at_http_only := True\<rparr>
      else if key = ''samesite'' then
        (case val of Some v \<Rightarrow> a\<lparr>at_same_site := same_site_value v\<rparr> | None \<Rightarrow> a)
      else if key = ''partitioned'' then a\<lparr>at_partitioned := True\<rparr>
      else a)"

definition attr_segment :: "string \<Rightarrow> cookie_attrs \<Rightarrow> cookie_attrs" where
  "attr_segment raw_segment a =
     (let segment = trim raw_segment
      in if segment = [] then a
         else (case find_char (\<lambda>c. c = CHR ''='') segment of
                 Some idx \<Rightarrow>
                   apply_attr (to_ascii_lowercase (trim (take idx segment)))
                     (Some (trim (drop (Suc idx) segment))) a
               | None \<Rightarrow> apply_attr (to_ascii_lowercase (trim segment)) None a))"

definition unquote_value :: "string \<Rightarrow> string" where
  "unquote_value v =
     (case Option.bind (strip_prefix [CHR 0x22] v) (strip_suffix [CHR 0x22]) of
        Some w \<Rightarrow> w | None \<Rightarrow> v)"

definition name_value :: "string \<Rightarrow> (string \<times> string) option" where
  "name_value segment =
     (let first = trim segment
      in do {
           eq \<leftarrow> find_char (\<lambda>c. c = CHR ''='') first;
           let name = trim (take eq first);
           if name = [] then None
           else Some (name, unquote_value (trim (drop (Suc eq) first)))
         })"

definition resolve_domain :: "psl \<Rightarrow> string \<Rightarrow> string option \<Rightarrow> (string \<times> bool) option" where
  "resolve_domain psl request_host domain_attr =
     (case domain_attr of
        None \<Rightarrow> Some (request_host, True)
      | Some d \<Rightarrow>
          if is_ip_literal request_host then
            (if d = request_host then Some (request_host, True) else None)
          else if is_public_suffix psl d \<or> \<not> domain_matches request_host d then None
          else Some (d, False))"

definition resolve_path :: "string \<Rightarrow> string option \<Rightarrow> string" where
  "resolve_path request_path path_attr =
     (case path_attr of
        Some p \<Rightarrow> (if starts_with p ''/'' then p else default_path request_path)
      | None \<Rightarrow> default_path request_path)"

definition lifetime_cap :: "system_time \<Rightarrow> system_time" where
  "lifetime_cap now = (case checked_add now max_cookie_lifetime of Some t \<Rightarrow> t | None \<Rightarrow> now)"

definition resolve_expires ::
  "system_time \<Rightarrow> int option \<Rightarrow> system_time option \<Rightarrow> system_time option" where
  "resolve_expires now max_age expires =
     (case max_age of
        Some seconds \<Rightarrow>
          if seconds \<le> 0 then Some now
          else (let requested = (case checked_add now (from_secs (nat seconds)) of
                                   Some t \<Rightarrow> t | None \<Rightarrow> lifetime_cap now)
                in Some (min requested (lifetime_cap now)))
      | None \<Rightarrow> map_option (\<lambda>e. min e (lifetime_cap now)) expires)"

definition build_cookie ::
  "psl \<Rightarrow> string \<times> string \<Rightarrow> cookie_attrs \<Rightarrow> string \<Rightarrow> string \<Rightarrow> bool \<Rightarrow> system_time \<Rightarrow> cookie option"
where
  "build_cookie psl nv a request_host request_path request_is_secure now =
     (case nv of (name, val) \<Rightarrow>
      do {
        (domain, host_only) \<leftarrow> resolve_domain psl request_host (at_domain a);
        let path = resolve_path request_path (at_path a);
        let same_site = (case at_same_site a of Some s \<Rightarrow> s | None \<Rightarrow> Lax);
        if same_site = SameSiteNone \<and> \<not> at_secure a then None
        else if carries_a_name_prefix name
             \<and> (\<not> request_is_secure
                \<or> \<not> keeps_name_prefix_promise name (at_secure a) (at_domain a = None) path)
        then None
        else Some \<lparr>ck_name = name, ck_value = val, ck_domain = domain, ck_host_only = host_only,
                   ck_path = path, ck_secure = at_secure a, ck_http_only = at_http_only a,
                   ck_same_site = same_site, ck_partitioned = at_partitioned a,
                   ck_expires = resolve_expires now (at_max_age a) (at_expires a)\<rparr>
      })"

definition parse_cookie ::
  "externals \<Rightarrow> header_value \<Rightarrow> string \<Rightarrow> string \<Rightarrow> bool \<Rightarrow> system_time \<Rightarrow> cookie option" where
  "parse_cookie E header request_host request_path request_is_secure now =
     do {
       raw \<leftarrow> ext_to_str E header;
       let segments = split_by (\<lambda>c. c = CHR '';'') raw;
       nv \<leftarrow> name_value (hd segments);
       build_cookie (ext_psl E) nv (fold attr_segment (tl segments) no_attrs)
         request_host request_path request_is_secure now
     }"

section \<open>Eligibility\<close>

definition is_expired :: "cookie \<Rightarrow> system_time \<Rightarrow> bool" where
  "is_expired c now = (case ck_expires c of Some expiry \<Rightarrow> expiry \<le> now | None \<Rightarrow> False)"

definition applies_to :: "cookie \<Rightarrow> string \<Rightarrow> string \<Rightarrow> bool \<Rightarrow> bool" where
  "applies_to c request_host request_path request_is_secure =
     (if ck_secure c \<and> \<not> request_is_secure then False
      else (if ck_host_only c then request_host = ck_domain c
            else domain_matches request_host (ck_domain c))
           \<and> path_matches request_path (ck_path c))"

definition same_site_eligible :: "psl \<Rightarrow> cookie \<Rightarrow> string \<Rightarrow> cookie_context \<Rightarrow> bool" where
  "same_site_eligible psl c request_host ctx =
     (let same = (case cc_initiator ctx of
                    Some g \<Rightarrow> is_same_site psl (origin_host g) request_host | None \<Rightarrow> False)
      in case ck_same_site c of
           SameSiteNone \<Rightarrow> True
         | Lax \<Rightarrow> same \<or> cc_top_level_navigation ctx
         | Strict \<Rightarrow> same)"

section \<open>What an accepted cookie satisfies\<close>

lemma set_unquote_value: "set (unquote_value v) \<subseteq> set v"
proof (cases "Option.bind (strip_prefix [CHR 0x22] v) (strip_suffix [CHR 0x22])")
  case (Some w)
  then obtain u where "strip_prefix [CHR 0x22] v = Some u" and "strip_suffix [CHR 0x22] u = Some w"
    by (auto simp: bind_eq_Some_conv)
  then have "v = [CHR 0x22] @ (w @ [CHR 0x22])"
    by (simp only: strip_prefix_Some strip_suffix_Some)
  then show ?thesis using Some by (auto simp: unquote_value_def)
qed (simp add: unquote_value_def)

lemma name_value_Some:
  assumes "name_value segment = Some (n, v)"
  shows "n \<noteq> []" and "CHR ''='' \<notin> set n"
    and "set n \<subseteq> set segment" and "set v \<subseteq> set segment"
proof -
  let ?first = "trim segment"
  obtain i where i: "find_char (\<lambda>c. c = CHR ''='') ?first = Some i"
    and n: "n = trim (take i ?first)" "n \<noteq> []"
    and v: "v = unquote_value (trim (drop (Suc i) ?first))"
    using assms by (auto simp: name_value_def Let_def bind_eq_Some_conv split: if_splits)
  show "n \<noteq> []" by (rule n(2))
  have "CHR ''='' \<notin> set (take i ?first)"
    using find_char_Some [OF i] by blast
  then show "CHR ''='' \<notin> set n"
    using set_trim [of "take i ?first"] n(1) by blast
  have "set n \<subseteq> set (take i ?first)" using n(1) set_trim by simp
  also have "\<dots> \<subseteq> set ?first" by (rule set_take_subset)
  also have "\<dots> \<subseteq> set segment" by (rule set_trim)
  finally show "set n \<subseteq> set segment" .
  have "set v \<subseteq> set (trim (drop (Suc i) ?first))"
    using v set_unquote_value by simp
  also have "\<dots> \<subseteq> set (drop (Suc i) ?first)" by (rule set_trim)
  also have "\<dots> \<subseteq> set ?first" by (rule set_drop_subset)
  also have "\<dots> \<subseteq> set segment" by (rule set_trim)
  finally show "set v \<subseteq> set segment" .
qed

lemma split_by_hd_subset: "set (hd (split_by p s)) \<subseteq> {c \<in> set s. \<not> p c}"
  by (rule split_by_pieces) simp

lemma resolve_domain_Some:
  assumes "resolve_domain psl host attr = Some (d, ho)"
  shows "ho \<Longrightarrow> d = host"
    and "\<not> ho \<Longrightarrow> \<not> is_ip_literal host \<and> \<not> is_public_suffix psl d \<and> domain_matches host d
           \<and> attr = Some d"
    and "attr = None \<Longrightarrow> ho"
  using assms by (auto simp: resolve_domain_def split: option.splits if_splits)

lemma resolve_path_absolute: "starts_with (resolve_path request_path attr) ''/''"
  by (auto simp: resolve_path_def default_path_absolute split: option.splits)

lemma lifetime_cap_ge: "now \<le> lifetime_cap now"
  by (auto simp: lifetime_cap_def dest: checked_add_ge split: option.splits)

lemma lifetime_cap_le: "lifetime_cap now \<le> now + int max_cookie_lifetime"
  by (auto simp: lifetime_cap_def checked_add_def)

lemma resolve_expires_cap:
  "resolve_expires now ma ex = Some e \<Longrightarrow> e \<le> lifetime_cap now"
  by (auto simp: resolve_expires_def lifetime_cap_ge Let_def split: option.splits if_splits)

lemma keeps_name_prefix_promise_mono:
  "keeps_name_prefix_promise n s h p \<Longrightarrow> (h \<longrightarrow> h') \<Longrightarrow> keeps_name_prefix_promise n s h' p"
  by (auto simp: keeps_name_prefix_promise_def split: if_splits)

lemma keeps_name_prefix_promise_unprefixed:
  "\<not> carries_a_name_prefix n \<Longrightarrow> keeps_name_prefix_promise n s h p"
  by (simp add: carries_a_name_prefix_def keeps_name_prefix_promise_def)

text \<open>The promises a parsed cookie keeps, in one predicate: its name and value can be put in a
  \<open>Cookie\<close> header, its scope contains the host that set it without being a public suffix, its path is
  absolute, the \<open>SameSite=None\<close> and name-prefix rules hold, and it does not outlive the cap.\<close>

definition accepted_cookie :: "psl \<Rightarrow> string \<Rightarrow> bool \<Rightarrow> system_time \<Rightarrow> cookie \<Rightarrow> bool" where
  "accepted_cookie psl host request_is_secure now c \<longleftrightarrow>
     ck_name c \<noteq> [] \<and> CHR ''='' \<notin> set (ck_name c)
     \<and> CHR '';'' \<notin> set (ck_name c) \<and> CHR '';'' \<notin> set (ck_value c)
     \<and> (if ck_host_only c then ck_domain c = host
        else \<not> is_ip_literal host \<and> \<not> is_public_suffix psl (ck_domain c)
             \<and> domain_matches host (ck_domain c))
     \<and> starts_with (ck_path c) ''/''
     \<and> (ck_same_site c = SameSiteNone \<longrightarrow> ck_secure c)
     \<and> (carries_a_name_prefix (ck_name c) \<longrightarrow> request_is_secure)
     \<and> keeps_name_prefix_promise (ck_name c) (ck_secure c) (ck_host_only c) (ck_path c)
     \<and> (\<forall>e. ck_expires c = Some e \<longrightarrow> e \<le> now + int max_cookie_lifetime)"

lemma build_cookie_Some:
  assumes b: "build_cookie psl (n, v) a host path sec now = Some c"
  shows "ck_name c = n" and "ck_value c = v"
    and "resolve_domain psl host (at_domain a) = Some (ck_domain c, ck_host_only c)"
    and "ck_path c = resolve_path path (at_path a)"
    and "ck_same_site c = SameSiteNone \<Longrightarrow> ck_secure c"
    and "carries_a_name_prefix n \<Longrightarrow>
           sec \<and> keeps_name_prefix_promise n (ck_secure c) (at_domain a = None) (ck_path c)"
    and "ck_expires c = resolve_expires now (at_max_age a) (at_expires a)"
  using b by (auto simp: build_cookie_def Let_def bind_eq_Some_conv split: if_splits)

lemma build_cookie_promise:
  assumes b: "build_cookie psl (n, v) a host path sec now = Some c"
  shows "keeps_name_prefix_promise n (ck_secure c) (ck_host_only c) (ck_path c)"
proof (cases "carries_a_name_prefix n")
  case True
  have "at_domain a = None \<longrightarrow> ck_host_only c"
    by (rule impI) (rule resolve_domain_Some(3) [OF build_cookie_Some(3) [OF b]])
  then show ?thesis
    by (rule keeps_name_prefix_promise_mono [OF conjunct2 [OF build_cookie_Some(6) [OF b True]]])
qed (rule keeps_name_prefix_promise_unprefixed)

lemma parse_cookie_Some:
  assumes "parse_cookie E header host path sec now = Some c"
  obtains raw n v where "ext_to_str E header = Some raw"
    and "name_value (hd (split_by (\<lambda>c. c = CHR '';'') raw)) = Some (n, v)"
    and "build_cookie (ext_psl E) (n, v)
           (fold attr_segment (tl (split_by (\<lambda>c. c = CHR '';'') raw)) no_attrs)
           host path sec now = Some c"
  using assms by (auto simp: parse_cookie_def Let_def bind_eq_Some_conv)

lemma parse_cookie_chars:
  assumes "parse_cookie E header host path sec now = Some c"
  obtains raw where "ext_to_str E header = Some raw"
    and "set (ck_name c) \<subseteq> set raw - {CHR '';'', CHR ''=''}"
    and "set (ck_value c) \<subseteq> set raw - {CHR '';''}" and "ck_name c \<noteq> []"
proof -
  from assms obtain raw n v where raw: "ext_to_str E header = Some raw"
    and nv: "name_value (hd (split_by (\<lambda>c. c = CHR '';'') raw)) = Some (n, v)"
    and b: "build_cookie (ext_psl E) (n, v)
           (fold attr_segment (tl (split_by (\<lambda>c. c = CHR '';'') raw)) no_attrs)
           host path sec now = Some c"
    by (rule parse_cookie_Some)
  note split_by_hd_subset [of "\<lambda>c. c = CHR '';''" raw]
  with name_value_Some [OF nv] build_cookie_Some(1,2) [OF b] raw show ?thesis
    by (intro that [of raw]) blast+
qed

lemma parse_cookie_accepted:
  assumes p: "parse_cookie E header host path sec now = Some c"
  shows "accepted_cookie (ext_psl E) host sec now c"
proof -
  from p obtain raw n v where b: "build_cookie (ext_psl E) (n, v)
           (fold attr_segment (tl (split_by (\<lambda>c. c = CHR '';'') raw)) no_attrs)
           host path sec now = Some c"
    by (rule parse_cookie_Some)
  note f = build_cookie_Some [OF b]
  have ex: "e \<le> now + int max_cookie_lifetime" if "ck_expires c = Some e" for e
    using resolve_expires_cap [of now _ _ e] lifetime_cap_le [of now] f(7) that by fastforce
  have dom: "if ck_host_only c then ck_domain c = host
     else \<not> is_ip_literal host \<and> \<not> is_public_suffix (ext_psl E) (ck_domain c)
          \<and> domain_matches host (ck_domain c)"
    using resolve_domain_Some(1,2) [OF f(3)] by auto
  obtain raw' where "set (ck_name c) \<subseteq> set raw' - {CHR '';'', CHR ''=''}"
    and "set (ck_value c) \<subseteq> set raw' - {CHR '';''}" and "ck_name c \<noteq> []"
    using p by (rule parse_cookie_chars)
  moreover have "carries_a_name_prefix (ck_name c) \<longrightarrow> sec" using f(1,6) by blast
  ultimately show ?thesis
    unfolding accepted_cookie_def
    using dom ex f(5) build_cookie_promise [OF b] f(1) resolve_path_absolute f(4)
    by (intro conjI) auto
qed

lemma parse_cookie_safe:
  assumes "to_str_law E" and p: "parse_cookie E header host path sec now = Some c"
  shows "list_all header_safe_char (ck_name c)" and "list_all header_safe_char (ck_value c)"
proof -
  obtain raw where "ext_to_str E header = Some raw"
    and sub: "set (ck_name c) \<subseteq> set raw - {CHR '';'', CHR ''=''}"
      "set (ck_value c) \<subseteq> set raw - {CHR '';''}"
    using p by (rule parse_cookie_chars)
  then have "list_all header_safe_char raw"
    using assms(1) by (auto simp: to_str_law_def)
  then show "list_all header_safe_char (ck_name c)" and "list_all header_safe_char (ck_value c)"
    using sub by (auto simp: list_all_iff)
qed

section \<open>Properties\<close>

text \<open>A concrete instance of the externals, for witnesses: header values of visible ASCII, a public
  suffix list with the one registrable domain \<open>example.com\<close>, and selection by sorting.\<close>

definition sample_externals :: externals where
  "sample_externals =
     \<lparr>ext_psl = (\<lambda>h. if domain_matches h ''example.com'' then Some ''example.com'' else None),
      ext_to_str = (\<lambda>h. if list_all header_safe_char h then Some h else None),
      ext_from_str = (\<lambda>s. if list_all header_safe_char s then Some s else None),
      ext_select = (\<lambda>n key xs. sort_key key xs)\<rparr>"

lemma sample_header_laws: "to_str_law sample_externals" "from_str_law sample_externals"
  by (simp_all add: sample_externals_def to_str_law_def from_str_law_def)

text \<open>C18: Whatever \<open>Cookie::parse\<close> accepts is safe to store. The name is non-empty, free of \<open>=\<close> and,
  like the value, of \<open>;\<close>. A host-only cookie has exactly the request's host; any other has a domain
  that covers that host and is not a public suffix, and the host is no IP literal. The path is
  absolute, \<open>SameSite=None\<close> implies \<open>Secure\<close>, a name prefix implies a secure request and the state it
  promises, and the cookie expires no later than 400 days from now.\<close>
theorem set_cookie_accepted:
  assumes "parse_cookie E header host path sec now = Some c"
  shows "accepted_cookie (ext_psl E) host sec now c"
  using assms by (rule parse_cookie_accepted)

theorem set_cookie_accepted_witness:
  "\<exists>c. parse_cookie sample_externals ''__Secure-id=1; Domain=example.com; Secure; Max-Age=99999999999''
       ''www.example.com'' ''/a/b'' True 0 = Some c
     \<and> ck_domain c = ''example.com'' \<and> ck_expires c = Some (int max_cookie_lifetime)
     \<and> accepted_cookie (ext_psl sample_externals) ''www.example.com'' True 0 c"
proof -
  obtain c where c: "parse_cookie sample_externals
      ''__Secure-id=1; Domain=example.com; Secure; Max-Age=99999999999''
      ''www.example.com'' ''/a/b'' True 0 = Some c"
    "ck_domain c = ''example.com''" "ck_expires c = Some (int max_cookie_lifetime)"
  proof -
    let ?p = "parse_cookie sample_externals
      ''__Secure-id=1; Domain=example.com; Secure; Max-Age=99999999999''
      ''www.example.com'' ''/a/b'' True 0"
    have "?p \<noteq> None" and "map_option ck_domain ?p = Some ''example.com''"
      and "map_option ck_expires ?p = Some (Some (int max_cookie_lifetime))"
      by code_simp+
    then show ?thesis by (auto intro: that)
  qed
  with set_cookie_accepted [OF c(1)] show ?thesis by blast
qed

end
