(* ===== verification/Bucket.thy ===== *)
theory Bucket
  imports Cookie "HOL-Library.Multiset"
begin

text \<open>
  One registrable domain's cookies: \<open>Entry\<close>, \<open>Identity\<close> and \<open>Bucket\<close> of
  \<open>chromulate-cookie/src/jar.rs\<close>. A bucket is a vector of entries beside a hash map from each
  identity to its position. The invariant \<open>bucket_inv\<close> says the two never drift apart; through it a
  bucket is a finite map from identities to entries (\<open>bucket_abs\<close>), and every operation is the
  corresponding operation on that map. Operations that can panic return \<^typ>\<open>'a option\<close>.
\<close>

section \<open>Entries and buckets\<close>

record entry =
  en_cookie :: cookie
  en_creation_seq :: u64
  en_last_access_seq :: u64

type_synonym identity = "string \<times> string \<times> string"

definition identity_of :: "cookie \<Rightarrow> identity" where
  "identity_of c = (ck_name c, ck_domain c, ck_path c)"

abbreviation entry_id :: "entry \<Rightarrow> identity" where
  "entry_id e \<equiv> identity_of (en_cookie e)"

record bucket =
  bk_entries :: "entry list"
  bk_index :: "identity \<rightharpoonup> nat"

definition bucket_default :: bucket where
  "bucket_default = \<lparr>bk_entries = [], bk_index = Map.empty\<rparr>"

definition bucket_len :: "bucket \<Rightarrow> nat" where
  "bucket_len b = length (bk_entries b)"

definition bucket_is_empty :: "bucket \<Rightarrow> bool" where
  "bucket_is_empty b \<longleftrightarrow> bk_entries b = []"

definition bucket_get :: "bucket \<Rightarrow> nat \<Rightarrow> entry option" where
  "bucket_get b p = (if p < length (bk_entries b) then Some (bk_entries b ! p) else None)"

definition bucket_position_of :: "bucket \<Rightarrow> identity \<Rightarrow> nat option" where
  "bucket_position_of b k = bk_index b k"

definition bucket_push :: "bucket \<Rightarrow> entry \<Rightarrow> bucket" where
  "bucket_push b e =
     \<lparr>bk_entries = bk_entries b @ [e],
      bk_index = (bk_index b)(entry_id e \<mapsto> length (bk_entries b))\<rparr>"

definition bucket_replace :: "bucket \<Rightarrow> nat \<Rightarrow> entry \<Rightarrow> bucket option" where
  "bucket_replace b p e =
     do {
       old \<leftarrow> bucket_get b p;
       if entry_id e \<noteq> entry_id old then None
       else Some (b\<lparr>bk_entries := (bk_entries b)[p := e]\<rparr>)
     }"

definition bucket_remove :: "bucket \<Rightarrow> nat \<Rightarrow> bucket option" where
  "bucket_remove b p =
     do {
       (removed, rest) \<leftarrow> swap_remove (bk_entries b) p;
       let index = (bk_index b)(entry_id removed := None);
       Some \<lparr>bk_entries = rest,
             bk_index = (if p < length rest then index(entry_id (rest ! p) \<mapsto> p) else index)\<rparr>
     }"

definition index_of :: "entry list \<Rightarrow> identity \<rightharpoonup> nat" where
  "index_of es = fold (\<lambda>(p, e) m. m(entry_id e \<mapsto> p)) (enumerate 0 es) Map.empty"

definition reindex :: "entry list \<Rightarrow> bucket" where
  "reindex es = \<lparr>bk_entries = es, bk_index = index_of es\<rparr>"

definition bucket_remove_expired :: "bucket \<Rightarrow> system_time \<Rightarrow> bucket" where
  "bucket_remove_expired b now =
     (let kept = filter (\<lambda>e. \<not> is_expired (en_cookie e) now) (bk_entries b)
      in if length kept \<noteq> length (bk_entries b) then reindex kept else b\<lparr>bk_entries := kept\<rparr>)"

definition bucket_remove_all :: "bucket \<Rightarrow> nat list \<Rightarrow> bucket" where
  "bucket_remove_all b positions =
     (if positions = [] then b
      else (let doomed = fold (\<lambda>p d. if p < length d then d[p := True] else d) positions
                           (replicate (length (bk_entries b)) False)
            in reindex (map snd (filter (\<lambda>(p, e). \<not> doomed ! p) (enumerate 0 (bk_entries b))))))"

definition bucket_trim_to :: "externals \<Rightarrow> bucket \<Rightarrow> nat \<Rightarrow> bucket" where
  "bucket_trim_to E b keep =
     (if length (bk_entries b) \<le> keep then b
      else (let doomed_count = length (bk_entries b) - keep;
                ranked = ext_select E (doomed_count - 1)
                           (\<lambda>p. en_last_access_seq (bk_entries b ! p))
                           [0..<length (bk_entries b)]
            in bucket_remove_all b (take doomed_count ranked)))"

text \<open>\<open>select_nth_unstable_by_key\<close> permutes the slice so that the element at the index is the one a sort
  would put there, with nothing greater before it and nothing smaller after it.\<close>

definition select_law :: "externals \<Rightarrow> bool" where
  "select_law E \<longleftrightarrow>
     (\<forall>n key xs. n < length xs \<longrightarrow>
        mset (ext_select E n key xs) = mset xs
        \<and> (\<forall>i < n. key (ext_select E n key xs ! i) \<le> key (ext_select E n key xs ! n))
        \<and> (\<forall>i. n < i \<longrightarrow> i < length xs \<longrightarrow>
              key (ext_select E n key xs ! n) \<le> key (ext_select E n key xs ! i)))"

section \<open>The index is exact\<close>

definition index_ok :: "entry list \<Rightarrow> (identity \<rightharpoonup> nat) \<Rightarrow> bool" where
  "index_ok es m \<longleftrightarrow> (\<forall>k p. m k = Some p \<longleftrightarrow> p < length es \<and> entry_id (es ! p) = k)"

definition bucket_inv :: "bucket \<Rightarrow> bool" where
  "bucket_inv b \<longleftrightarrow> index_ok (bk_entries b) (bk_index b)"

definition bucket_abs :: "bucket \<Rightarrow> (identity \<rightharpoonup> entry)" where
  "bucket_abs b = map_of (map (\<lambda>e. (entry_id e, e)) (bk_entries b))"

lemma index_okD: "index_ok es m \<Longrightarrow> m k = Some p \<Longrightarrow> p < length es \<and> entry_id (es ! p) = k"
  unfolding index_ok_def by blast

lemma index_okI: "index_ok es m \<Longrightarrow> p < length es \<Longrightarrow> m (entry_id (es ! p)) = Some p"
  unfolding index_ok_def by blast

lemma index_ok_snoc:
  assumes ok: "index_ok es m" and fresh: "entry_id e \<notin> entry_id ` set es"
  shows "index_ok (es @ [e]) (m(entry_id e \<mapsto> length es))"
  unfolding index_ok_def
proof (intro allI)
  fix k p
  show "(m(entry_id e \<mapsto> length es)) k = Some p \<longleftrightarrow>
      p < length (es @ [e]) \<and> entry_id ((es @ [e]) ! p) = k"
  proof (cases "k = entry_id e")
    case True
    with fresh show ?thesis
      by (auto simp: nth_append less_Suc_eq) (metis image_eqI nth_mem)
  next
    case False
    with ok show ?thesis unfolding index_ok_def by (auto simp del: split_paired_All simp: nth_append less_Suc_eq)
  qed
qed

lemma index_ok_distinct:
  assumes "index_ok es m"
  shows "distinct (map entry_id es)"
  unfolding distinct_conv_nth
proof (intro allI impI)
  fix i j assume "i < length (map entry_id es)" "j < length (map entry_id es)" "i \<noteq> j"
  with index_okI [OF assms, of i] index_okI [OF assms, of j]
  show "map entry_id es ! i \<noteq> map entry_id es ! j" by auto
qed

lemma map_of_ids:
  assumes "distinct (map entry_id es)" and "p < length es"
  shows "map_of (map (\<lambda>e. (entry_id e, e)) es) (entry_id (es ! p)) = Some (es ! p)"
  using assms by (intro map_of_is_SomeI) (auto simp: comp_def)

lemma index_ok_abs:
  assumes "index_ok es m"
  shows "map_of (map (\<lambda>e. (entry_id e, e)) es) k = map_option ((!) es) (m k)"
proof (cases "m k")
  case None
  then have "k \<notin> entry_id ` set es"
    using index_okI [OF assms] by (auto simp: in_set_conv_nth)
  with None show ?thesis by (auto simp: map_of_eq_None_iff image_image)
next
  case (Some p)
  with index_okD [OF assms Some] map_of_ids [OF index_ok_distinct [OF assms], of p]
  show ?thesis by auto
qed

lemma bucket_abs_index: "bucket_inv b \<Longrightarrow> bucket_abs b k = map_option ((!) (bk_entries b)) (bk_index b k)"
  by (simp add: bucket_abs_def bucket_inv_def index_ok_abs)

lemma bucket_distinct: "bucket_inv b \<Longrightarrow> distinct (map entry_id (bk_entries b))"
  by (auto simp: bucket_inv_def dest: index_ok_distinct)

lemma bucket_abs_mem:
  assumes "bucket_inv b"
  shows "bucket_abs b k = Some e \<longleftrightarrow> e \<in> set (bk_entries b) \<and> entry_id e = k"
  using bucket_distinct [OF assms]
  by (auto simp: bucket_abs_def map_of_eq_Some_iff comp_def)

lemma index_of_snoc: "index_of (es @ [e]) = (index_of es)(entry_id e \<mapsto> length es)"
  by (simp add: index_of_def enumerate_append_eq)

lemma index_ok_index_of: "distinct (map entry_id es) \<Longrightarrow> index_ok es (index_of es)"
proof (induction es rule: rev_induct)
  case Nil
  then show ?case by (simp add: index_ok_def index_of_def)
qed (simp add: index_of_snoc index_ok_snoc)

lemma reindex_inv: "distinct (map entry_id es) \<Longrightarrow> bucket_inv (reindex es)"
  by (simp add: bucket_inv_def reindex_def index_ok_index_of)

lemma reindex_entries [simp]: "bk_entries (reindex es) = es"
  by (simp add: reindex_def)

section \<open>Each operation on the abstract map\<close>

lemma map_eqI_Some: "(\<And>k e. f k = Some e \<longleftrightarrow> g k = Some e) \<Longrightarrow> f = g"
  by (rule ext) (metis not_None_eq)

lemma bucket_default_inv: "bucket_inv bucket_default"
  by (simp add: bucket_inv_def bucket_default_def index_ok_def)

lemma bucket_default_abs: "bucket_abs bucket_default = Map.empty"
  by (simp add: bucket_abs_def bucket_default_def)

lemma bucket_position_None:
  assumes "bucket_inv b"
  shows "bucket_position_of b k = None \<longleftrightarrow> k \<notin> entry_id ` set (bk_entries b)"
  using bucket_abs_index [OF assms, of k] bucket_abs_mem [OF assms, of k]
  by (cases "bk_index b k") (auto simp: bucket_position_of_def)

lemma bucket_position_Some:
  assumes "bucket_inv b" and "bucket_position_of b k = Some p"
  shows "p < length (bk_entries b)" and "entry_id (bk_entries b ! p) = k"
    and "bucket_get b p = Some (bk_entries b ! p)" and "bucket_abs b k = Some (bk_entries b ! p)"
proof -
  from assms have m: "index_ok (bk_entries b) (bk_index b)" "bk_index b k = Some p"
    by (simp_all add: bucket_inv_def bucket_position_of_def)
  from index_okD [OF m] show p: "p < length (bk_entries b)" "entry_id (bk_entries b ! p) = k"
    by auto
  from p(1) show "bucket_get b p = Some (bk_entries b ! p)" by (simp add: bucket_get_def)
  show "bucket_abs b k = Some (bk_entries b ! p)"
    using m(2) by (simp add: bucket_abs_index [OF assms(1)])
qed

lemma bucket_push_inv:
  assumes "bucket_inv b" and "bucket_position_of b (entry_id e) = None"
  shows "bucket_inv (bucket_push b e)"
  using assms bucket_position_None [OF assms(1)]
  by (auto simp: bucket_inv_def bucket_push_def index_ok_snoc)

lemma bucket_push_abs:
  assumes "bucket_inv b" and "bucket_position_of b (entry_id e) = None"
  shows "bucket_abs (bucket_push b e) = (bucket_abs b)(entry_id e \<mapsto> e)"
proof -
  have "bucket_abs b (entry_id e) = None"
    using assms by (simp add: bucket_abs_index bucket_position_of_def)
  then show ?thesis
    by (auto simp: bucket_abs_def bucket_push_def map_add_def fun_eq_iff split: option.splits)
qed

lemma bucket_replace_ok:
  assumes inv: "bucket_inv b" and p: "bucket_position_of b (entry_id e) = Some p"
  defines "b' \<equiv> b\<lparr>bk_entries := (bk_entries b)[p := e]\<rparr>"
  shows "bucket_replace b p e = Some b'" and "bucket_inv b'"
    and "bucket_abs b' = (bucket_abs b)(entry_id e \<mapsto> e)"
proof -
  note f = bucket_position_Some [OF inv p]
  show "bucket_replace b p e = Some b'"
    using f by (simp add: bucket_replace_def b'_def)
  have same: "entry_id ((bk_entries b)[p := e] ! q) = entry_id (bk_entries b ! q)" for q
    using f(1,2) by (cases "q = p") auto
  with inv show inv': "bucket_inv b'"
    by (auto simp: bucket_inv_def index_ok_def b'_def)
  show "bucket_abs b' = (bucket_abs b)(entry_id e \<mapsto> e)"
  proof
    fix k
    have idx: "bk_index b' = bk_index b" "bk_entries b' = (bk_entries b)[p := e]"
      by (simp_all add: b'_def)
    have other: "q \<noteq> p" if "bk_index b k = Some q" "k \<noteq> entry_id e" for q
      using that inv f(2) unfolding bucket_inv_def by (metis index_okD)
    show "bucket_abs b' k = ((bucket_abs b)(entry_id e \<mapsto> e)) k"
      using p f(1) other
      by (cases "bk_index b k")
        (auto simp: bucket_abs_index [OF inv] bucket_abs_index [OF inv'] idx bucket_position_of_def)
  qed
qed

lemma index_ok_swap_remove:
  assumes ok: "index_ok es m" and p: "p < length es"
  defines "rest \<equiv> butlast (es[p := last es])"
  defines "m0 \<equiv> m(entry_id (es ! p) := None)"
  shows "index_ok rest (if p < length rest then m0(entry_id (rest ! p) \<mapsto> p) else m0)"
proof -
  define n where "n = length es - 1"
  have "es \<noteq> []" using p by auto
  then have n: "length rest = n" "n < length es" "p \<le> n" "last es = es ! n"
    using p by (simp_all add: rest_def n_def last_conv_nth)
  have nth: "rest ! j = (if j = p then es ! n else es ! j)" if "j < n" for j
    using nth_butlast_update [OF p, of j] that n(4) by (simp add: rest_def n_def)
  have iff: "m k = Some q \<longleftrightarrow> q < length es \<and> entry_id (es ! q) = k" for k q
    using ok unfolding index_ok_def by blast
  have val: "(if p < length rest then m0(entry_id (rest ! p) \<mapsto> p) else m0) k =
      (if p < n \<and> k = entry_id (es ! n) then Some p
       else if k = entry_id (es ! p) then None else m k)" for k
    using n(1) nth [of p] by (auto simp: m0_def)
  have rhs: "q < n \<and> entry_id (rest ! q) = k \<longleftrightarrow>
      (p < n \<and> q = p \<and> k = entry_id (es ! n))
      \<or> (q \<noteq> p \<and> q \<noteq> n \<and> m k = Some q)" for k q
    using nth [of q] n(2) n_def by (cases "q = p") (auto simp: iff)
  have last: "m k = Some n" if "k = entry_id (es ! n)" for k using that n(2) by (simp add: iff)
  have gone: "m k = Some p" if "k = entry_id (es ! p)" for k using that p by (simp add: iff)
  show ?thesis
    unfolding index_ok_def
  proof (intro allI)
    fix k q
    show "(if p < length rest then m0(entry_id (rest ! p) \<mapsto> p) else m0) k = Some q \<longleftrightarrow>
        q < length rest \<and> entry_id (rest ! q) = k"
      unfolding val unfolding n(1) rhs
      using last [of k] gone [of k] n(3) iff [of k n] iff [of k p]
      by (cases "k = entry_id (es ! n)"; cases "k = entry_id (es ! p)") auto
  qed
qed

lemma set_remove_one:
  assumes "mset r = mset es - {# x #}" and "x \<in> set es" and "distinct es"
  shows "set r = set es - {x}"
proof -
  have "mset (x # r) = mset es" using assms by simp
  then have "set (x # r) = set es" and "distinct (x # r)"
    using assms(3) by (metis mset_eq_setD, metis mset_eq_imp_distinct_iff)
  then show ?thesis by auto
qed

lemma bucket_remove_ok:
  assumes inv: "bucket_inv b" and p: "p < length (bk_entries b)"
  obtains b' where "bucket_remove b p = Some b'" and "bucket_inv b'"
    and "bucket_abs b' = (bucket_abs b)(entry_id (bk_entries b ! p) := None)"
    and "mset (bk_entries b') = mset (bk_entries b) - {# bk_entries b ! p #}"
proof -
  let ?es = "bk_entries b" and ?m = "bk_index b"
  define rest where "rest = butlast (?es[p := last ?es])"
  define m0 where "m0 = ?m(entry_id (?es ! p) := None)"
  define b' where "b' = \<lparr>bk_entries = rest,
      bk_index = (if p < length rest then m0(entry_id (rest ! p) \<mapsto> p) else m0)\<rparr>"
  have rm: "bucket_remove b p = Some b'"
    using swap_remove_Some [OF p] by (simp add: bucket_remove_def b'_def rest_def m0_def Let_def)
  have inv': "bucket_inv b'"
    using index_ok_swap_remove [OF _ p, of ?m] inv
    unfolding bucket_inv_def b'_def rest_def m0_def bucket.simps by blast
  have ms: "mset (bk_entries b') = mset ?es - {# ?es ! p #}"
    using mset_swap_remove [OF p] by (simp add: b'_def rest_def)
  have "distinct ?es" using bucket_distinct [OF inv] by (simp add: distinct_map)
  then have set: "set (bk_entries b') = set ?es - {?es ! p}"
    using p by (intro set_remove_one [OF ms]) auto
  have abs: "bucket_abs b' = (bucket_abs b)(entry_id (?es ! p) := None)"
  proof (rule map_eqI_Some)
    fix k e
    have "e = ?es ! p" if "e \<in> set ?es" "entry_id e = entry_id (?es ! p)"
      using bucket_distinct [OF inv] that p by (auto simp: distinct_map dest: inj_onD)
    then show "bucket_abs b' k = Some e \<longleftrightarrow> ((bucket_abs b)(entry_id (?es ! p) := None)) k = Some e"
      unfolding bucket_abs_mem [OF inv'] set by (auto simp: bucket_abs_mem [OF inv])
  qed
  show ?thesis by (rule that [OF rm inv' abs ms])
qed

lemma doomed_flags:
  "length (fold (\<lambda>p d. if p < length d then d[p := True] else d) ps d) = length d"
  "i < length d \<Longrightarrow>
     fold (\<lambda>p d. if p < length d then d[p := True] else d) ps d ! i \<longleftrightarrow> i \<in> set ps \<or> d ! i"
  by (induction ps arbitrary: d) (auto simp: nth_list_update)

lemma enumerate_filter_nths:
  assumes "\<And>i. i < length xs \<Longrightarrow> Q i \<longleftrightarrow> i \<in> A"
  shows "map snd (filter (\<lambda>(p, e). Q p) (enumerate 0 xs)) = nths xs A"
  using assms
proof (induction xs rule: rev_induct)
  case (snoc x xs)
  then show ?case by (simp add: enumerate_append_eq nths_append nths_singleton)
qed simp

lemma bucket_remove_all_entries:
  "bk_entries (bucket_remove_all b ps) = nths (bk_entries b) (- set ps)"
proof (cases "ps = []")
  case False
  then show ?thesis
    by (simp add: bucket_remove_all_def Let_def doomed_flags enumerate_filter_nths)
qed (simp add: bucket_remove_all_def nths_all)

lemma bucket_remove_all_inv: "bucket_inv b \<Longrightarrow> bucket_inv (bucket_remove_all b ps)"
proof (cases "ps = []")
  case False
  assume "bucket_inv b"
  then have "distinct (map entry_id (nths (bk_entries b) (- set ps)))"
    by (simp add: nths_map [symmetric] distinct_nthsI bucket_distinct)
  moreover have "bucket_remove_all b ps = reindex (bk_entries (bucket_remove_all b ps))"
    using False by (simp add: bucket_remove_all_def Let_def)
  ultimately show ?thesis by (metis bucket_remove_all_entries reindex_inv)
qed (simp add: bucket_remove_all_def)

lemma bucket_remove_expired_entries:
  "bk_entries (bucket_remove_expired b now) =
     filter (\<lambda>e. \<not> is_expired (en_cookie e) now) (bk_entries b)"
  by (simp add: bucket_remove_expired_def Let_def)

lemma filter_length_eq: "length (filter Q xs) = length xs \<Longrightarrow> filter Q xs = xs"
  by (metis filter_True length_filter_less less_irrefl)

lemma bucket_remove_expired_inv:
  assumes "bucket_inv b"
  shows "bucket_inv (bucket_remove_expired b now)"
  using assms filter_length_eq [of "\<lambda>e. \<not> is_expired (en_cookie e) now" "bk_entries b"]
    distinct_map_filter [OF bucket_distinct [OF assms]]
  by (auto simp: bucket_remove_expired_def Let_def intro: reindex_inv)

section \<open>Trimming keeps the most recently used\<close>

lemma select_lawD:
  assumes "select_law E" and "n < length xs"
  shows "mset (ext_select E n key xs) = mset xs"
    and "i < n \<Longrightarrow> key (ext_select E n key xs ! i) \<le> key (ext_select E n key xs ! n)"
    and "n < i \<Longrightarrow> i < length xs \<Longrightarrow>
           key (ext_select E n key xs ! n) \<le> key (ext_select E n key xs ! i)"
  using assms unfolding select_law_def by blast+

lemma select_split:
  fixes key :: "nat \<Rightarrow> u64"
  assumes law: "select_law E" and d: "0 < d" "d \<le> length xs" and dist: "distinct xs"
  defines "ys \<equiv> ext_select E (d - 1) key xs"
  shows "set (take d ys) \<subseteq> set xs" and "card (set (take d ys)) = d"
    and "\<And>x y. x \<in> set (take d ys) \<Longrightarrow> y \<in> set xs - set (take d ys) \<Longrightarrow> key x \<le> key y"
proof -
  have n: "d - 1 < length xs" using d by auto
  note law' = select_lawD [OF law n, where key = key, folded ys_def]
  have len: "length ys = length xs" using arg_cong [OF law'(1), of size] by simp
  have sets: "set ys = set xs" using arg_cong [OF law'(1), of set_mset] by simp
  have "distinct ys" using dist mset_eq_imp_distinct_iff [OF law'(1)] by blast
  then show "set (take d ys) \<subseteq> set xs" and "card (set (take d ys)) = d"
    using sets len d(2) set_take_subset [of d ys] by (auto simp: distinct_card)
  fix x y assume "x \<in> set (take d ys)" and y: "y \<in> set xs - set (take d ys)"
  then obtain i where i: "x = ys ! i" "i < d" by (auto simp: in_set_conv_nth)
  from y sets have "y \<in> set (drop d ys)" by (metis DiffE Un_iff append_take_drop_id set_append)
  then obtain j where j: "y = ys ! j" "d \<le> j" "j < length xs"
    using len by (auto simp: in_set_conv_nth)
  have "key x \<le> key (ys ! (d - 1))" using law'(2) [of i] i by (cases "i = d - 1") auto
  also have "\<dots> \<le> key y" using law'(3) [of j] j d by auto
  finally show "key x \<le> key y" .
qed

lemma bucket_trim_to_inv: "bucket_inv b \<Longrightarrow> bucket_inv (bucket_trim_to E b keep)"
  by (simp add: bucket_trim_to_def Let_def bucket_remove_all_inv)

lemma length_nths_compl:
  assumes "D \<subseteq> {..<length xs}"
  shows "length (nths xs (- D)) = length xs - card D"
proof -
  have "{i. i < length xs \<and> i \<in> - D} = {..<length xs} - D" by auto
  then show ?thesis using assms by (simp add: length_nths card_Diff_subset finite_subset)
qed

lemma bucket_trim_to_spec:
  assumes "select_law E" and over: "keep < bucket_len b"
  obtains D where "D \<subseteq> {..<bucket_len b}" and "card D = bucket_len b - keep"
    and "bk_entries (bucket_trim_to E b keep) = nths (bk_entries b) (- D)"
    and "\<And>i j. i \<in> D \<Longrightarrow> j < bucket_len b \<Longrightarrow> j \<notin> D \<Longrightarrow>
           en_last_access_seq (bk_entries b ! i) \<le> en_last_access_seq (bk_entries b ! j)"
proof -
  let ?n = "length (bk_entries b)" and ?key = "\<lambda>p. en_last_access_seq (bk_entries b ! p)"
  let ?d = "?n - keep"
  have d: "0 < ?d" "?d \<le> length [0..<?n]" using over by (auto simp: bucket_len_def)
  let ?D = "set (take ?d (ext_select E (?d - 1) ?key [0..<?n]))"
  note spec = select_split [OF assms(1) d distinct_upt, where key = ?key]
  have eq: "bk_entries (bucket_trim_to E b keep) = nths (bk_entries b) (- ?D)"
    using over by (simp add: bucket_trim_to_def bucket_len_def Let_def bucket_remove_all_entries)
  show ?thesis
    using spec eq by (intro that [of ?D]) (auto simp: bucket_len_def atLeast0LessThan)
qed

lemma bucket_trim_to_len:
  assumes "select_law E"
  shows "bucket_len (bucket_trim_to E b keep) = min keep (bucket_len b)"
proof (cases "keep < bucket_len b")
  case True
  with assms obtain D where D: "D \<subseteq> {..<bucket_len b}" "card D = bucket_len b - keep"
    "bk_entries (bucket_trim_to E b keep) = nths (bk_entries b) (- D)"
    by (rule bucket_trim_to_spec)
  with True length_nths_compl [of D "bk_entries b"] show ?thesis by (simp add: bucket_len_def)
qed (simp add: bucket_trim_to_def bucket_len_def)

section \<open>The contract of a bucket\<close>

text \<open>What the jar relies on: positions found by key are valid for \<open>get\<close>, \<open>replace\<close> and \<open>remove\<close>, and
  each of the three, like \<open>push\<close>, acts on the abstract map. The lemmas are the three ways the jar
  combines them: delete if present, replace in place or append, and remove then append.\<close>

locale keyed_slots =
  fixes slots_ok :: "'b \<Rightarrow> bool"
    and slots :: "'b \<Rightarrow> 'k \<rightharpoonup> 'e"
    and key :: "'e \<Rightarrow> 'k"
    and find :: "'b \<Rightarrow> 'k \<Rightarrow> nat option"
    and get :: "'b \<Rightarrow> nat \<Rightarrow> 'e option"
    and push :: "'b \<Rightarrow> 'e \<Rightarrow> 'b"
    and replace :: "'b \<Rightarrow> nat \<Rightarrow> 'e \<Rightarrow> 'b option"
    and remove :: "'b \<Rightarrow> nat \<Rightarrow> 'b option"
  assumes find_None: "slots_ok b \<Longrightarrow> find b k = None \<Longrightarrow> slots b k = None"
    and find_get: "slots_ok b \<Longrightarrow> find b k = Some p \<Longrightarrow> get b p = slots b k \<and> slots b k \<noteq> None"
    and push_ok: "slots_ok b \<Longrightarrow> find b (key e) = None \<Longrightarrow>
      slots_ok (push b e) \<and> slots (push b e) = (slots b)(key e \<mapsto> e)"
    and replace_ok: "slots_ok b \<Longrightarrow> find b (key e) = Some p \<Longrightarrow>
      \<exists>b'. replace b p e = Some b' \<and> slots_ok b' \<and> slots b' = (slots b)(key e \<mapsto> e)"
    and remove_ok: "slots_ok b \<Longrightarrow> find b k = Some p \<Longrightarrow>
      \<exists>b'. remove b p = Some b' \<and> slots_ok b' \<and> slots b' = (slots b)(k := None)"
begin

lemma lookup: "slots_ok b \<Longrightarrow> Option.bind (find b k) (get b) = slots b k"
  by (cases "find b k") (auto simp: find_get find_None)

lemma found_iff: "slots_ok b \<Longrightarrow> find b k = None \<longleftrightarrow> slots b k = None"
  using find_None find_get by (cases "find b k") fastforce+

lemma delete:
  assumes "slots_ok b"
  shows "\<exists>b'. (case find b k of Some p \<Rightarrow> remove b p | None \<Rightarrow> Some b) = Some b'
    \<and> slots_ok b' \<and> slots b' = (slots b)(k := None)"
proof (cases "find b k")
  case None
  then have "slots b = (slots b)(k := None)" using find_None [OF assms] by (simp add: fun_upd_idem)
  with None assms show ?thesis by simp
qed (use remove_ok [OF assms] in auto)

lemma put:
  assumes "slots_ok b"
  shows "\<exists>b'. (case find b (key e) of Some p \<Rightarrow> replace b p e | None \<Rightarrow> Some (push b e)) = Some b'
    \<and> slots_ok b' \<and> slots b' = (slots b)(key e \<mapsto> e)"
  using replace_ok [OF assms] push_ok [OF assms] by (cases "find b (key e)") auto

lemma supersede:
  assumes "slots_ok b"
  shows "\<exists>b'. map_option (\<lambda>b1. push b1 e)
      (case find b (key e) of Some p \<Rightarrow> remove b p | None \<Rightarrow> Some b) = Some b'
    \<and> slots_ok b' \<and> slots b' = (slots b)(key e \<mapsto> e)"
proof -
  obtain b1 where b1: "(case find b (key e) of Some p \<Rightarrow> remove b p | None \<Rightarrow> Some b) = Some b1"
    "slots_ok b1" "slots b1 = (slots b)(key e := None)"
    using delete [OF assms, of "key e"] by blast
  then have "find b1 (key e) = None" using found_iff by simp
  from push_ok [OF b1(2) this] b1 show ?thesis by simp
qed

end

interpretation bk: keyed_slots bucket_inv bucket_abs entry_id bucket_position_of bucket_get
  bucket_push bucket_replace bucket_remove
proof (unfold_locales, goal_cases)
  case (1 b k)
  then show ?case by (simp add: bucket_abs_index bucket_position_of_def)
next
  case (2 b k p)
  then show ?case using bucket_position_Some by simp
next
  case (3 b e)
  then show ?case using bucket_push_inv bucket_push_abs by blast
next
  case (4 b e p)
  then show ?case using bucket_replace_ok by blast
next
  case (5 b k p)
  note f = bucket_position_Some [OF 5]
  from f(1) show ?case by (rule bucket_remove_ok [OF 5(1)]) (use f(2) in auto)
qed

section \<open>Applying one Set-Cookie\<close>

record counters =
  next_creation_seq :: u64
  next_access_seq :: u64

definition apply_set_cookie ::
  "bucket \<Rightarrow> cookie \<Rightarrow> system_time \<Rightarrow> bool \<Rightarrow> counters \<Rightarrow> (bucket \<times> counters) option" where
  "apply_set_cookie b c now request_is_secure cs =
     (let existing = bucket_position_of b (identity_of c)
      in if (case existing of
               Some p \<Rightarrow>
                 (case bucket_get b p of Some e \<Rightarrow> ck_secure (en_cookie e) | None \<Rightarrow> False)
                 \<and> \<not> request_is_secure
             | None \<Rightarrow> False)
         then Some (b, cs)
         else if is_expired c now then
           (case existing of
              Some p \<Rightarrow> do { b' \<leftarrow> bucket_remove b p; Some (b', cs) }
            | None \<Rightarrow> Some (b, cs))
         else
           (case existing of
              Some p \<Rightarrow>
                (let creation_seq =
                       (case bucket_get b p of Some e \<Rightarrow> en_creation_seq e | None \<Rightarrow> 0)
                 in do {
                      b' \<leftarrow> bucket_replace b p
                             \<lparr>en_cookie = c, en_creation_seq = creation_seq,
                              en_last_access_seq = next_access_seq cs\<rparr>;
                      Some (b', cs\<lparr>next_access_seq := next_access_seq cs + 1\<rparr>)
                    })
            | None \<Rightarrow>
                Some (bucket_push b
                        \<lparr>en_cookie = c, en_creation_seq = next_creation_seq cs,
                         en_last_access_seq = next_access_seq cs\<rparr>,
                      \<lparr>next_creation_seq = next_creation_seq cs + 1,
                       next_access_seq = next_access_seq cs + 1\<rparr>)))"

text \<open>The same on the abstract map: RFC 6265 section 5.3 with \<open>Leave Secure Cookies Alone\<close>.\<close>

definition set_cookie_spec ::
  "(identity \<rightharpoonup> entry) \<Rightarrow> cookie \<Rightarrow> system_time \<Rightarrow> bool \<Rightarrow> counters \<Rightarrow> (identity \<rightharpoonup> entry) \<times> counters"
where
  "set_cookie_spec M c now request_is_secure cs =
     (let k = identity_of c;
          e = \<lparr>en_cookie = c,
               en_creation_seq =
                 (case M k of Some old \<Rightarrow> en_creation_seq old | None \<Rightarrow> next_creation_seq cs),
               en_last_access_seq = next_access_seq cs\<rparr>
      in if (case M k of Some old \<Rightarrow> ck_secure (en_cookie old) \<and> \<not> request_is_secure | None \<Rightarrow> False)
         then (M, cs)
         else if is_expired c now then (M(k := None), cs)
         else (M(k \<mapsto> e),
               \<lparr>next_creation_seq =
                  (if M k = None then next_creation_seq cs + 1 else next_creation_seq cs),
                next_access_seq = next_access_seq cs + 1\<rparr>))"

lemma apply_set_cookie_refines:
  assumes inv: "bucket_inv b"
  shows "\<exists>b' cs'. apply_set_cookie b c now sec cs = Some (b', cs') \<and> bucket_inv b'
    \<and> (bucket_abs b', cs') = set_cookie_spec (bucket_abs b) c now sec cs"
proof (cases "bucket_position_of b (identity_of c)")
  case None
  let ?e = "\<lparr>en_cookie = c, en_creation_seq = next_creation_seq cs,
              en_last_access_seq = next_access_seq cs\<rparr>"
  have "bucket_abs b (identity_of c) = None" by (rule bk.find_None [OF inv None])
  then show ?thesis
    using None inv bk.push_ok [OF inv, of ?e]
    by (auto simp: apply_set_cookie_def set_cookie_spec_def Let_def fun_upd_idem)
next
  case (Some p)
  then obtain old where old: "bucket_get b p = Some old" "bucket_abs b (identity_of c) = Some old"
    using bk.find_get [OF inv Some] by auto
  let ?e = "\<lparr>en_cookie = c, en_creation_seq = en_creation_seq old,
              en_last_access_seq = next_access_seq cs\<rparr>"
  show ?thesis
    using Some old inv bk.replace_ok [OF inv, of ?e p] bk.remove_ok [OF inv Some]
    by (auto simp: apply_set_cookie_def set_cookie_spec_def Let_def)
qed

section \<open>Properties\<close>

definition sample_cookie :: "string \<Rightarrow> bool \<Rightarrow> system_time option \<Rightarrow> cookie" where
  "sample_cookie name secure expires =
     \<lparr>ck_name = name, ck_value = ''v'', ck_domain = ''example.com'', ck_host_only = True,
      ck_path = ''/'', ck_secure = secure, ck_http_only = False, ck_same_site = Lax,
      ck_partitioned = False, ck_expires = expires\<rparr>"

definition sample_entry :: "string \<Rightarrow> system_time option \<Rightarrow> u64 \<Rightarrow> entry" where
  "sample_entry name expires seq =
     \<lparr>en_cookie = sample_cookie name True expires, en_creation_seq = seq, en_last_access_seq = seq\<rparr>"

lemma sample_bucket_inv: "bucket_inv (reindex [sample_entry ''a'' (Some 0) 7, sample_entry ''b'' None 3])"
proof (rule reindex_inv)
  show "distinct (map entry_id [sample_entry ''a'' (Some 0) 7, sample_entry ''b'' None 3])" by code_simp
qed

text \<open>C9: Applying one \<open>Set-Cookie\<close> to a bucket never panics and is exactly the update RFC 6265 describes
  on the map from identities to cookies: an insecure response leaves a \<open>Secure\<close> cookie alone, an
  expired cookie deletes, a known identity is replaced and keeps its creation order, a new one is
  appended with the next sequence number. The index of the bucket stays exact.\<close>
theorem set_cookie_is_map_update:
  assumes "bucket_inv b"
  shows "\<exists>b' cs'. apply_set_cookie b c now request_is_secure cs = Some (b', cs') \<and> bucket_inv b'
    \<and> (bucket_abs b', cs') = set_cookie_spec (bucket_abs b) c now request_is_secure cs"
  using assms by (rule apply_set_cookie_refines)

theorem set_cookie_is_map_update_witness:
  "\<exists>b' cs'. apply_set_cookie (reindex [sample_entry ''a'' (Some 0) 7, sample_entry ''b'' None 3])
       (sample_cookie ''b'' False None) 5 True \<lparr>next_creation_seq = 9, next_access_seq = 9\<rparr> = Some (b', cs')
     \<and> bucket_inv b' \<and> next_access_seq cs' = 10"
proof -
  let ?c = "sample_cookie ''b'' False None" and ?cs = "\<lparr>next_creation_seq = 9, next_access_seq = 9\<rparr>"
  obtain b' cs' where
    r: "apply_set_cookie (reindex [sample_entry ''a'' (Some 0) 7, sample_entry ''b'' None 3]) ?c 5 True ?cs
      = Some (b', cs')" "bucket_inv b'"
    using set_cookie_is_map_update [OF sample_bucket_inv, of ?c 5 True ?cs] by blast
  have "map_option (\<lambda>(b, cs). next_access_seq cs)
     (apply_set_cookie (reindex [sample_entry ''a'' (Some 0) 7, sample_entry ''b'' None 3]) ?c 5 True ?cs)
     = Some 10" by code_simp
  with r show ?thesis by auto
qed

text \<open>C25: Trimming a bucket keeps exactly the requested number of entries and drops the least recently
  used ones: no dropped entry was accessed after a kept one. It holds for every selection routine that
  meets the documented contract of \<open>select_nth_unstable_by_key\<close>.\<close>
theorem trim_keeps_most_recent:
  assumes "select_law E" and "keep < bucket_len b"
  shows "\<exists>D. D \<subseteq> {..<bucket_len b} \<and> bk_entries (bucket_trim_to E b keep) = nths (bk_entries b) (- D)
    \<and> bucket_len (bucket_trim_to E b keep) = keep
    \<and> (\<forall>i j. i \<in> D \<and> j < bucket_len b \<and> j \<notin> D \<longrightarrow>
         en_last_access_seq (bk_entries b ! i) \<le> en_last_access_seq (bk_entries b ! j))"
proof -
  obtain D where "D \<subseteq> {..<bucket_len b}" "card D = bucket_len b - keep"
    and "bk_entries (bucket_trim_to E b keep) = nths (bk_entries b) (- D)"
    and "\<And>i j. i \<in> D \<Longrightarrow> j < bucket_len b \<Longrightarrow> j \<notin> D \<Longrightarrow>
           en_last_access_seq (bk_entries b ! i) \<le> en_last_access_seq (bk_entries b ! j)"
    using bucket_trim_to_spec [OF assms] by blast
  then show ?thesis using bucket_trim_to_len [OF assms(1), of b keep] assms(2) by auto
qed

lemma sort_key_nth_mono:
  "i \<le> k \<Longrightarrow> k < length xs \<Longrightarrow> f (sort_key f xs ! i) \<le> f (sort_key f xs ! k)"
  using sorted_nth_mono [OF sorted_sort_key, of i k f xs] by simp

lemma sample_select_law: "select_law sample_externals"
  by (auto simp: select_law_def sample_externals_def sort_key_nth_mono)

lemmas sample_laws = sample_header_laws sample_select_law

theorem trim_keeps_most_recent_witness:
  "(\<exists>D. bk_entries (bucket_trim_to sample_externals
        (reindex [sample_entry ''a'' None 7, sample_entry ''b'' None 3]) 1)
      = nths [sample_entry ''a'' None 7, sample_entry ''b'' None 3] (- D))
   \<and> map (ck_name \<circ> en_cookie) (bk_entries (bucket_trim_to sample_externals
        (reindex [sample_entry ''a'' None 7, sample_entry ''b'' None 3]) 1)) = [''a'']"
proof -
  let ?b = "reindex [sample_entry ''a'' None 7, sample_entry ''b'' None 3]"
  have "1 < bucket_len ?b" by (simp add: bucket_len_def)
  from trim_keeps_most_recent [OF sample_select_law this]
  have "\<exists>D. bk_entries (bucket_trim_to sample_externals ?b 1) = nths (bk_entries ?b) (- D)" by blast
  moreover have "map (ck_name \<circ> en_cookie) (bk_entries (bucket_trim_to sample_externals ?b 1)) = [''a'']"
    by code_simp
  ultimately show ?thesis by simp
qed

end
