(* ===== verification/Lru.thy ===== *)
theory Lru
  imports Rust_Std
begin

text \<open>
  The bounded stores of the client stamp an entry with the next value of a 64-bit counter whenever it is used,
  and evict the entries whose stamp is least. Sorted by stamp, such a map is the list of its entries from the
  least to the most recently used. This theory proves once what stamping, removing and evicting do to that
  list, what the bounded heap of an eviction pass selects, and states the interface of a least-recently-used store as the locale \<open>lru_store\<close>, which the
  client-hint store and the validator store interpret.
\<close>

section \<open>The reference: a list from least to most recently used\<close>

definition lru_put :: "'k \<Rightarrow> 'v \<Rightarrow> ('k \<times> 'v) list \<Rightarrow> ('k \<times> 'v) list" where
  "lru_put k v xs = AList.delete k xs @ [(k, v)]"

definition lru_use :: "'k \<Rightarrow> ('k \<times> 'v) list \<Rightarrow> ('k \<times> 'v) list" where
  "lru_use k xs = (case map_of xs k of None \<Rightarrow> xs | Some v \<Rightarrow> lru_put k v xs)"

text \<open>A purge runs when the store is above its capacity and leaves its target.\<close>

definition lru_purge :: "nat \<Rightarrow> nat \<Rightarrow> ('k \<times> 'v) list \<Rightarrow> ('k \<times> 'v) list" where
  "lru_purge cap target xs = (if length xs \<le> cap then xs else drop (length xs - target) xs)"

lemma delete_absent: "k \<notin> fst ` set xs \<Longrightarrow> AList.delete k xs = xs"
  by (simp add: delete_id)

lemma map_of_lru_put: "map_of (lru_put k v xs) = (map_of xs)(k \<mapsto> v)"
proof
  fix m
  show "map_of (lru_put k v xs) m = ((map_of xs)(k \<mapsto> v)) m"
    by (cases "map_of (AList.delete k xs) m") (auto simp: lru_put_def map_add_def delete_conv' split: option.splits)
qed

section \<open>Stamps\<close>

definition stamped :: "('v \<Rightarrow> u64) \<Rightarrow> ('k \<times> 'v) list \<Rightarrow> u64 \<Rightarrow> bool" where
  "stamped f xs now \<longleftrightarrow> distinct (map fst xs) \<and> inj_on (\<lambda>e. f (snd e)) (set xs) \<and> (\<forall>e \<in> set xs. f (snd e) < now)"

definition by_use :: "('v \<Rightarrow> u64) \<Rightarrow> ('k \<times> 'v) list \<Rightarrow> ('k \<times> 'v) list" where
  "by_use f xs = sort_key (\<lambda>e. f (snd e)) xs"

lemma by_use_length [simp]: "length (by_use f xs) = length xs"
  by (simp add: by_use_def)

lemma by_use_set [simp]: "set (by_use f xs) = set xs"
  by (simp add: by_use_def)

lemma by_use_mset [simp]: "mset (by_use f xs) = mset xs"
  by (simp add: by_use_def)

lemma by_use_eqI:
  assumes "mset xs = mset ys" and "inj_on (\<lambda>e. f (snd e)) (set xs)" and "sorted (map (\<lambda>e. f (snd e)) ys)"
  shows "by_use f xs = ys"
  unfolding by_use_def using assms by (rule sort_key_inj_key_eq)

lemma by_use_sorted: "sorted (map (\<lambda>e. f (snd e)) (by_use f xs))"
  by (simp add: by_use_def)

lemma by_use_delete: "by_use f (AList.delete k xs) = AList.delete k (by_use f xs)"
  by (simp add: by_use_def AList.delete_eq filter_sort)

lemma distinct_by_use: "distinct (map fst xs) \<Longrightarrow> distinct (map fst (by_use f xs))"
  by (metis by_use_def mset_map mset_sort mset_eq_imp_distinct_iff)

lemma map_of_by_use: "distinct (map fst xs) \<Longrightarrow> map_of (by_use f xs) = map_of xs"
  by (simp add: distinct_by_use map_of_inject_set)

lemma mset_update_delete:
  "distinct (map fst xs) \<Longrightarrow> mset (AList.update k v xs) = add_mset (k, v) (mset (AList.delete k xs))"
proof (induction xs)
  case (Cons x xs)
  obtain m w where x: "x = (m, w)" by (cases x)
  show ?case
  proof (cases "m = k")
    case True
    with Cons.prems x have "AList.delete k xs = xs" by (intro delete_absent) simp
    with True x show ?thesis by simp
  next
    case False
    with Cons x show ?thesis by simp
  qed
qed simp

lemma stamped_touch:
  assumes "stamped f xs now" and "f v = now" and "now < now + 1"
  shows "stamped f (AList.update k v xs) (now + 1)"
    and "by_use f (AList.update k v xs) = lru_put k v (by_use f xs)"
proof -
  have d: "distinct (map fst xs)" and inj: "inj_on (\<lambda>e. f (snd e)) (set xs)"
    and lt: "\<And>e. e \<in> set xs \<Longrightarrow> f (snd e) < now" using assms(1) by (auto simp: stamped_def)
  have set_eq: "set (AList.update k v xs) = insert (k, v) {e \<in> set xs. fst e \<noteq> k}"
    using arg_cong [OF mset_update_delete [OF d, of k v], of set_mset] by (simp add: set_delete)
  have inj': "inj_on (\<lambda>e. f (snd e)) (set (AList.update k v xs))"
    unfolding set_eq
  proof (subst inj_on_insert, intro conjI)
    show "inj_on (\<lambda>e. f (snd e)) {e \<in> set xs. fst e \<noteq> k}" by (rule inj_on_subset [OF inj]) auto
    have "f (snd e) \<noteq> f v" if "e \<in> set xs" for e using lt [OF that] assms(2) by auto
    then show "f (snd (k, v)) \<notin> (\<lambda>e. f (snd e)) ` ({e \<in> set xs. fst e \<noteq> k} - {(k, v)})" by force
  qed
  have "f (snd e) < now + 1" if "e \<in> set (AList.update k v xs)" for e
    using that lt [of e] assms(2, 3) unfolding set_eq by (auto intro: less_trans)
  with inj' d show "stamped f (AList.update k v xs) (now + 1)" by (simp add: stamped_def distinct_update)
  show "by_use f (AList.update k v xs) = lru_put k v (by_use f xs)"
  proof (rule by_use_eqI [OF _ inj'])
    show "mset (AList.update k v xs) = mset (lru_put k v (by_use f xs))"
      by (simp add: mset_update_delete [OF d] lru_put_def by_use_delete [symmetric])
    show "sorted (map (\<lambda>e. f (snd e)) (lru_put k v (by_use f xs)))"
      using lt assms(2) by_use_sorted [of f "AList.delete k xs"]
      by (auto simp: lru_put_def sorted_append by_use_delete [symmetric] set_delete intro: less_imp_le)
  qed
qed

lemma stamped_subset:
  assumes "stamped f xs now" and "set ys \<subseteq> set xs" and "distinct (map fst ys)"
  shows "stamped f ys now"
  using assms by (auto simp: stamped_def intro: inj_on_subset)

lemma by_use_drop_least:
  assumes "stamped f xs now"
  shows "by_use f (drop_least f cap xs) = drop (length xs - cap) (by_use f xs)"
proof -
  have "inj_on (\<lambda>e. f (snd e)) (set xs) \<longrightarrow> by_use f (drop_least f cap xs) = drop (length xs - cap) (by_use f xs)"
  proof (rule drop_least_induct [where P = "\<lambda>xs ys. inj_on (\<lambda>e. f (snd e)) (set xs) \<longrightarrow>
        by_use f ys = drop (length xs - cap) (by_use f xs)"])
    fix xs :: "('b \<times> 'a) list" and k v ys
    assume xs: "cap < length xs" "distinct (map fst xs)" "(k, v) \<in> set xs" "\<forall>x \<in> set xs. f v \<le> f (snd x)"
      and IH: "inj_on (\<lambda>e. f (snd e)) (set (AList.delete k xs)) \<longrightarrow>
        by_use f ys = drop (length (AList.delete k xs) - cap) (by_use f (AList.delete k xs))"
    have len: "length (AList.delete k xs) = length xs - 1" using xs by (intro length_delete_mem) force+
    have first: "by_use f xs = (k, v) # by_use f (AList.delete k xs)" if "inj_on (\<lambda>e. f (snd e)) (set xs)"
    proof (rule by_use_eqI [OF _ that])
      have "AList.update k v xs = xs" using xs(2, 3) by (simp add: update_triv)
      then show "mset xs = mset ((k, v) # by_use f (AList.delete k xs))"
        using mset_update_delete [OF xs(2), of k v] by simp
      show "sorted (map (\<lambda>e. f (snd e)) ((k, v) # by_use f (AList.delete k xs)))"
        using xs(4) by_use_sorted [of f "AList.delete k xs"] by (auto simp: set_delete)
    qed
    show "inj_on (\<lambda>e. f (snd e)) (set xs) \<longrightarrow> by_use f ys = drop (length xs - cap) (by_use f xs)"
    proof
      assume inj: "inj_on (\<lambda>e. f (snd e)) (set xs)"
      then have "inj_on (\<lambda>e. f (snd e)) (set (AList.delete k xs))" by (rule inj_on_subset) (auto simp: set_delete)
      moreover have "length xs - cap = Suc (length xs - 1 - cap)" using xs(1) by simp
      ultimately show "by_use f ys = drop (length xs - cap) (by_use f xs)"
        using IH by (simp add: first [OF inj] len)
    qed
  qed (use assms in \<open>simp_all add: stamped_def\<close>)
  with assms show ?thesis by (simp add: stamped_def)
qed

section \<open>The eviction heap\<close>

text \<open>The pass that selects what to evict keeps the worst candidates seen so far in a binary heap of bounded
  size: one step of its loop, with the heap as the sorted list of its elements.\<close>

definition heap_step :: "nat \<Rightarrow> ('a::linorder) \<Rightarrow> 'a list \<Rightarrow> 'a list" where
  "heap_step doomed_count candidate worst =
     (if length worst < doomed_count then insort candidate worst
      else if worst \<noteq> [] \<and> candidate < last worst then insort candidate (butlast worst)
      else worst)"

lemma take_insort_less:
  "sorted ys \<Longrightarrow> n < length ys \<Longrightarrow> x < ys ! n \<Longrightarrow> take (Suc n) (insort x ys) = insort x (take n ys)"
proof (induction ys arbitrary: n)
  case (Cons y ys)
  then show ?case by (cases n) auto
qed simp

lemma take_insort_ge:
  "sorted ys \<Longrightarrow> n < length ys \<Longrightarrow> ys ! n \<le> x \<Longrightarrow> take (Suc n) (insort x ys) = take (Suc n) ys"
proof (induction ys arbitrary: n)
  case (Cons y ys)
  show ?case
  proof (cases n)
    case 0
    with Cons.prems show ?thesis by auto
  next
    case (Suc m)
    with Cons have IH: "take (Suc m) (insort x ys) = take (Suc m) ys" by simp
    have "y \<le> ys ! m" using Cons.prems Suc by auto
    moreover have "ys ! m \<le> x" using Cons.prems(3) Suc by simp
    ultimately have "y \<le> x" by (rule order_trans)
    then have "x \<le> y \<Longrightarrow> x = y" by simp
    moreover have "insort y ys = y # ys" using Cons.prems by (cases ys) auto
    ultimately show ?thesis using IH Suc by auto
  qed
qed simp

lemma heap_step_take:
  assumes "sorted ys"
  shows "heap_step d x (take d ys) = take d (insort x ys)"
proof (cases "length ys < d")
  case True
  then show ?thesis by (simp add: heap_step_def)
next
  case False
  show ?thesis
  proof (cases d)
    case (Suc n)
    then have n: "n < length ys" and last: "last (take d ys) = ys ! n" and ne: "take d ys \<noteq> []"
      using False by (auto simp: take_Suc_conv_app_nth)
    have bl: "butlast (take d ys) = take n ys" using Suc n by (simp add: butlast_take)
    show ?thesis
      using Suc n ne take_insort_less [OF assms n, of x] take_insort_ge [OF assms n, of x]
      unfolding heap_step_def last bl by (cases "x < ys ! n") auto
  qed (simp add: heap_step_def)
qed

lemma fold_heap_step: "fold (heap_step d) xs [] = take d (sort xs)"
proof -
  have "fold (heap_step d) xs (take d ys) = take d (fold insort xs ys)" if "sorted ys" for ys
    using that by (induction xs arbitrary: ys) (simp_all add: heap_step_take sorted_insort)
  from this [of "[]"] show ?thesis by (simp add: sort_conv_fold)
qed

lemma worst_are_smallest:
  assumes "x \<in> set (take d (sort xs))" and "y \<in> set xs" and "y \<notin> set (take d (sort xs))"
  shows "x \<le> y"
proof -
  have "y \<in> set (drop d (sort xs))"
    using assms(2,3) by (metis Un_iff append_take_drop_id set_append set_sort)
  moreover have "sorted (take d (sort xs) @ drop d (sort xs))" by simp
  ultimately show ?thesis using assms(1) unfolding sorted_append by blast
qed

section \<open>The interface of a least-recently-used store\<close>

text \<open>Three operations: \<open>put\<close> learns what a message says about a key, where \<open>val\<close> reads the message and
  \<^const>\<open>None\<close> forgets the key; \<open>touch\<close> looks the key up and marks it used; \<open>forget\<close> drops it.
  \<open>contents\<close> is the store as a list from least to most recently used, \<open>stamps\<close> the number of stamps left
  before the counter wraps.\<close>

datatype ('k, 'w) lru_op = Put 'k 'w | Touch 'k | Forget 'k

fun op_key :: "('k, 'w) lru_op \<Rightarrow> 'k" where
  "op_key (Put k w) = k"
| "op_key (Touch k) = k"
| "op_key (Forget k) = k"

fun lru_step :: "('w \<Rightarrow> 'v option) \<Rightarrow> nat \<Rightarrow> nat \<Rightarrow> ('k, 'w) lru_op \<Rightarrow> ('k \<times> 'v) list \<Rightarrow> ('k \<times> 'v) list" where
  "lru_step val cap target (Put k w) xs =
     (case val w of None \<Rightarrow> AList.delete k xs | Some v \<Rightarrow> lru_purge cap target (lru_put k v xs))"
| "lru_step val cap target (Touch k) xs = lru_use k xs"
| "lru_step val cap target (Forget k) xs = AList.delete k xs"

text \<open>A key is safe behind \<open>later\<close>: it holds \<open>v\<close> and every entry used after it is one of \<open>later\<close>.\<close>

definition safe :: "'k \<Rightarrow> 'v \<Rightarrow> 'k set \<Rightarrow> ('k \<times> 'v) list \<Rightarrow> bool" where
  "safe k v later xs \<longleftrightarrow> (\<exists>old new. xs = old @ (k, v) # new \<and> fst ` set new \<subseteq> later)"

lemma safe_delete: "safe k v later xs \<Longrightarrow> m \<noteq> k \<Longrightarrow> safe k v later (AList.delete m xs)"
  unfolding safe_def by (force simp: AList.delete_eq)

lemma safe_put: "safe k v later xs \<Longrightarrow> m \<noteq> k \<Longrightarrow> safe k v (insert m later) (lru_put m w xs)"
  unfolding safe_def lru_put_def by (fastforce simp: AList.delete_eq)

lemma safe_purge:
  assumes "safe k v later xs" and "distinct (map fst xs)" and "finite later" and "card later < t"
  shows "safe k v later (lru_purge c t xs)"
proof -
  obtain old new where xs: "xs = old @ (k, v) # new" and later: "fst ` set new \<subseteq> later"
    using assms(1) by (auto simp: safe_def)
  have "length new = card (fst ` set new)" using assms(2) by (simp add: xs card_image distinct_map distinct_card)
  also have "\<dots> \<le> card later" by (rule card_mono [OF assms(3) later])
  finally have "length xs - t \<le> length old" using assms(4) by (simp add: xs)
  then have "drop (length xs - t) xs = drop (length xs - t) old @ (k, v) # new" by (simp add: xs)
  with later assms(1) show ?thesis by (auto simp: lru_purge_def safe_def)
qed

lemma safe_step:
  assumes "safe k v later xs" and "distinct (map fst xs)" and "finite later" and "op_key p \<noteq> k"
    and "card (insert (op_key p) later) < t"
  shows "safe k v (insert (op_key p) later) (lru_step val c t p xs)"
proof -
  have more: "safe k v (insert m later) ys" if "safe k v later ys" for m ys
    using that unfolding safe_def by blast
  have d: "distinct (map fst (lru_put m w xs))" for m w
    using assms(2) by (auto simp: lru_put_def distinct_delete set_delete)
  show ?thesis
  proof (cases p)
    case (Put m w)
    then show ?thesis
      using assms safe_put [OF assms(1), of m] safe_purge [OF safe_put [OF assms(1), of m] d]
      by (auto intro: more safe_delete split: option.splits)
  next
    case (Touch m)
    then show ?thesis using assms safe_put [OF assms(1), of m] by (auto simp: lru_use_def intro: more split: option.splits)
  next
    case (Forget m)
    then show ?thesis using assms by (auto intro: more safe_delete)
  qed
qed

lemma lru_step_length:
  assumes "distinct (map fst xs)" and "length xs \<le> c" and "t \<le> c"
  shows "length (lru_step val c t p xs) \<le> c"
proof (cases p)
  case (Touch k)
  have "length (lru_put k v xs) = length xs" if "map_of xs k = Some v" for v
  proof -
    have "k \<in> fst ` set xs" using map_of_SomeD [OF that] by force
    then show ?thesis using length_delete_mem [OF assms(1)] by (cases xs) (auto simp: lru_put_def)
  qed
  with Touch assms(2) show ?thesis by (auto simp: lru_use_def split: option.splits)
qed (use assms(2, 3) length_delete_le [of _ xs] in \<open>auto simp: lru_purge_def intro: order_trans split: option.splits\<close>)

locale lru_store =
  fixes contents :: "'s \<Rightarrow> ('k \<times> 'v) list"
    and inv :: "'s \<Rightarrow> bool"
    and stamps :: "'s \<Rightarrow> nat"
    and cap :: "'s \<Rightarrow> nat"
    and target :: "'s \<Rightarrow> nat"
    and val :: "'w \<Rightarrow> 'v option"
    and run :: "('k, 'w) lru_op \<Rightarrow> 's \<Rightarrow> 's"
  assumes distinct: "inv s \<Longrightarrow> distinct (map fst (contents s))"
    and target: "inv s \<Longrightarrow> target s \<le> cap s"
    and step: "inv s \<Longrightarrow> 0 < stamps s \<Longrightarrow>
      inv (run p s) \<and> cap (run p s) = cap s \<and> target (run p s) = target s \<and> stamps s \<le> Suc (stamps (run p s))
      \<and> contents (run p s) = lru_step val (cap s) (target s) p (contents s)"
begin

text \<open>The working-set guarantee: an entry survives any operations on fewer other keys than the target.\<close>

lemma survives:
  assumes "inv s" and "safe k v {} (contents s)" and "\<forall>p \<in> set ps. op_key p \<noteq> k"
    and "card (op_key ` set ps) < target s" and "length ps \<le> stamps s"
  shows "map_of (contents (fold run ps s)) k = Some v"
proof -
  have "inv s \<Longrightarrow> safe k v later (contents s) \<Longrightarrow> finite later \<Longrightarrow> \<forall>p \<in> set ps. op_key p \<noteq> k
      \<Longrightarrow> card (op_key ` set ps \<union> later) < target s \<Longrightarrow> length ps \<le> stamps s
      \<Longrightarrow> inv (fold run ps s) \<and> (\<exists>later. safe k v later (contents (fold run ps s)))" for later
  proof (induction ps arbitrary: s later)
    case (Cons p ps)
    note st = step [OF Cons.prems(1), of p]
    have "card (insert (op_key p) later) \<le> card (op_key ` set (p # ps) \<union> later)"
      using Cons.prems(3) by (intro card_mono) auto
    then have "safe k v (insert (op_key p) later) (contents (run p s))"
      using st Cons.prems distinct by (auto intro!: safe_step)
    then show ?case using Cons.IH [of "run p s" "insert (op_key p) later"] st Cons.prems by simp
  qed auto
  from this [of "{}"] assms obtain later where i: "inv (fold run ps s)" and "safe k v later (contents (fold run ps s))"
    by auto
  then obtain old new where c: "contents (fold run ps s) = old @ (k, v) # new" by (auto simp: safe_def)
  show ?thesis using distinct [OF i] by (intro map_of_is_SomeI) (simp_all add: c)
qed

lemma runs:
  assumes "inv s" and "length ps \<le> stamps s"
  shows "inv (fold run ps s) \<and> cap (fold run ps s) = cap s \<and> target (fold run ps s) = target s
    \<and> stamps s \<le> length ps + stamps (fold run ps s)
    \<and> contents (fold run ps s) = fold (lru_step val (cap s) (target s)) ps (contents s)"
  using assms
proof (induction ps arbitrary: s)
  case (Cons p ps)
  have st: "inv (run p s) \<and> cap (run p s) = cap s \<and> target (run p s) = target s \<and> stamps s \<le> Suc (stamps (run p s))
      \<and> contents (run p s) = lru_step val (cap s) (target s) p (contents s)"
    using step [OF Cons.prems(1)] Cons.prems(2) by simp
  then show ?case using Cons.IH [of "run p s"] Cons.prems(2) by simp
qed simp

lemma bounded:
  assumes "inv s" and "length ps \<le> stamps s" and "length (contents s) \<le> cap s"
  shows "length (contents (fold run ps s)) \<le> cap s"
  using assms
proof (induction ps arbitrary: s)
  case (Cons p ps)
  have st: "inv (run p s)" "cap (run p s) = cap s" "stamps s \<le> Suc (stamps (run p s))"
      "contents (run p s) = lru_step val (cap s) (target s) p (contents s)"
    using step [OF Cons.prems(1), of p] Cons.prems(2) by auto
  have "length (contents (run p s)) \<le> cap s"
    unfolding st(4) using Cons.prems(3) target [OF Cons.prems(1)] distinct [OF Cons.prems(1)]
    by (intro lru_step_length)
  then show ?case using Cons.IH [of "run p s"] st Cons.prems(2) by simp
qed simp

text \<open>What was last put for a key is found again while fewer other keys than the target come by.\<close>

lemma remembered:
  assumes "inv s" and "length (pre @ Put k w # post) \<le> stamps s" and "val w = Some v"
    and "\<forall>p \<in> set post. op_key p \<noteq> k" and "card (op_key ` set post) < target s"
  shows "map_of (contents (fold run (pre @ Put k w # post) s)) k = Some v"
proof -
  let ?s = "fold run pre s"
  note pre = runs [OF assms(1), of pre]
  have p: "inv ?s" "0 < stamps ?s" using pre assms(2) by auto
  note st = step [OF p, of "Put k w"]
  have "safe k v {} (lru_put k v (contents ?s))" by (auto simp: safe_def lru_put_def)
  moreover have "distinct (map fst (lru_put k v (contents ?s)))"
    using distinct [OF p(1)] by (auto simp: lru_put_def distinct_delete set_delete)
  ultimately have "safe k v {} (contents (run (Put k w) ?s))"
    using st assms(3, 5) pre assms(2) by (simp add: safe_purge)
  then show ?thesis
    using survives [of "run (Put k w) ?s" k v post] st pre assms by simp
qed

end

end
