(* ===== verification/Site_Store.thy ===== *)
theory Site_Store
  imports Bucket Lru "HOL-Library.AList" "HOL-Library.Product_Lexorder" "HOL-Library.List_Lexorder"
    "HOL-Library.Char_ord"
begin

text \<open>
  Every cookie of the jar grouped by registrable domain: \<open>Store\<close> and the eviction pass of
  \<open>chromulate-cookie/src/jar.rs\<close>. The \<open>HashMap\<close> of buckets is an association list whose order stands
  for the map's iteration order; the binary heap of the eviction pass is the sorted list of its
  elements.
\<close>

section \<open>The store and its operations\<close>

record store =
  st_sites :: "(string \<times> bucket) list"
  st_total :: nat

definition store_default :: store where
  "store_default = \<lparr>st_sites = [], st_total = 0\<rparr>"

definition site_bucket :: "store \<Rightarrow> string \<Rightarrow> bucket" where
  "site_bucket s site = (case map_of (st_sites s) site of Some b \<Rightarrow> b | None \<Rightarrow> bucket_default)"

definition with_site ::
  "store \<Rightarrow> string \<Rightarrow> (bucket \<Rightarrow> (bucket \<times> 'r) option) \<Rightarrow> (store \<times> 'r) option" where
  "with_site s site change =
     (let bucket = site_bucket s site;
          before = bucket_len bucket
      in do {
           (bucket', outcome) \<leftarrow> change bucket;
           let after = bucket_len bucket';
           if st_total s < before then None
           else Some (\<lparr>st_sites = (if after = 0 then AList.delete site (st_sites s)
                                   else AList.update site bucket' (st_sites s)),
                       st_total = st_total s - before + after\<rparr>, outcome)
         })"

definition recount :: "(string \<times> bucket) list \<Rightarrow> store" where
  "recount sites = \<lparr>st_sites = sites, st_total = sum_list (map (bucket_len \<circ> snd) sites)\<rparr>"

definition tidy_every_site :: "externals \<Rightarrow> store \<Rightarrow> system_time \<Rightarrow> nat \<Rightarrow> store" where
  "tidy_every_site E s now per_domain =
     recount (filter (\<lambda>(site, b). \<not> bucket_is_empty b)
       (map (\<lambda>(site, b). (site, bucket_trim_to E (bucket_remove_expired b now) per_domain))
         (st_sites s)))"

type_synonym eviction_rank = "nat \<times> u64"

type_synonym candidate = "eviction_rank \<times> string \<times> nat"

definition rank_for_eviction :: "entry \<Rightarrow> system_time \<Rightarrow> eviction_rank" where
  "rank_for_eviction e now =
     (if is_expired (en_cookie e) now then 0 else 1, en_last_access_seq e)"

definition candidates :: "(string \<times> bucket) list \<Rightarrow> system_time \<Rightarrow> candidate list" where
  "candidates sites now =
     concat (map (\<lambda>(site, b). map (\<lambda>(p, e). (rank_for_eviction e now, site, p))
                                (enumerate 0 (bk_entries b))) sites)"

definition victims_by_site :: "candidate list \<Rightarrow> (string \<times> nat list) list" where
  "victims_by_site worst =
     fold (\<lambda>(r, site, p) v.
             AList.update site ((case map_of v site of Some ps \<Rightarrow> ps | None \<Rightarrow> []) @ [p]) v)
       worst []"

definition enforce_total :: "store \<Rightarrow> system_time \<Rightarrow> nat \<Rightarrow> nat \<Rightarrow> store option" where
  "enforce_total s now cap target =
     (if st_total s \<le> cap then Some s
      else if st_total s < target then None
      else (let doomed_count = st_total s - target;
                worst = fold (heap_step doomed_count) (candidates (st_sites s) now) []
            in for_each
                 (\<lambda>(site, positions) s.
                    map_option fst (with_site s site (\<lambda>b. Some (bucket_remove_all b positions, ()))))
                 (victims_by_site worst) s))"

section \<open>The invariant\<close>

definition bucket_ok :: "(string \<Rightarrow> entry \<Rightarrow> bool) \<Rightarrow> string \<Rightarrow> bucket \<Rightarrow> bool" where
  "bucket_ok P site b \<longleftrightarrow> bucket_inv b \<and> (\<forall>e \<in> set (bk_entries b). P site e)"

definition store_inv :: "(string \<Rightarrow> entry \<Rightarrow> bool) \<Rightarrow> store \<Rightarrow> bool" where
  "store_inv P s \<longleftrightarrow>
     distinct (map fst (st_sites s))
     \<and> (\<forall>(site, b) \<in> set (st_sites s). bucket_ok P site b \<and> 0 < bucket_len b)
     \<and> st_total s = sum_list (map (bucket_len \<circ> snd) (st_sites s))"

lemma bucket_default_ok: "bucket_ok P site bucket_default"
  by (simp add: bucket_ok_def bucket_default_inv) (simp add: bucket_default_def)

lemma store_default_inv: "store_inv P store_default"
  by (simp add: store_inv_def store_default_def)

lemma site_bucket_ok: "store_inv P s \<Longrightarrow> bucket_ok P site (site_bucket s site)"
  by (auto simp: site_bucket_def store_inv_def bucket_default_ok dest: map_of_SomeD split: option.splits)

text \<open>The total, site by site.\<close>

lemma bucket_empty_default:
  assumes "bucket_inv b" and "bucket_len b = 0"
  shows "b = bucket_default"
proof -
  have "bk_index b = Map.empty"
  proof
    fix k show "bk_index b k = None"
      using assms index_okD [of "bk_entries b" "bk_index b" k]
      by (cases "bk_index b k") (auto simp: bucket_inv_def bucket_len_def)
  qed
  with assms show ?thesis by (simp add: bucket_default_def bucket_len_def bucket.equality)
qed

lemma site_bucket_len: "bucket_len (site_bucket s site) =
    (case map_of (st_sites s) site of Some b \<Rightarrow> bucket_len b | None \<Rightarrow> 0)"
  by (simp add: site_bucket_def bucket_default_def bucket_len_def split: option.splits)

lemma with_site_ok:
  assumes inv: "store_inv P s"
    and change: "change (site_bucket s site) = Some (b', r)" and ok: "bucket_ok P site b'"
  shows "\<exists>s'. with_site s site change = Some (s', r) \<and> store_inv P s'
    \<and> site_bucket s' = (site_bucket s)(site := b')
    \<and> st_total s' + bucket_len (site_bucket s site) = st_total s + bucket_len b'"
proof -
  have dist: "distinct (map fst (st_sites s))"
    and tot: "st_total s = sum_list (map (bucket_len \<circ> snd) (st_sites s))"
    using inv by (auto simp: store_inv_def)
  note sum = sum_delete [OF dist, of bucket_len site, folded site_bucket_len tot]
  define sites' where "sites' = (if bucket_len b' = 0 then AList.delete site (st_sites s)
      else AList.update site b' (st_sites s))"
  define s' where "s' = \<lparr>st_sites = sites',
      st_total = st_total s - bucket_len (site_bucket s site) + bucket_len b'\<rparr>"
  have "with_site s site change = Some (s', r)"
    using change sum by (simp add: with_site_def Let_def s'_def sites'_def)
  moreover have "store_inv P s'"
    unfolding store_inv_def
  proof (intro conjI)
    show "distinct (map fst (st_sites s'))"
      using dist by (simp add: s'_def sites'_def distinct_update distinct_delete)
    show "\<forall>(k, b) \<in> set (st_sites s'). bucket_ok P k b \<and> 0 < bucket_len b"
      using inv ok dist
      by (auto simp: s'_def sites'_def store_inv_def AList.delete_eq dest!: update_memD split: if_splits)
    show "st_total s' = sum_list (map (bucket_len \<circ> snd) (st_sites s'))"
      using sum by (simp add: s'_def sites'_def sum_update [OF dist])
  qed
  moreover have "site_bucket s' = (site_bucket s)(site := b')"
    using ok bucket_empty_default [of b']
    by (auto simp: fun_eq_iff site_bucket_def s'_def sites'_def bucket_ok_def
        update_conv' delete_conv')
  ultimately show ?thesis using sum by (auto simp: s'_def)
qed

section \<open>Candidates and victims\<close>

lemma candidates_mem:
  assumes "distinct (map fst sites)"
  shows "(r, k, p) \<in> set (candidates sites now) \<longleftrightarrow>
    (\<exists>b. map_of sites k = Some b \<and> p < length (bk_entries b)
         \<and> r = rank_for_eviction (bk_entries b ! p) now)"
  using assms
  by (fastforce simp: candidates_def in_set_enumerate_eq map_of_eq_Some_iff split: prod.splits)

lemma length_candidates: "length (candidates sites now) = sum_list (map (bucket_len \<circ> snd) sites)"
  by (induction sites) (auto simp: candidates_def bucket_len_def)

lemma distinct_candidates:
  assumes "distinct (map fst sites)"
  shows "distinct (candidates sites now)"
  using assms
proof (induction sites)
  case (Cons x sites)
  obtain k b where x: "x = (k, b)" by force
  have "distinct (map (\<lambda>(p, e). (rank_for_eviction e now, k, p)) (enumerate 0 (bk_entries b)))"
    by (auto simp: distinct_map inj_on_def in_set_enumerate_eq)
  then show ?case using Cons x by (force simp: candidates_def)
qed (simp add: candidates_def)

definition site_victims :: "candidate list \<Rightarrow> string \<Rightarrow> nat list" where
  "site_victims worst site = map (\<lambda>(r, k, p). p) (filter (\<lambda>(r, k, p). k = site) worst)"

lemma victims_by_site_snoc:
  "victims_by_site (worst @ [(r, site, p)]) =
     AList.update site
       ((case map_of (victims_by_site worst) site of Some ps \<Rightarrow> ps | None \<Rightarrow> []) @ [p])
       (victims_by_site worst)"
  by (simp add: victims_by_site_def)

lemma victims_by_site_distinct: "distinct (map fst (victims_by_site worst))"
proof (induction worst rule: rev_induct)
  case (snoc c worst)
  then show ?case by (cases c) (simp add: victims_by_site_snoc distinct_update)
qed (simp add: victims_by_site_def)

lemma victims_by_site_lookup:
  "map_of (victims_by_site worst) site =
     (if site_victims worst site = [] then None else Some (site_victims worst site))"
proof (induction worst rule: rev_induct)
  case (snoc c worst)
  obtain r k p where c: "c = (r, k, p)" by (cases c)
  have "site_victims (worst @ [c]) site = site_victims worst site @ (if k = site then [p] else [])"
    by (simp add: site_victims_def c)
  with snoc show ?case by (cases "site = k") (auto simp: c victims_by_site_snoc update_conv')
qed (simp add: victims_by_site_def site_victims_def)

lemma victims_by_site_count: "sum_list (map (length \<circ> snd) (victims_by_site worst)) = length worst"
proof (induction worst rule: rev_induct)
  case (snoc c worst)
  obtain r k p where c: "c = (r, k, p)" by (cases c)
  note sum = sum_delete [OF victims_by_site_distinct [of worst], of length k]
  show ?case
    unfolding c victims_by_site_snoc sum_update [OF victims_by_site_distinct]
    using snoc sum by (simp del: map_map add: o_def split: option.splits)
qed (simp add: victims_by_site_def)

section \<open>What the eviction pass does\<close>

definition valid_slot :: "store \<Rightarrow> string \<times> nat \<Rightarrow> bool" where
  "valid_slot s kp \<longleftrightarrow> snd kp < bucket_len (site_bucket s (fst kp))"

definition slot_entry :: "store \<Rightarrow> string \<times> nat \<Rightarrow> entry" where
  "slot_entry s kp = bk_entries (site_bucket s (fst kp)) ! snd kp"

lemma site_bucket_Some: "map_of (st_sites s) k = Some b \<Longrightarrow> site_bucket s k = b"
  by (simp add: site_bucket_def)

lemma candidates_slots:
  assumes "store_inv P s"
  shows "(r, k, p) \<in> set (candidates (st_sites s) now) \<longleftrightarrow>
    valid_slot s (k, p) \<and> r = rank_for_eviction (slot_entry s (k, p)) now"
proof -
  have "distinct (map fst (st_sites s))" using assms by (simp add: store_inv_def)
  from candidates_mem [OF this] show ?thesis
    by (cases "map_of (st_sites s) k")
      (simp_all add: valid_slot_def slot_entry_def site_bucket_def bucket_len_def bucket_default_def)
qed

lemma remove_all_len:
  assumes "distinct ps" and "set ps \<subseteq> {..<bucket_len b}"
  shows "bucket_len (bucket_remove_all b ps) + length ps = bucket_len b"
proof -
  have "card (set ps) \<le> card {..<bucket_len b}" by (rule card_mono) (use assms in auto)
  then show ?thesis
    using length_nths_compl [of "set ps" "bk_entries b"] assms
    by (simp add: bucket_len_def bucket_remove_all_entries distinct_card)
qed

lemma remove_all_ok: "bucket_ok P k b \<Longrightarrow> bucket_ok P k (bucket_remove_all b ps)"
  by (auto simp: bucket_ok_def bucket_remove_all_inv bucket_remove_all_entries dest: in_set_nthsD)

text \<open>Removing a list of positions, site by site.\<close>

lemma remove_victims:
  assumes inv: "store_inv P s" and dist: "distinct (map fst victims)"
    and range: "\<And>k ps. (k, ps) \<in> set victims \<Longrightarrow>
      distinct ps \<and> set ps \<subseteq> {..<bucket_len (site_bucket s k)}"
  shows "\<exists>s'. for_each (\<lambda>(site, positions) s.
        map_option fst (with_site s site (\<lambda>b. Some (bucket_remove_all b positions, ())))) victims s
      = Some s'
    \<and> store_inv P s'
    \<and> (\<forall>k. site_bucket s' k = (case map_of victims k of
          Some ps \<Rightarrow> bucket_remove_all (site_bucket s k) ps | None \<Rightarrow> site_bucket s k))
    \<and> st_total s' + sum_list (map (length \<circ> snd) victims) = st_total s"
    (is "\<exists>s'. for_each ?f victims s = Some s' \<and> ?I victims s'")
proof (rule for_each_prefix)
  show "?I [] s" using inv by simp
next
  fix pre x post s1
  assume v: "victims = pre @ x # post" and I: "?I pre s1"
  obtain k ps where x: "x = (k, ps)" by force
  have fresh: "map_of pre k = None" using dist v x by (auto simp: map_of_eq_None_iff)
  then have same: "site_bucket s1 k = site_bucket s k" using I by simp
  have r: "distinct ps" "set ps \<subseteq> {..<bucket_len (site_bucket s k)}" using range v x by auto
  have ok: "bucket_ok P k (bucket_remove_all (site_bucket s1 k) ps)"
    using I by (intro remove_all_ok site_bucket_ok) simp
  obtain s2 where s2: "with_site s1 k (\<lambda>b. Some (bucket_remove_all b ps, ())) = Some (s2, ())"
    "store_inv P s2" "site_bucket s2 = (site_bucket s1)(k := bucket_remove_all (site_bucket s1 k) ps)"
    "st_total s2 + bucket_len (site_bucket s1 k)
       = st_total s1 + bucket_len (bucket_remove_all (site_bucket s1 k) ps)"
    using with_site_ok [where change = "\<lambda>b. Some (bucket_remove_all b ps, ())", OF _ _ ok] I by fastforce
  have "st_total s2 + length ps = st_total s1"
    using s2(4) remove_all_len [OF r] same by simp
  with s2 I same fresh x show "\<exists>s'. ?f x s1 = Some s' \<and> ?I (pre @ [x]) s'"
    by (intro exI [of _ s2]) (auto simp: map_add_def split: option.splits)
qed

definition slots_kept :: "store \<Rightarrow> (string \<times> nat) set \<Rightarrow> store \<Rightarrow> bool" where
  "slots_kept s V s' \<longleftrightarrow>
     (\<forall>k. bk_entries (site_bucket s' k)
           = nths (bk_entries (site_bucket s k)) (- {p. (k, p) \<in> V}))"

definition worst_candidates :: "store \<Rightarrow> system_time \<Rightarrow> nat \<Rightarrow> candidate list" where
  "worst_candidates s now d = take d (sort (candidates (st_sites s) now))"

definition victim_slots :: "candidate list \<Rightarrow> (string \<times> nat) set" where
  "victim_slots worst = snd ` set worst"

lemma worst_candidates_mem:
  assumes "store_inv P s" and "(r, kp) \<in> set (worst_candidates s now d)"
  shows "valid_slot s kp" and "r = rank_for_eviction (slot_entry s kp) now"
proof -
  have "(r, kp) \<in> set (candidates (st_sites s) now)"
    using assms(2) set_take_subset by (fastforce simp: worst_candidates_def)
  then show "valid_slot s kp" and "r = rank_for_eviction (slot_entry s kp) now"
    using candidates_slots [OF assms(1), of r "fst kp" "snd kp"] by simp_all
qed

lemma worst_candidates_distinct:
  assumes inv: "store_inv P s"
  shows "distinct (site_victims (worst_candidates s now d) k)"
proof -
  let ?w = "filter (\<lambda>(r, j, p). j = k) (worst_candidates s now d)"
  have dist: "distinct ?w"
    using inv distinct_candidates by (auto simp: worst_candidates_def store_inv_def)
  have "inj_on (\<lambda>(r, j, p). p) (set ?w)"
  proof (rule inj_onI)
    fix x y assume xy: "x \<in> set ?w" "y \<in> set ?w" "(\<lambda>(r, j, p). p) x = (\<lambda>(r, j, p). p) y"
    then have "snd x = snd y" by auto
    moreover have "fst z = rank_for_eviction (slot_entry s (snd z)) now" if "z \<in> set ?w" for z
      using worst_candidates_mem(2) [OF inv, where r = "fst z" and kp = "snd z" and now = now and d = d]
        that by simp
    ultimately show "x = y" using xy(1,2) by (metis prod.expand)
  qed
  with dist show ?thesis by (simp add: site_victims_def distinct_map)
qed

lemma site_victims_slots: "set (site_victims worst k) = {p. (k, p) \<in> victim_slots worst}"
  by (force simp: site_victims_def victim_slots_def)

lemma fst_le: "x \<le> y \<Longrightarrow> fst x \<le> fst (y :: ('a::linorder) \<times> ('b::linorder))"
  by (auto simp: less_eq_prod_def)

lemma worst_candidates_least:
  assumes inv: "store_inv P s" and "v \<in> victim_slots (worst_candidates s now d)"
    and w: "valid_slot s w" "w \<notin> victim_slots (worst_candidates s now d)"
  shows "rank_for_eviction (slot_entry s v) now \<le> rank_for_eviction (slot_entry s w) now"
proof -
  let ?rw = "rank_for_eviction (slot_entry s w) now"
  obtain r where r: "(r, v) \<in> set (worst_candidates s now d)"
    using assms(2) by (auto simp: victim_slots_def)
  have "(?rw, w) \<in> set (candidates (st_sites s) now)"
    using candidates_slots [OF inv, of ?rw "fst w" "snd w"] w(1) by simp
  moreover have "(?rw, w) \<notin> set (worst_candidates s now d)"
    using w(2) by (force simp: victim_slots_def)
  ultimately have "(r, v) \<le> (?rw, w)"
    using r worst_are_smallest unfolding worst_candidates_def by blast
  from fst_le [OF this] show ?thesis using worst_candidates_mem(2) [OF inv r] by simp
qed

lemma enforce_total_spec:
  fixes now :: system_time
  assumes inv: "store_inv P s" and over: "cap < st_total s" and target: "target \<le> cap"
  defines "V \<equiv> victim_slots (worst_candidates s now (st_total s - target))"
  obtains s' where "enforce_total s now cap target = Some s'" and "store_inv P s'"
    and "st_total s' = target" and "slots_kept s V s'"
proof -
  define worst where "worst = worst_candidates s now (st_total s - target)"
  have wlen: "length worst = st_total s - target"
    using inv by (simp add: worst_def worst_candidates_def length_candidates store_inv_def)
  have range: "distinct ps \<and> set ps \<subseteq> {..<bucket_len (site_bucket s k)}"
    if "(k, ps) \<in> set (victims_by_site worst)" for k ps
  proof -
    from that have "map_of (victims_by_site worst) k = Some ps"
      by (simp add: victims_by_site_distinct)
    then have ps: "ps = site_victims worst k" by (simp add: victims_by_site_lookup split: if_splits)
    have "valid_slot s (k, p)" if "p \<in> set ps" for p
      using that worst_candidates_mem(1) [OF inv]
      by (auto simp: ps site_victims_slots worst_def victim_slots_def)
    then show ?thesis
      using worst_candidates_distinct [OF inv] by (auto simp: ps worst_def valid_slot_def)
  qed
  from remove_victims [OF inv victims_by_site_distinct range]
  obtain s' where s': "enforce_total s now cap target = Some s'" "store_inv P s'"
    and bks: "\<And>k. site_bucket s' k = (case map_of (victims_by_site worst) k of
          Some ps \<Rightarrow> bucket_remove_all (site_bucket s k) ps | None \<Rightarrow> site_bucket s k)"
    and total: "st_total s' + sum_list (map (length \<circ> snd) (victims_by_site worst)) = st_total s"
    using over target
    by (auto simp: enforce_total_def Let_def fold_heap_step worst_def worst_candidates_def)
  have "bk_entries (site_bucket s' k)
      = bk_entries (bucket_remove_all (site_bucket s k) (site_victims worst k))" for k
    by (simp add: bks victims_by_site_lookup bucket_remove_all_def)
  then have "slots_kept s V s'"
    by (simp add: slots_kept_def bucket_remove_all_entries site_victims_slots V_def worst_def)
  moreover have "st_total s' = target"
    using total over target by (simp only: victims_by_site_count wlen)
  ultimately show ?thesis using s' by (intro that) auto
qed

section \<open>Tidying\<close>

lemma remove_expired_ok: "bucket_ok P k b \<Longrightarrow> bucket_ok P k (bucket_remove_expired b now)"
  by (auto simp: bucket_ok_def bucket_remove_expired_inv bucket_remove_expired_entries)

lemma trim_to_ok: "bucket_ok P k b \<Longrightarrow> bucket_ok P k (bucket_trim_to E b keep)"
  using remove_all_ok [of P k b] by (auto simp: bucket_trim_to_def Let_def)

lemma map_of_filter_map:
  assumes "distinct (map fst xs)"
  shows "map_of (filter (\<lambda>(k, v). Q v) (map (\<lambda>(k, v). (k, f v)) xs)) k =
    (case map_of xs k of Some v \<Rightarrow> (if Q (f v) then Some (f v) else None) | None \<Rightarrow> None)"
  using assms
proof (induction xs)
  case (Cons x xs)
  obtain j v where x: "x = (j, v)" by force
  have "map_of xs j = None" using Cons.prems x by (simp add: map_of_eq_None_iff)
  with Cons x show ?case by (cases "j = k") simp_all
qed simp

lemma tidy_site_bucket:
  assumes "store_inv P s"
  shows "site_bucket (tidy_every_site E s now per_domain) k =
    bucket_trim_to E (bucket_remove_expired (site_bucket s k) now) per_domain"
proof (cases "map_of (st_sites s) k")
  case None
  then show ?thesis
    using assms
    by (simp add: site_bucket_def tidy_every_site_def recount_def map_of_filter_map store_inv_def
        bucket_remove_expired_def bucket_trim_to_def bucket_default_def)
next
  case (Some b)
  let ?b = "bucket_trim_to E (bucket_remove_expired b now) per_domain"
  have "bucket_ok P k b" using Some assms by (auto simp: store_inv_def dest: map_of_SomeD)
  then have "bucket_inv ?b" using trim_to_ok remove_expired_ok unfolding bucket_ok_def by blast
  then have "bucket_is_empty ?b \<Longrightarrow> ?b = bucket_default"
    by (rule bucket_empty_default) (simp add: bucket_is_empty_def bucket_len_def)
  then show ?thesis
    using Some assms
    by (auto simp: site_bucket_def tidy_every_site_def recount_def map_of_filter_map store_inv_def)
qed

lemma tidy_every_site_inv:
  assumes inv: "store_inv P s"
  shows "store_inv P (tidy_every_site E s now per_domain)"
proof -
  let ?f = "\<lambda>b. bucket_trim_to E (bucket_remove_expired b now) per_domain"
  let ?sites = "filter (\<lambda>(k, b). \<not> bucket_is_empty b) (map (\<lambda>(k, b). (k, ?f b)) (st_sites s))"
  have "map fst (map (\<lambda>(k, b). (k, ?f b)) (st_sites s)) = map fst (st_sites s)"
    by (auto simp: comp_def case_prod_beta)
  then have "distinct (map fst (map (\<lambda>(k, b). (k, ?f b)) (st_sites s)))"
    using inv by (simp only: store_inv_def)
  then have "distinct (map fst ?sites)" by (rule distinct_map_filter)
  moreover have "bucket_ok P k b \<and> 0 < bucket_len b" if mem: "(k, b) \<in> set ?sites" for k b
  proof -
    obtain b0 where "(k, b0) \<in> set (st_sites s)" "b = ?f b0" "bk_entries b \<noteq> []"
      using mem by (auto simp: bucket_is_empty_def)
    moreover from this(1) inv have "bucket_ok P k b0" by (auto simp: store_inv_def)
    ultimately show ?thesis by (simp add: trim_to_ok remove_expired_ok bucket_len_def)
  qed
  ultimately show ?thesis
    unfolding store_inv_def tidy_every_site_def recount_def store.simps by blast
qed

definition within_limit :: "nat \<Rightarrow> store \<Rightarrow> bool" where
  "within_limit per_domain s \<longleftrightarrow> (\<forall>k. bucket_len (site_bucket s k) \<le> per_domain)"

lemma tidy_every_site_limit:
  "select_law E \<Longrightarrow> store_inv P s \<Longrightarrow> within_limit per_domain (tidy_every_site E s now per_domain)"
  by (simp add: within_limit_def tidy_site_bucket bucket_trim_to_len)

lemma bucket_len_nths: "bk_entries b' = nths (bk_entries b) A \<Longrightarrow> bucket_len b' \<le> bucket_len b"
  using card_mono [of "{..<length (bk_entries b)}" "{i. i < length (bk_entries b) \<and> i \<in> A}"]
  by (auto simp: bucket_len_def length_nths)

lemma enforce_total_ok:
  assumes inv: "store_inv P s" and limit: "within_limit per_domain s" and target: "target \<le> cap"
  shows "\<exists>s'. enforce_total s now cap target = Some s' \<and> store_inv P s'
    \<and> within_limit per_domain s' \<and> st_total s' \<le> cap"
proof (cases "st_total s \<le> cap")
  case True
  with assms show ?thesis by (simp add: enforce_total_def)
next
  case False
  then have "cap < st_total s" by simp
  from enforce_total_spec [OF inv this target, of now] obtain s' where
    s': "enforce_total s now cap target = Some s'" "store_inv P s'" "st_total s' = target"
    and kept: "slots_kept s (victim_slots (worst_candidates s now (st_total s - target))) s'"
    by blast
  have "bucket_len (site_bucket s' k) \<le> per_domain" for k
    using kept limit bucket_len_nths [of "site_bucket s' k" "site_bucket s k"]
    unfolding slots_kept_def within_limit_def by (meson order_trans)
  with s' target show ?thesis by (simp add: within_limit_def)
qed

section \<open>Properties\<close>

text \<open>When a cookie has expired, as a relation on its expiry time: the order of eviction is stated with it and
  with the last access, not with the rank the code computes.\<close>

definition lapsed :: "entry \<Rightarrow> system_time \<Rightarrow> bool" where
  "lapsed e now \<longleftrightarrow> (\<exists>t. ck_expires (en_cookie e) = Some t \<and> t \<le> now)"

lemma rank_le:
  "rank_for_eviction a now \<le> rank_for_eviction b now \<longleftrightarrow>
    (lapsed a now \<or> \<not> lapsed b now)
    \<and> (lapsed a now = lapsed b now \<longrightarrow> en_last_access_seq a \<le> en_last_access_seq b)"
  by (auto simp: rank_for_eviction_def lapsed_def is_expired_def split: option.splits)

text \<open>C5: When the store holds more than its cap, the eviction pass runs without panicking, leaves
  exactly the target number of cookies with the store's invariant intact, and drops the worst ones: no
  live cookie goes while an expired one stays, and of two live cookies, or of two expired ones, the one
  that goes was last accessed no later than the one that stays.\<close>
theorem eviction_drops_worst_first:
  assumes "store_inv P s" and "cap < st_total s" and "target \<le> cap"
  shows "\<exists>s' V. enforce_total s now cap target = Some s' \<and> store_inv P s' \<and> st_total s' = target
    \<and> slots_kept s V s' \<and> V \<subseteq> Collect (valid_slot s)
    \<and> (\<forall>v w. v \<in> V \<and> valid_slot s w \<and> w \<notin> V \<longrightarrow>
         (lapsed (slot_entry s v) now \<or> \<not> lapsed (slot_entry s w) now)
         \<and> (lapsed (slot_entry s v) now = lapsed (slot_entry s w) now \<longrightarrow>
              en_last_access_seq (slot_entry s v) \<le> en_last_access_seq (slot_entry s w)))"
proof -
  let ?V = "victim_slots (worst_candidates s now (st_total s - target))"
  obtain s' where "enforce_total s now cap target = Some s'" "store_inv P s'" "st_total s' = target"
    "slots_kept s ?V s'"
    using enforce_total_spec [OF assms] by blast
  moreover have "?V \<subseteq> Collect (valid_slot s)"
    using worst_candidates_mem(1) [OF assms(1)] by (auto simp: victim_slots_def)
  ultimately show ?thesis using worst_candidates_least [OF assms(1)] unfolding rank_le by blast
qed

definition sample_store :: store where
  "sample_store = recount
     [(''a.test'', reindex [sample_entry ''x'' None 7, sample_entry ''y'' (Some 0) 9]),
      (''b.test'', reindex [(sample_entry ''z'' None 3)\<lparr>en_creation_seq := 20\<rparr>])]"

lemma sample_store_inv: "store_inv (\<lambda>k e. True) sample_store"
proof -
  have "distinct (map entry_id [sample_entry ''x'' None 7, sample_entry ''y'' (Some 0) 9])" by code_simp
  then show ?thesis
    by (simp add: store_inv_def sample_store_def recount_def bucket_ok_def reindex_inv bucket_len_def)
qed

theorem eviction_drops_worst_first_witness:
  "\<exists>s' V. enforce_total sample_store 5 2 1 = Some s' \<and> st_total s' = 1
     \<and> slots_kept sample_store V s' \<and> V \<subseteq> Collect (valid_slot sample_store)
     \<and> map (ck_name \<circ> en_cookie) (concat (map (bk_entries \<circ> snd) (st_sites s'))) = [''x'']"
proof -
  have "2 < st_total sample_store" by code_simp
  from eviction_drops_worst_first [OF sample_store_inv this, of 1 5] obtain s' V
    where s': "enforce_total sample_store 5 2 1 = Some s'" "st_total s' = 1"
      "slots_kept sample_store V s'" "V \<subseteq> Collect (valid_slot sample_store)" by auto
  have "map_option (\<lambda>s. map (ck_name \<circ> en_cookie) (concat (map (bk_entries \<circ> snd) (st_sites s))))
      (enforce_total sample_store 5 2 1) = Some [''x'']" by code_simp
  with s' show ?thesis by auto
qed

end
