(* ===== verification/Jar.thy ===== *)
theory Jar
  imports Site_Store
begin

text \<open>
  The cookie jar of \<open>chromulate-cookie/src/jar.rs\<close>: limits, snapshots, and the \<open>CookieStore\<close>
  operations \<open>store\<close> and \<open>cookies_for\<close>. The clock is the argument \<open>now\<close> of each operation, the two
  atomic counters are fields of the state, and the lock makes each operation one step. An operation
  that could panic returns \<^typ>\<open>'a option\<close>; the invariant shows that none does.
\<close>

section \<open>Limits\<close>

record jar_limits =
  per_domain :: nat
  total_limit :: nat

definition default_limits :: jar_limits where
  "default_limits = \<lparr>per_domain = 180, total_limit = 3000\<rparr>"

definition purge_batch :: "jar_limits \<Rightarrow> nat" where
  "purge_batch l = total_limit l div 10"

definition purge_target :: "jar_limits \<Rightarrow> nat" where
  "purge_target l = total_limit l - purge_batch l"

definition domain_purge_batch :: "jar_limits \<Rightarrow> nat" where
  "domain_purge_batch l = per_domain l div 6"

definition domain_purge_target :: "jar_limits \<Rightarrow> nat" where
  "domain_purge_target l = per_domain l - domain_purge_batch l"

section \<open>State, snapshots and representable cookies\<close>

record jar =
  jar_entries :: store
  jar_limits :: jar_limits
  jar_counters :: counters

definition with_limits :: "jar_limits \<Rightarrow> jar" where
  "with_limits l =
     \<lparr>jar_entries = store_default, jar_limits = l,
      jar_counters = \<lparr>next_creation_seq = 0, next_access_seq = 0\<rparr>\<rparr>"

definition new_jar :: jar where
  "new_jar = with_limits default_limits"

record cookie_record =
  cr_name :: string
  cr_value :: string
  cr_domain :: string
  cr_host_only :: bool
  cr_path :: string
  cr_secure :: bool
  cr_http_only :: bool
  cr_same_site :: same_site
  cr_partitioned :: bool
  cr_expires :: "int option"
  cr_creation_seq :: u64
  cr_last_access_seq :: u64

definition is_representable :: "string \<Rightarrow> string \<Rightarrow> bool" where
  "is_representable name val \<longleftrightarrow>
     name \<noteq> [] \<and> list_all header_safe_char name \<and> list_all header_safe_char val
     \<and> CHR '';'' \<notin> set name \<and> CHR ''='' \<notin> set name \<and> CHR '';'' \<notin> set val"

section \<open>Reading\<close>

definition entry_matches ::
  "externals \<Rightarrow> string \<Rightarrow> string \<Rightarrow> bool \<Rightarrow> cookie_context \<Rightarrow> system_time \<Rightarrow> entry \<Rightarrow> bool" where
  "entry_matches E host request_path request_is_secure ctx now e \<longleftrightarrow>
     \<not> is_expired (en_cookie e) now
     \<and> applies_to (en_cookie e) host request_path request_is_secure
     \<and> same_site_eligible (ext_psl E) (en_cookie e) host ctx"

definition header_order :: "entry \<Rightarrow> int \<times> u64" where
  "header_order e = (- int (length (ck_path (en_cookie e))), en_creation_seq e)"

definition cookie_pair :: "entry \<Rightarrow> string" where
  "cookie_pair e = ck_name (en_cookie e) @ ''='' @ ck_value (en_cookie e)"

definition join_pairs :: "entry list \<Rightarrow> string" where
  "join_pairs es = join_with ''; '' (map cookie_pair es)"

definition header_of :: "externals \<Rightarrow> entry list \<Rightarrow> header_value option" where
  "header_of E matching =
     (case ext_from_str E (join_pairs matching) of
        Some header \<Rightarrow> Some header
      | None \<Rightarrow>
          (let kept = filter (\<lambda>e. is_representable (ck_name (en_cookie e)) (ck_value (en_cookie e)))
                        matching
           in if kept = [] then None else ext_from_str E (join_pairs kept)))"

definition stamp_access :: "(entry \<Rightarrow> bool) \<Rightarrow> u64 \<Rightarrow> bucket \<Rightarrow> bucket" where
  "stamp_access sel seq b =
     b\<lparr>bk_entries := map (\<lambda>e. if sel e then e\<lparr>en_last_access_seq := seq\<rparr> else e) (bk_entries b)\<rparr>"

definition cookies_for ::
  "externals \<Rightarrow> jar \<Rightarrow> url \<Rightarrow> cookie_context \<Rightarrow> system_time \<Rightarrow> header_value option \<times> jar" where
  "cookies_for E j u ctx now =
     (case origin_of u of
        Inl _ \<Rightarrow> (None, j)
      | Inr g \<Rightarrow>
          (let host = origin_host g;
               site = site_of (ext_psl E) host;
               sel = entry_matches E host (url_path u) (is_secure g) ctx now
           in case map_of (st_sites (jar_entries j)) site of
                None \<Rightarrow> (None, j)
              | Some b \<Rightarrow>
                  (let matching = filter sel (bk_entries b)
                   in if matching = [] then (None, j)
                      else (let sorted = sort_key header_order matching;
                                access_seq = next_access_seq (jar_counters j);
                                s = jar_entries j
                            in (header_of E sorted,
                                j\<lparr>jar_entries :=
                                    s\<lparr>st_sites := AList.update site (stamp_access sel access_seq b)
                                                    (st_sites s)\<rparr>,
                                  jar_counters :=
                                    (jar_counters j)\<lparr>next_access_seq := access_seq + 1\<rparr>\<rparr>)))))"

section \<open>Writing\<close>

definition store_header ::
  "externals \<Rightarrow> jar_limits \<Rightarrow> string \<Rightarrow> string \<Rightarrow> bool \<Rightarrow> system_time \<Rightarrow> header_value
   \<Rightarrow> store \<times> counters \<times> string list \<Rightarrow> (store \<times> counters \<times> string list) option" where
  "store_header E l host request_path request_is_secure now header st =
     (case st of (s, cs, touched) \<Rightarrow>
        (case parse_cookie E header host request_path request_is_secure now of
           None \<Rightarrow> Some (s, cs, touched)
         | Some c \<Rightarrow>
             (let site = site_of (ext_psl E) (ck_domain c)
              in do {
                   (s', cs') \<leftarrow> with_site s site (\<lambda>b. do {
                     (b1, cs1) \<leftarrow> apply_set_cookie b c now request_is_secure cs;
                     Some (if saturating_mul (per_domain l) 2 < bucket_len b1
                           then bucket_trim_to E (bucket_remove_expired b1 now) (per_domain l)
                           else b1, cs1)
                   });
                   Some (s', cs', if site \<in> set touched then touched else touched @ [site])
                 })))"

definition tidy_touched ::
  "externals \<Rightarrow> jar_limits \<Rightarrow> system_time \<Rightarrow> string \<Rightarrow> store \<Rightarrow> store option" where
  "tidy_touched E l now site s =
     map_option fst (with_site s site (\<lambda>b.
       Some (if per_domain l < bucket_len b
             then bucket_trim_to E (bucket_remove_expired b now) (domain_purge_target l)
             else b, ())))"

definition jar_store ::
  "externals \<Rightarrow> jar \<Rightarrow> url \<Rightarrow> header_value list \<Rightarrow> system_time \<Rightarrow> jar option" where
  "jar_store E j u set_cookie now =
     (case origin_of u of
        Inl _ \<Rightarrow> Some j
      | Inr g \<Rightarrow>
          (let l = jar_limits j
           in do {
                (s, cs, touched) \<leftarrow>
                  for_each (store_header E l (origin_host g) (url_path u) (is_secure g) now)
                    set_cookie (jar_entries j, jar_counters j, []);
                s \<leftarrow> for_each (tidy_touched E l now) touched s;
                s \<leftarrow> enforce_total s now (total_limit l) (purge_target l);
                Some (j\<lparr>jar_entries := s, jar_counters := cs\<rparr>)
              }))"

section \<open>Snapshots\<close>

definition record_of_entry :: "entry \<Rightarrow> cookie_record" where
  "record_of_entry e =
     (let c = en_cookie e
      in \<lparr>cr_name = ck_name c, cr_value = ck_value c, cr_domain = ck_domain c,
          cr_host_only = ck_host_only c, cr_path = ck_path c, cr_secure = ck_secure c,
          cr_http_only = ck_http_only c, cr_same_site = ck_same_site c,
          cr_partitioned = ck_partitioned c,
          cr_expires = map_option system_time_to_epoch_seconds (ck_expires c),
          cr_creation_seq = en_creation_seq e, cr_last_access_seq = en_last_access_seq e\<rparr>)"

definition export_jar :: "jar \<Rightarrow> system_time \<Rightarrow> cookie_record list" where
  "export_jar j now =
     map record_of_entry
       (filter (\<lambda>e. \<not> is_expired (en_cookie e) now)
         (concat (map (bk_entries \<circ> snd) (st_sites (jar_entries j)))))"

definition entry_of_record :: "cookie_record \<Rightarrow> entry" where
  "entry_of_record r =
     \<lparr>en_cookie =
        \<lparr>ck_name = cr_name r, ck_value = cr_value r, ck_domain = cr_domain r,
         ck_host_only = cr_host_only r, ck_path = cr_path r, ck_secure = cr_secure r,
         ck_http_only = cr_http_only r, ck_same_site = cr_same_site r,
         ck_partitioned = cr_partitioned r,
         ck_expires = map_option epoch_seconds_to_system_time (cr_expires r)\<rparr>,
      en_creation_seq = cr_creation_seq r, en_last_access_seq = cr_last_access_seq r\<rparr>"

definition record_admissible :: "cookie_record \<Rightarrow> system_time \<Rightarrow> bool" where
  "record_admissible r now \<longleftrightarrow>
     \<not> is_expired (en_cookie (entry_of_record r)) now
     \<and> is_representable (cr_name r) (cr_value r)
     \<and> keeps_name_prefix_promise (cr_name r) (cr_secure r) (cr_host_only r) (cr_path r)"

definition import_record ::
  "externals \<Rightarrow> system_time \<Rightarrow> cookie_record \<Rightarrow> store \<times> counters \<Rightarrow> (store \<times> counters) option" where
  "import_record E now r st =
     (case st of (s, cs) \<Rightarrow>
        if \<not> record_admissible r now then Some (s, cs)
        else (let e = entry_of_record r;
                  cs' = \<lparr>next_creation_seq =
                           max (next_creation_seq cs) (saturating_incr (cr_creation_seq r)),
                         next_access_seq =
                           max (next_access_seq cs) (saturating_incr (cr_last_access_seq r))\<rparr>
              in do {
                   (s', u) \<leftarrow> with_site s (site_of (ext_psl E) (ck_domain (en_cookie e))) (\<lambda>b. do {
                     b1 \<leftarrow> (case bucket_position_of b (entry_id e) of
                               Some p \<Rightarrow> bucket_remove b p | None \<Rightarrow> Some b);
                     Some (bucket_push b1 e, ())
                   });
                   Some (s', cs')
                 }))"

definition import_jar :: "externals \<Rightarrow> jar \<Rightarrow> cookie_record list \<Rightarrow> system_time \<Rightarrow> jar option" where
  "import_jar E j snapshot now =
     (let l = jar_limits j
      in do {
           (s, cs) \<leftarrow> for_each (import_record E now) snapshot (jar_entries j, jar_counters j);
           s \<leftarrow> enforce_total (tidy_every_site E s now (per_domain l)) now
                 (total_limit l) (purge_target l);
           Some (j\<lparr>jar_entries := s, jar_counters := cs\<rparr>)
         })"

section \<open>The invariant\<close>

definition good_entry :: "psl \<Rightarrow> string \<Rightarrow> entry \<Rightarrow> bool" where
  "good_entry psl site e \<longleftrightarrow>
     site_of psl (ck_domain (en_cookie e)) = site
     \<and> is_representable (ck_name (en_cookie e)) (ck_value (en_cookie e))
     \<and> keeps_name_prefix_promise (ck_name (en_cookie e)) (ck_secure (en_cookie e))
         (ck_host_only (en_cookie e)) (ck_path (en_cookie e))"

definition jar_inv :: "externals \<Rightarrow> jar \<Rightarrow> bool" where
  "jar_inv E j \<longleftrightarrow>
     store_inv (good_entry (ext_psl E)) (jar_entries j)
     \<and> within_limit (per_domain (jar_limits j)) (jar_entries j)
     \<and> st_total (jar_entries j) \<le> total_limit (jar_limits j)"

lemma purge_target_le: "purge_target l \<le> total_limit l"
  by (simp add: purge_target_def)

lemma domain_purge_target_le: "domain_purge_target l \<le> per_domain l"
  by (simp add: domain_purge_target_def)

lemma with_limits_inv: "jar_inv E (with_limits l)"
  by (simp add: jar_inv_def with_limits_def store_default_inv within_limit_def)
    (simp add: store_default_def site_bucket_def bucket_default_def bucket_len_def)

lemma bucket_ok_abs:
  "bucket_ok P k b \<longleftrightarrow> bucket_inv b \<and> (\<forall>x e. bucket_abs b x = Some e \<longrightarrow> P k e)"
  unfolding bucket_ok_def by (metis bucket_abs_mem)

lemma parse_cookie_good:
  assumes law: "to_str_law E" and p: "parse_cookie E h host path sec now = Some c"
  shows "good_entry (ext_psl E) (site_of (ext_psl E) (ck_domain c))
    \<lparr>en_cookie = c, en_creation_seq = n, en_last_access_seq = m\<rparr>"
  using parse_cookie_safe [OF law p] parse_cookie_accepted [OF p]
  by (simp add: good_entry_def is_representable_def accepted_cookie_def)

lemma apply_set_cookie_ok:
  assumes ok: "bucket_ok P k b"
    and new: "\<And>n m. P k \<lparr>en_cookie = c, en_creation_seq = n, en_last_access_seq = m\<rparr>"
  shows "\<exists>b' cs'. apply_set_cookie b c now sec cs = Some (b', cs') \<and> bucket_ok P k b'"
proof -
  have inv: "bucket_inv b" using ok by (simp add: bucket_ok_def)
  obtain b' cs' where b': "apply_set_cookie b c now sec cs = Some (b', cs')" "bucket_inv b'"
    and spec: "(bucket_abs b', cs') = set_cookie_spec (bucket_abs b) c now sec cs"
    using apply_set_cookie_refines [OF inv] by blast
  have old: "P k e" if "bucket_abs b x = Some e" for x e
    using that ok unfolding bucket_ok_abs by blast
  have "P k e" if "bucket_abs b' x = Some e" for x e
    using spec that unfolding set_cookie_spec_def Let_def
    by (auto simp: new split: if_splits intro: old)
  with b' show ?thesis by (auto simp: bucket_ok_abs)
qed

text \<open>While a response is applied, only the buckets it touched may be over their limit.\<close>

definition storing_inv :: "externals \<Rightarrow> jar_limits \<Rightarrow> store \<times> counters \<times> string list \<Rightarrow> bool" where
  "storing_inv E l st \<longleftrightarrow>
     (case st of (s, cs, touched) \<Rightarrow>
        store_inv (good_entry (ext_psl E)) s
        \<and> (\<forall>k. k \<notin> set touched \<longrightarrow> bucket_len (site_bucket s k) \<le> per_domain l))"

lemma store_header_ok:
  assumes law: "to_str_law E" and I: "storing_inv E l st"
  shows "\<exists>st'. store_header E l host path sec now h st = Some st' \<and> storing_inv E l st'"
proof -
  let ?P = "good_entry (ext_psl E)"
  obtain s cs touched where st: "st = (s, cs, touched)" by (cases st)
  show ?thesis
  proof (cases "parse_cookie E h host path sec now")
    case None
    with I st show ?thesis by (simp add: store_header_def)
  next
    case (Some c)
    let ?k = "site_of (ext_psl E) (ck_domain c)"
    have inv: "store_inv ?P s" using I st by (simp add: storing_inv_def)
    obtain b1 cs1 where b1: "apply_set_cookie (site_bucket s ?k) c now sec cs = Some (b1, cs1)"
      and ok1: "bucket_ok ?P ?k b1"
      using apply_set_cookie_ok [OF site_bucket_ok [OF inv] parse_cookie_good [OF law Some]] by blast
    define b2 where "b2 = (if saturating_mul (per_domain l) 2 < bucket_len b1
      then bucket_trim_to E (bucket_remove_expired b1 now) (per_domain l) else b1)"
    have ok2: "bucket_ok ?P ?k b2"
      using ok1 by (simp add: b2_def trim_to_ok remove_expired_ok)
    let ?change = "\<lambda>b. do {
        (b1, cs1) \<leftarrow> apply_set_cookie b c now sec cs;
        Some (if saturating_mul (per_domain l) 2 < bucket_len b1
              then bucket_trim_to E (bucket_remove_expired b1 now) (per_domain l) else b1, cs1) }"
    have "?change (site_bucket s ?k) = Some (b2, cs1)" by (simp add: b1 b2_def)
    from with_site_ok [where change = ?change and site = ?k, OF inv this ok2] obtain s' where
      "with_site s ?k ?change = Some (s', cs1)" "store_inv ?P s'"
      "site_bucket s' = (site_bucket s)(?k := b2)" by blast
    then show ?thesis
      using I st Some by (auto simp: store_header_def Let_def storing_inv_def)
  qed
qed

lemma tidy_touched_ok:
  assumes sel: "select_law E" and inv: "store_inv P s"
  shows "\<exists>s'. tidy_touched E l now k s = Some s' \<and> store_inv P s'
    \<and> bucket_len (site_bucket s' k) \<le> per_domain l
    \<and> (\<forall>j. j \<noteq> k \<longrightarrow> site_bucket s' j = site_bucket s j)"
proof -
  define b' where "b' = (if per_domain l < bucket_len (site_bucket s k)
    then bucket_trim_to E (bucket_remove_expired (site_bucket s k) now) (domain_purge_target l)
    else site_bucket s k)"
  have ok: "bucket_ok P k b'"
    using site_bucket_ok [OF inv] by (simp add: b'_def trim_to_ok remove_expired_ok)
  have len: "bucket_len b' \<le> per_domain l"
    using domain_purge_target_le [of l] by (auto simp: b'_def bucket_trim_to_len [OF sel] min.coboundedI1)
  from with_site_ok [OF inv _ ok, where r = "()" and change = "\<lambda>b. Some (if per_domain l < bucket_len b
       then bucket_trim_to E (bucket_remove_expired b now) (domain_purge_target l) else b, ())"]
  obtain s' where "tidy_touched E l now k s = Some s'" "store_inv P s'"
    "site_bucket s' = (site_bucket s)(k := b')"
    by (auto simp: tidy_touched_def b'_def)
  with len show ?thesis by auto
qed

lemma tidy_all_touched_ok:
  assumes sel: "select_law E" and I: "storing_inv E l (s, cs, touched)"
  shows "\<exists>s'. for_each (tidy_touched E l now) touched s = Some s'
    \<and> store_inv (good_entry (ext_psl E)) s' \<and> within_limit (per_domain l) s'"
proof -
  let ?I = "\<lambda>pre s. store_inv (good_entry (ext_psl E)) s
      \<and> (\<forall>k. k \<notin> set touched - set pre \<longrightarrow> bucket_len (site_bucket s k) \<le> per_domain l)"
  have "\<exists>s'. for_each (tidy_touched E l now) touched s = Some s' \<and> ?I touched s'"
  proof (rule for_each_prefix [where I = ?I])
    fix pre k post s1 assume "?I pre s1"
    with tidy_touched_ok [OF sel, of "good_entry (ext_psl E)" s1 l now k]
    obtain s2 where "tidy_touched E l now k s1 = Some s2" "store_inv (good_entry (ext_psl E)) s2"
      "bucket_len (site_bucket s2 k) \<le> per_domain l"
      "\<forall>j. j \<noteq> k \<longrightarrow> site_bucket s2 j = site_bucket s1 j" by blast
    moreover have "bucket_len (site_bucket s2 j) \<le> per_domain l"
      if "j \<notin> set touched - set (pre @ [k])" for j
      using that calculation \<open>?I pre s1\<close> by (cases "j = k") auto
    ultimately show "\<exists>s'. tidy_touched E l now k s1 = Some s' \<and> ?I (pre @ [k]) s'" by blast
  qed (use I in \<open>auto simp: storing_inv_def\<close>)
  then show ?thesis by (auto simp: within_limit_def)
qed

lemma jar_store_ok:
  assumes "to_str_law E" and "select_law E" and inv: "jar_inv E j"
  shows "\<exists>j'. jar_store E j u hs now = Some j' \<and> jar_inv E j' \<and> jar_limits j' = jar_limits j"
proof (cases "origin_of u")
  case (Inr g)
  let ?l = "jar_limits j"
  let ?step = "store_header E ?l (origin_host g) (url_path u) (is_secure g) now"
  have "storing_inv E ?l (jar_entries j, jar_counters j, [])"
    using inv by (auto simp: storing_inv_def jar_inv_def within_limit_def)
  then obtain s cs touched
    where loop: "for_each ?step hs (jar_entries j, jar_counters j, []) = Some (s, cs, touched)"
      and I: "storing_inv E ?l (s, cs, touched)"
    using for_each_inv [of hs "storing_inv E ?l" ?step] store_header_ok [OF assms(1)]
    by (metis prod_cases3)
  obtain s1 where s1: "for_each (tidy_touched E ?l now) touched s = Some s1"
    "store_inv (good_entry (ext_psl E)) s1" "within_limit (per_domain ?l) s1"
    using tidy_all_touched_ok [OF assms(2) I] by blast
  obtain s2 where "enforce_total s1 now (total_limit ?l) (purge_target ?l) = Some s2"
    "store_inv (good_entry (ext_psl E)) s2" "within_limit (per_domain ?l) s2"
    "st_total s2 \<le> total_limit ?l"
    using enforce_total_ok [OF s1(2,3) purge_target_le] by blast
  with loop s1(1) Inr show ?thesis by (simp add: jar_store_def jar_inv_def)
qed (use inv in \<open>simp add: jar_store_def\<close>)

section \<open>Import and lookup keep the invariant\<close>

lemma import_record_step:
  assumes inv: "store_inv (good_entry (ext_psl E)) s" and adm: "record_admissible r now"
  defines "e \<equiv> entry_of_record r"
  defines "k \<equiv> site_of (ext_psl E) (ck_domain (en_cookie e))"
  shows "\<exists>s' cs' b'. import_record E now r (s, cs) = Some (s', cs')
    \<and> store_inv (good_entry (ext_psl E)) s' \<and> site_bucket s' = (site_bucket s)(k := b')
    \<and> bucket_abs b' = (bucket_abs (site_bucket s k))(entry_id e \<mapsto> e)"
proof -
  let ?P = "good_entry (ext_psl E)"
  let ?change = "\<lambda>b. do {
      b1 \<leftarrow> (case bucket_position_of b (entry_id e) of Some p \<Rightarrow> bucket_remove b p | None \<Rightarrow> Some b);
      Some (bucket_push b1 e, ()) }"
  have old: "bucket_ok ?P k (site_bucket s k)" by (rule site_bucket_ok [OF inv])
  then have binv: "bucket_inv (site_bucket s k)" by (simp add: bucket_ok_def)
  obtain b' where b': "?change (site_bucket s k) = Some (b', ())" "bucket_inv b'"
    and abs: "bucket_abs b' = (bucket_abs (site_bucket s k))(entry_id e \<mapsto> e)"
    using bk.supersede [OF binv, of e] by (auto simp: map_option_case split: option.splits)
  have new: "?P k e"
    using adm by (simp add: good_entry_def record_admissible_def entry_of_record_def k_def e_def)
  have "?P k x" if "bucket_abs b' i = Some x" for i x
    using that old new unfolding abs bucket_ok_abs by (metis fun_upd_apply option.inject)
  with b'(2) have ok: "bucket_ok ?P k b'" by (simp only: bucket_ok_abs) blast
  from with_site_ok [where change = ?change and site = k, OF inv b'(1) ok] abs adm show ?thesis
    by (auto simp: import_record_def Let_def k_def e_def)
qed

lemma import_record_ok:
  assumes "store_inv (good_entry (ext_psl E)) s"
  shows "\<exists>s' cs'. import_record E now r (s, cs) = Some (s', cs')
    \<and> store_inv (good_entry (ext_psl E)) s'"
  using assms import_record_step [OF assms, of r now cs]
  by (cases "record_admissible r now") (auto simp: import_record_def)

lemma import_jar_ok:
  assumes "select_law E" and inv: "jar_inv E j"
  shows "\<exists>j'. import_jar E j snapshot now = Some j' \<and> jar_inv E j' \<and> jar_limits j' = jar_limits j"
proof -
  let ?l = "jar_limits j" and ?P = "good_entry (ext_psl E)"
  have "\<exists>st. for_each (import_record E now) snapshot (jar_entries j, jar_counters j) = Some st
      \<and> store_inv ?P (fst st)"
  proof (rule for_each_inv)
    fix r and st :: "store \<times> counters" assume "store_inv ?P (fst st)"
    from import_record_ok [OF this, of now r "snd st"]
    show "\<exists>st'. import_record E now r st = Some st' \<and> store_inv ?P (fst st')" by auto
  qed (use inv in \<open>simp add: jar_inv_def\<close>)
  then obtain s cs where loop: "for_each (import_record E now) snapshot
      (jar_entries j, jar_counters j) = Some (s, cs)" and s: "store_inv ?P s"
    by auto
  let ?t = "tidy_every_site E s now (per_domain ?l)"
  obtain s2 where "enforce_total ?t now (total_limit ?l) (purge_target ?l) = Some s2"
    "store_inv ?P s2" "within_limit (per_domain ?l) s2" "st_total s2 \<le> total_limit ?l"
    using enforce_total_ok [OF tidy_every_site_inv [OF s] tidy_every_site_limit [OF assms(1) s]
        purge_target_le] by blast
  with loop show ?thesis by (simp add: import_jar_def jar_inv_def)
qed

lemma stamp_access_ok:
  assumes "bucket_ok (good_entry psl) k b"
  shows "bucket_ok (good_entry psl) k (stamp_access sel seq b)"
proof -
  have "entry_id (map (\<lambda>e. if sel e then e\<lparr>en_last_access_seq := seq\<rparr> else e) es ! p)
      = entry_id (es ! p)" if "p < length es" for es p
    using that by simp
  with assms show ?thesis
    by (auto simp: bucket_ok_def bucket_inv_def index_ok_def stamp_access_def good_entry_def)
qed

lemma replace_bucket_inv:
  assumes inv: "store_inv P s" and mem: "map_of (st_sites s) k = Some b"
    and ok: "bucket_ok P k b'" and len: "bucket_len b' = bucket_len b"
  defines "s' \<equiv> s\<lparr>st_sites := AList.update k b' (st_sites s)\<rparr>"
  shows "store_inv P s'" and "site_bucket s' = (site_bucket s)(k := b')"
proof -
  have dist: "distinct (map fst (st_sites s))"
    and all: "\<forall>(k, b) \<in> set (st_sites s). bucket_ok P k b \<and> 0 < bucket_len b"
    and tot: "st_total s = sum_list (map (bucket_len \<circ> snd) (st_sites s))"
    using inv by (simp_all add: store_inv_def)
  have "0 < bucket_len b'" using all map_of_SomeD [OF mem] len by auto
  then show "store_inv P s'"
    using dist all ok tot sum_delete [OF dist, of bucket_len k] sum_update [OF dist, of bucket_len k b']
      mem len
    unfolding store_inv_def s'_def
    by (auto simp: distinct_update dest!: update_memD)
  show "site_bucket s' = (site_bucket s)(k := b')"
    by (auto simp: site_bucket_def s'_def update_conv' fun_eq_iff)
qed

lemma cookies_for_ok:
  assumes inv: "jar_inv E j"
  shows "jar_inv E (snd (cookies_for E j u ctx now))"
    and "jar_limits (snd (cookies_for E j u ctx now)) = jar_limits j"
proof -
  have "jar_inv E (j\<lparr>jar_entries := (jar_entries j)\<lparr>st_sites :=
          AList.update site (stamp_access sel seq b) (st_sites (jar_entries j))\<rparr>, jar_counters := cs\<rparr>)"
    if mem: "map_of (st_sites (jar_entries j)) site = Some b" for site sel seq b cs
  proof -
    have s: "store_inv (good_entry (ext_psl E)) (jar_entries j)" using inv by (simp add: jar_inv_def)
    have ok: "bucket_ok (good_entry (ext_psl E)) site (stamp_access sel seq b)"
      using site_bucket_ok [OF s, of site] site_bucket_Some [OF mem] by (simp add: stamp_access_ok)
    have len: "bucket_len (stamp_access sel seq b) = bucket_len b"
      by (simp add: stamp_access_def bucket_len_def)
    show ?thesis
      using replace_bucket_inv [OF s mem ok len] inv len site_bucket_Some [OF mem]
      by (auto simp: jar_inv_def within_limit_def)
  qed
  with inv show "jar_inv E (snd (cookies_for E j u ctx now))"
    by (simp add: cookies_for_def Let_def split: sum.splits option.splits)
  show "jar_limits (snd (cookies_for E j u ctx now)) = jar_limits j"
    by (simp add: cookies_for_def Let_def split: sum.splits option.splits)
qed

section \<open>Reachable jars\<close>

text \<open>Every state a jar can get into: created with some limits, then any sequence of the three
  operations, at any times and with any arguments.\<close>

inductive jar_reachable :: "externals \<Rightarrow> jar \<Rightarrow> bool" for E where
  created: "jar_reachable E (with_limits l)"
| stored: "jar_reachable E j \<Longrightarrow> jar_store E j u headers now = Some j' \<Longrightarrow> jar_reachable E j'"
| imported: "jar_reachable E j \<Longrightarrow> import_jar E j snapshot now = Some j' \<Longrightarrow> jar_reachable E j'"
| looked_up: "jar_reachable E j \<Longrightarrow> cookies_for E j u ctx now = (header, j') \<Longrightarrow> jar_reachable E j'"

lemma jar_reachable_inv:
  assumes "jar_reachable E j" and laws: "to_str_law E" "select_law E"
  shows "jar_inv E j"
  using assms(1)
proof (induction rule: jar_reachable.induct)
  case (created l)
  show ?case by (rule with_limits_inv)
next
  case (stored j u headers now j')
  then show ?case using jar_store_ok [OF laws, of j u headers now] by auto
next
  case (imported j snapshot now j')
  then show ?case using import_jar_ok [OF laws(2), of j snapshot now] by auto
next
  case (looked_up j u ctx now header j')
  then show ?case using cookies_for_ok(1) [of E j u ctx now] by simp
qed

section \<open>What a lookup returns\<close>

definition all_entries :: "store \<Rightarrow> entry list" where
  "all_entries s = concat (map (bk_entries \<circ> snd) (st_sites s))"

lemma all_entries_site:
  assumes "store_inv P s"
  shows "e \<in> set (all_entries s) \<longleftrightarrow> (\<exists>k. e \<in> set (bk_entries (site_bucket s k)))"
proof -
  have dist: "distinct (map fst (st_sites s))" using assms by (simp add: store_inv_def)
  have "e \<in> set (all_entries s) \<longleftrightarrow> (\<exists>k b. map_of (st_sites s) k = Some b \<and> e \<in> set (bk_entries b))"
    using dist by (force simp: all_entries_def)
  also have "\<dots> \<longleftrightarrow> (\<exists>k. e \<in> set (bk_entries (site_bucket s k)))"
    by (auto simp: site_bucket_def bucket_default_def split: option.splits)
  finally show ?thesis .
qed

lemma site_entries:
  assumes "store_inv (good_entry psl) s"
  shows "e \<in> set (bk_entries (site_bucket s k)) \<longleftrightarrow>
    e \<in> set (all_entries s) \<and> site_of psl (ck_domain (en_cookie e)) = k"
  using all_entries_site [OF assms] site_bucket_ok [OF assms]
  by (auto simp: bucket_ok_def good_entry_def)

lemma cookie_pair_safe:
  assumes "good_entry psl k e"
  shows "list_all header_safe_char (cookie_pair e)" and "CHR '';'' \<notin> set (cookie_pair e)"
    and "split_once (CHR ''='') (cookie_pair e) = Some (ck_name (en_cookie e), ck_value (en_cookie e))"
proof -
  from assms have r: "is_representable (ck_name (en_cookie e)) (ck_value (en_cookie e))"
    by (simp add: good_entry_def)
  then show "list_all header_safe_char (cookie_pair e)"
    by (simp add: cookie_pair_def is_representable_def header_safe_char_def byte_def)
  from r show "CHR '';'' \<notin> set (cookie_pair e)" by (simp add: cookie_pair_def is_representable_def)
  from r show "split_once (CHR ''='') (cookie_pair e)
      = Some (ck_name (en_cookie e), ck_value (en_cookie e))"
    unfolding cookie_pair_def is_representable_def by (simp add: split_once_append)
qed

lemma join_with_safe:
  "list_all Q sep \<Longrightarrow> \<forall>p \<in> set ps. list_all Q p \<Longrightarrow> list_all Q (join_with sep ps)"
  by (induction sep ps rule: join_with.induct) auto

lemma header_of_good:
  assumes "from_str_law E" and "\<forall>e \<in> set es. good_entry psl k e"
  shows "header_of E es = Some (join_pairs es)"
proof -
  have "list_all header_safe_char ''; ''" by code_simp
  then have "list_all header_safe_char (join_pairs es)"
    unfolding join_pairs_def using assms(2) cookie_pair_safe(1) by (intro join_with_safe) auto
  then show ?thesis using assms(1) by (simp add: header_of_def from_str_law_def)
qed

text \<open>How a server reads the header back: split at semicolons, drop the space, split at the first
  equals sign.\<close>

definition server_pairs :: "string \<Rightarrow> (string \<times> string) option list" where
  "server_pairs header =
     (case split_by (\<lambda>c. c = CHR '';'') header of
        [] \<Rightarrow> []
      | p # ps \<Rightarrow> split_once (CHR ''='') p # map (split_once (CHR ''='') \<circ> drop 1) ps)"

lemma split_join_pairs:
  assumes "es \<noteq> []" and "\<forall>e \<in> set es. CHR '';'' \<notin> set (cookie_pair e)"
  shows "split_by (\<lambda>c. c = CHR '';'') (join_pairs es)
    = cookie_pair (hd es) # map (\<lambda>e. CHR '' '' # cookie_pair e) (tl es)"
  using assms
proof (induction es rule: induct_list012)
  case (2 e)
  then show ?case by (auto simp: join_pairs_def intro!: split_by_none)
next
  case (3 e f es)
  have "join_pairs (e # f # es) = cookie_pair e @ CHR '';'' # CHR '' '' # join_pairs (f # es)"
    by (simp add: join_pairs_def)
  moreover have "split_by (\<lambda>c. c = CHR '';'') (CHR '' '' # join_pairs (f # es))
      = (CHR '' '' # cookie_pair f) # map (\<lambda>e. CHR '' '' # cookie_pair e) es"
    using 3 by (simp add: split_by_Cons_not)
  moreover have "\<forall>c \<in> set (cookie_pair e). \<not> c = CHR '';''" using 3 by auto
  ultimately show ?case by (simp add: split_by_append_sep)
qed simp

lemma server_pairs_join:
  assumes "es \<noteq> []" and "\<forall>e \<in> set es. good_entry psl k e"
  shows "server_pairs (join_pairs es)
    = map (\<lambda>e. Some (ck_name (en_cookie e), ck_value (en_cookie e))) es"
proof -
  have "\<forall>e \<in> set es. CHR '';'' \<notin> set (cookie_pair e)"
    and "\<forall>e \<in> set es. split_once (CHR ''='') (cookie_pair e)
        = Some (ck_name (en_cookie e), ck_value (en_cookie e))"
    using assms(2) cookie_pair_safe(2,3) by blast+
  then show ?thesis
    using assms(1) split_join_pairs [OF assms(1)]
    by (cases es) (auto simp: server_pairs_def)
qed

lemma sort_key_Nil_iff: "sort_key f xs = [] \<longleftrightarrow> xs = []"
  by (metis set_empty set_sort)

lemma cookies_for_Some:
  assumes inv: "jar_inv E j" and law: "from_str_law E" and g: "origin_of u = Inr g"
    and r: "cookies_for E j u ctx now = (header, j')"
  defines "sel \<equiv> \<lambda>e. site_of (ext_psl E) (ck_domain (en_cookie e)) = site_of (ext_psl E) (origin_host g)
      \<and> entry_matches E (origin_host g) (url_path u) (is_secure g) ctx now e"
  shows "\<exists>es. distinct es \<and> sorted (map header_order es)
    \<and> set es = {e \<in> set (all_entries (jar_entries j)). sel e}
    \<and> (\<forall>e \<in> set es. \<exists>k. good_entry (ext_psl E) k e)
    \<and> header = (if es = [] then None else Some (join_pairs es))"
proof -
  let ?site = "site_of (ext_psl E) (origin_host g)"
  let ?m = "entry_matches E (origin_host g) (url_path u) (is_secure g) ctx now"
  define es where "es = sort_key header_order (filter ?m (bk_entries (site_bucket (jar_entries j) ?site)))"
  have s: "store_inv (good_entry (ext_psl E)) (jar_entries j)" using inv by (simp add: jar_inv_def)
  have ok: "bucket_ok (good_entry (ext_psl E)) ?site (site_bucket (jar_entries j) ?site)"
    by (rule site_bucket_ok [OF s])
  have good: "\<forall>e \<in> set es. good_entry (ext_psl E) ?site e"
    using ok by (auto simp: es_def bucket_ok_def)
  have "distinct (bk_entries (site_bucket (jar_entries j) ?site))"
    using ok bucket_distinct by (auto simp: bucket_ok_def distinct_map)
  then have "distinct es" by (simp add: es_def)
  moreover have "set es = {e \<in> set (all_entries (jar_entries j)). sel e}"
    using site_entries [OF s] by (auto simp: es_def sel_def)
  moreover have "header = (if es = [] then None else Some (join_pairs es))"
  proof (cases "map_of (st_sites (jar_entries j)) ?site")
    case None
    then show ?thesis
      using r g by (simp add: cookies_for_def Let_def es_def site_bucket_def bucket_default_def)
  next
    case (Some b)
    then show ?thesis
      using r g header_of_good [OF law good]
      by (auto simp: cookies_for_def Let_def es_def site_bucket_def sort_key_Nil_iff split: if_splits)
  qed
  ultimately show ?thesis using good by (intro exI [of _ es]) (auto simp: es_def)
qed

end
