(* ===== verification/Jar_Laws.thy ===== *)
theory Jar_Laws
  imports Jar
begin

text \<open>
  What the jar as a whole promises: storing a response refines the map semantics of RFC 6265 while no
  limit is reached, a snapshot restores what it captured, and the properties of the jar with their
  witnesses. Two examples record where the code departs from what its comments say.
\<close>

section \<open>The jar as one map from identities to entries\<close>

definition jar_lookup :: "psl \<Rightarrow> store \<Rightarrow> identity \<rightharpoonup> entry" where
  "jar_lookup psl s k = bucket_abs (site_bucket s (site_of psl (fst (snd k)))) k"

definition response_spec ::
  "externals \<Rightarrow> string \<Rightarrow> string \<Rightarrow> bool \<Rightarrow> system_time \<Rightarrow> header_value
   \<Rightarrow> (identity \<rightharpoonup> entry) \<times> counters \<Rightarrow> (identity \<rightharpoonup> entry) \<times> counters" where
  "response_spec E host path sec now h M =
     (case parse_cookie E h host path sec now of
        None \<Rightarrow> M
      | Some c \<Rightarrow> set_cookie_spec (fst M) c now sec (snd M))"

lemma identity_of_domain [simp]: "fst (snd (identity_of c)) = ck_domain c"
  by (simp add: identity_of_def)

lemma jar_lookup_mem:
  assumes "store_inv (good_entry psl) s"
  shows "jar_lookup psl s k = Some e \<longleftrightarrow> e \<in> set (all_entries s) \<and> entry_id e = k"
proof -
  let ?b = "site_bucket s (site_of psl (fst (snd k)))"
  have "bucket_inv ?b" using site_bucket_ok [OF assms] by (simp add: bucket_ok_def)
  then have "jar_lookup psl s k = Some e \<longleftrightarrow> e \<in> set (bk_entries ?b) \<and> entry_id e = k"
    unfolding jar_lookup_def by (rule bucket_abs_mem)
  also have "\<dots> \<longleftrightarrow> e \<in> set (all_entries s) \<and> entry_id e = k"
    unfolding site_entries [OF assms] by (metis identity_of_domain)
  finally show ?thesis .
qed

lemma site_len_le_total:
  assumes "store_inv P s"
  shows "bucket_len (site_bucket s k) \<le> st_total s"
  using assms sum_delete [of "st_sites s" bucket_len k, folded site_bucket_len]
  by (simp add: store_inv_def)

text \<open>One \<open>Set-Cookie\<close> changes the map at one identity, in a way that depends only on the entry there.\<close>

definition set_cookie_at ::
  "entry option \<Rightarrow> cookie \<Rightarrow> system_time \<Rightarrow> bool \<Rightarrow> counters \<Rightarrow> entry option \<times> counters" where
  "set_cookie_at old c now sec cs =
     (let r = set_cookie_spec (\<lambda>k. old) c now sec cs in (fst r (identity_of c), snd r))"

lemma set_cookie_spec_at:
  "set_cookie_spec M c now sec cs =
     (M(identity_of c := fst (set_cookie_at (M (identity_of c)) c now sec cs)),
      snd (set_cookie_at (M (identity_of c)) c now sec cs))"
  by (simp add: set_cookie_at_def set_cookie_spec_def Let_def)

lemma jar_lookup_update:
  assumes "site_bucket s' = (site_bucket s)(site_of psl (fst (snd k)) := b')"
    and "bucket_abs b' = (bucket_abs (site_bucket s (site_of psl (fst (snd k)))))(k := v)"
  shows "jar_lookup psl s' = (jar_lookup psl s)(k := v)"
proof
  fix x
  show "jar_lookup psl s' x = ((jar_lookup psl s)(k := v)) x"
    unfolding jar_lookup_def assms by (simp add: assms(2))
qed

lemma bucket_len_push: "bucket_len (bucket_push b e) = Suc (bucket_len b)"
  by (simp add: bucket_len_def bucket_push_def)

lemma bucket_len_replace: "bucket_replace b p e = Some b' \<Longrightarrow> bucket_len b' = bucket_len b"
  by (auto simp: bucket_len_def bucket_replace_def bind_eq_Some_conv split: if_splits)

lemma bucket_len_remove: "bucket_remove b p = Some b' \<Longrightarrow> Suc (bucket_len b') = bucket_len b"
  by (auto simp: bucket_len_def bucket_remove_def swap_remove_def Let_def bind_eq_Some_conv
      split: if_splits)

lemma apply_set_cookie_len:
  "apply_set_cookie b c now sec cs = Some (b', cs') \<Longrightarrow> bucket_len b' \<le> Suc (bucket_len b)"
  unfolding apply_set_cookie_def Let_def
  by (auto simp: bucket_len_push bind_eq_Some_conv
      dest!: bucket_len_remove bucket_len_replace split: if_splits option.splits)

lemma store_header_refines:
  assumes law: "to_str_law E" and inv: "store_inv (good_entry (ext_psl E)) s"
    and room: "Suc (st_total s) \<le> per_domain l" and bound: "per_domain l \<le> usize_max"
  shows "\<exists>s' cs' touched'. store_header E l host path sec now h (s, cs, touched) = Some (s', cs', touched')
    \<and> store_inv (good_entry (ext_psl E)) s' \<and> st_total s' \<le> Suc (st_total s)
    \<and> (jar_lookup (ext_psl E) s', cs')
        = response_spec E host path sec now h (jar_lookup (ext_psl E) s, cs)"
proof (cases "parse_cookie E h host path sec now")
  case None
  with inv show ?thesis by (simp add: store_header_def response_spec_def)
next
  case (Some c)
  let ?P = "good_entry (ext_psl E)" and ?k = "site_of (ext_psl E) (ck_domain c)"
  let ?b = "site_bucket s ?k"
  have ok: "bucket_ok ?P ?k ?b" by (rule site_bucket_ok [OF inv])
  then have binv: "bucket_inv ?b" by (simp add: bucket_ok_def)
  obtain b1 cs1 where b1: "apply_set_cookie ?b c now sec cs = Some (b1, cs1)"
    and spec: "(bucket_abs b1, cs1) = set_cookie_spec (bucket_abs ?b) c now sec cs"
    using apply_set_cookie_refines [OF binv] by blast
  have ok1: "bucket_ok ?P ?k b1"
    using apply_set_cookie_ok [OF ok parse_cookie_good [OF law Some], of now sec cs] b1 by auto
  have len: "bucket_len b1 \<le> Suc (bucket_len ?b)" by (rule apply_set_cookie_len [OF b1])
  then have small: "\<not> saturating_mul (per_domain l) 2 < bucket_len b1"
    using room bound site_len_le_total [OF inv, of ?k] by (simp add: saturating_mul_def)
  let ?change = "\<lambda>b. do {
        (b1, cs1) \<leftarrow> apply_set_cookie b c now sec cs;
        Some (if saturating_mul (per_domain l) 2 < bucket_len b1
              then bucket_trim_to E (bucket_remove_expired b1 now) (per_domain l) else b1, cs1) }"
  have "?change ?b = Some (b1, cs1)" using b1 small by simp
  from with_site_ok [where change = ?change and site = ?k, OF inv this ok1] obtain s' where
    s': "with_site s ?k ?change = Some (s', cs1)" "store_inv ?P s'"
      "site_bucket s' = (site_bucket s)(?k := b1)"
      "st_total s' + bucket_len ?b = st_total s + bucket_len b1" by blast
  let ?r = "set_cookie_at (jar_lookup (ext_psl E) s (identity_of c)) c now sec cs"
  have at: "jar_lookup (ext_psl E) s (identity_of c) = bucket_abs ?b (identity_of c)"
    by (simp add: jar_lookup_def)
  have abs: "bucket_abs b1 = (bucket_abs ?b)(identity_of c := fst ?r)" "cs1 = snd ?r"
    using spec unfolding set_cookie_spec_at [of "bucket_abs ?b"] at by (simp_all only: prod.inject)
  have "jar_lookup (ext_psl E) s' = (jar_lookup (ext_psl E) s)(identity_of c := fst ?r)"
    using s'(3) abs(1) by (intro jar_lookup_update) (simp_all only: identity_of_domain)
  then have "(jar_lookup (ext_psl E) s', cs1)
      = set_cookie_spec (jar_lookup (ext_psl E) s) c now sec cs"
    by (simp only: set_cookie_spec_at abs(2))
  with s' len Some show ?thesis
    by (simp add: store_header_def Let_def response_spec_def)
qed

section \<open>Storing a response refines the map semantics\<close>

lemma tidy_touched_noop:
  assumes inv: "store_inv P s" and room: "st_total s \<le> per_domain l"
  shows "\<exists>s'. tidy_touched E l now k s = Some s' \<and> store_inv P s' \<and> site_bucket s' = site_bucket s
    \<and> st_total s' = st_total s"
proof -
  let ?change = "\<lambda>b. Some (if per_domain l < bucket_len b
      then bucket_trim_to E (bucket_remove_expired b now) (domain_purge_target l) else b, ())"
  have "\<not> per_domain l < bucket_len (site_bucket s k)"
    using room site_len_le_total [OF inv, of k] by simp
  then have "?change (site_bucket s k) = Some (site_bucket s k, ())" by simp
  from with_site_ok [where change = ?change and site = k, OF inv this site_bucket_ok [OF inv]]
  show ?thesis by (auto simp: tidy_touched_def)
qed

lemma tidy_all_noop:
  assumes inv: "store_inv P s" and room: "st_total s \<le> per_domain l"
  shows "\<exists>s'. for_each (tidy_touched E l now) ks s = Some s' \<and> store_inv P s'
    \<and> site_bucket s' = site_bucket s \<and> st_total s' = st_total s"
    (is "\<exists>s'. _ = Some s' \<and> ?I s'")
proof (rule for_each_inv [where I = ?I])
  fix k s1 assume "?I s1"
  then show "\<exists>s'. tidy_touched E l now k s1 = Some s' \<and> ?I s'"
    using tidy_touched_noop [of P s1 l E now k] room by auto
qed (use inv in simp)

lemma jar_store_refines:
  assumes law: "to_str_law E" and inv: "jar_inv E j" and g: "origin_of u = Inr g"
    and room: "st_total (jar_entries j) + length hs \<le> per_domain (jar_limits j)"
      "st_total (jar_entries j) + length hs \<le> total_limit (jar_limits j)"
    and bound: "per_domain (jar_limits j) \<le> usize_max"
  shows "\<exists>j'. jar_store E j u hs now = Some j'
    \<and> (jar_lookup (ext_psl E) (jar_entries j'), jar_counters j')
      = fold (response_spec E (origin_host g) (url_path u) (is_secure g) now) hs
          (jar_lookup (ext_psl E) (jar_entries j), jar_counters j)"
proof -
  let ?l = "jar_limits j" and ?P = "good_entry (ext_psl E)" and ?look = "jar_lookup (ext_psl E)"
  let ?step = "store_header E ?l (origin_host g) (url_path u) (is_secure g) now"
  let ?spec = "response_spec E (origin_host g) (url_path u) (is_secure g) now"
  let ?I = "\<lambda>pre st. store_inv ?P (fst st)
      \<and> st_total (fst st) \<le> st_total (jar_entries j) + length pre
      \<and> (?look (fst st), fst (snd st)) = fold ?spec pre (?look (jar_entries j), jar_counters j)"
  have "\<exists>st. for_each ?step hs (jar_entries j, jar_counters j, []) = Some st \<and> ?I hs st"
  proof (rule for_each_prefix [where I = ?I])
    fix pre h post and st :: "store \<times> counters \<times> string list"
    assume hs: "hs = pre @ h # post" and I: "?I pre st"
    obtain s cs touched where st: "st = (s, cs, touched)" by (cases st)
    have "Suc (st_total s) \<le> per_domain ?l" using I st hs room(1) by simp
    from store_header_refines [OF law _ this bound, of "origin_host g" "url_path u" "is_secure g" now h cs
        touched] I st
    show "\<exists>st'. ?step h st = Some st' \<and> ?I (pre @ [h]) st'" by fastforce
  qed (use inv in \<open>simp add: jar_inv_def\<close>)
  then obtain s cs touched
    where loop: "for_each ?step hs (jar_entries j, jar_counters j, []) = Some (s, cs, touched)"
      and I: "?I hs (s, cs, touched)" by auto
  then obtain s1 where s1: "for_each (tidy_touched E ?l now) touched s = Some s1"
    "site_bucket s1 = site_bucket s" "st_total s1 = st_total s"
    using tidy_all_noop [of ?P s ?l E now touched] room(1) by auto
  then have "enforce_total s1 now (total_limit ?l) (purge_target ?l) = Some s1"
    using I room(2) by (simp add: enforce_total_def)
  moreover have "?look s1 = ?look s" using s1(2) by (simp add: jar_lookup_def fun_eq_iff)
  ultimately show ?thesis using loop s1(1) g I by (simp add: jar_store_def)
qed

lemma response_spec_secure:
  assumes "M k = Some e" and "ck_secure (en_cookie e)"
  shows "fst (response_spec E host path False now h (M, cs)) k = Some e"
  using assms by (auto simp: response_spec_def set_cookie_spec_def Let_def split: option.splits)

lemma fold_response_spec_secure:
  assumes "fst st k = Some e" and "ck_secure (en_cookie e)"
  shows "fst (fold (response_spec E host path False now) hs st) k = Some e"
  using assms
proof (induction hs arbitrary: st)
  case (Cons h hs)
  then show ?case using response_spec_secure [of "fst st" k e E host path now h "snd st"] by simp
qed simp

section \<open>A snapshot restores what it captured\<close>

text \<open>A snapshot keeps times in whole seconds: the fraction of a second is dropped, towards the epoch.\<close>

definition whole_second :: "system_time \<Rightarrow> system_time" where
  "whole_second t = sgn t * (\<bar>t\<bar> - \<bar>t\<bar> mod 1000000000)"

definition rounded :: "entry \<Rightarrow> entry" where
  "rounded e = e\<lparr>en_cookie := (en_cookie e)\<lparr>ck_expires := map_option whole_second (ck_expires (en_cookie e))\<rparr>\<rparr>"

lemma whole_second_trip: "epoch_seconds_to_system_time (system_time_to_epoch_seconds t) = whole_second t"
proof (cases "0 \<le> t")
  case True
  then have "int (nat t div nanos_per_sec) * 1000000000 = t - t mod 1000000000"
    by (simp add: nanos_per_sec_def zdiv_int minus_mod_eq_div_mult)
  then show ?thesis using True
    by (cases "t = 0") (simp_all add: whole_second_def epoch_seconds_to_system_time_def system_time_to_epoch_seconds_def
        duration_since_def as_secs_def nanos_per_sec_def sgn_if)
next
  case False
  then have "int (nat (- t) div nanos_per_sec) * 1000000000 = - t - (- t) mod 1000000000"
    by (simp add: nanos_per_sec_def zdiv_int minus_mod_eq_div_mult)
  then show ?thesis using False
    by (simp add: whole_second_def epoch_seconds_to_system_time_def system_time_to_epoch_seconds_def
        duration_since_def as_secs_def nanos_per_sec_def sgn_if)
qed

lemma entry_of_record_of_entry: "entry_of_record (record_of_entry e) = rounded e"
  by (cases e; cases "en_cookie e")
    (simp add: entry_of_record_def record_of_entry_def rounded_def Let_def option.map_comp comp_def whole_second_trip)

lemma lapsed_iff: "is_expired (en_cookie e) now \<longleftrightarrow> lapsed e now"
  by (auto simp: is_expired_def lapsed_def split: option.splits)

lemma rounded_simps [simp]:
  "entry_id (rounded e) = entry_id e" "ck_domain (en_cookie (rounded e)) = ck_domain (en_cookie e)"
  by (simp_all add: rounded_def identity_of_def)

lemma record_admissible_of_entry:
  assumes "good_entry psl k e"
  shows "record_admissible (record_of_entry e) now \<longleftrightarrow> \<not> is_expired (en_cookie (rounded e)) now"
  using assms by (simp add: record_admissible_def good_entry_def entry_of_record_of_entry)
    (simp add: record_of_entry_def Let_def)

lemma import_record_lookup:
  assumes inv: "store_inv (good_entry (ext_psl E)) s" and adm: "record_admissible r now"
  shows "\<exists>s' cs'. import_record E now r (s, cs) = Some (s', cs')
    \<and> store_inv (good_entry (ext_psl E)) s'
    \<and> jar_lookup (ext_psl E) s'
      = (jar_lookup (ext_psl E) s)(entry_id (entry_of_record r) \<mapsto> entry_of_record r)"
proof -
  obtain s' cs' b' where "import_record E now r (s, cs) = Some (s', cs')"
    "store_inv (good_entry (ext_psl E)) s'"
    and s': "site_bucket s' = (site_bucket s)
        (site_of (ext_psl E) (ck_domain (en_cookie (entry_of_record r))) := b')"
    and abs: "bucket_abs b' = (bucket_abs (site_bucket s
        (site_of (ext_psl E) (ck_domain (en_cookie (entry_of_record r))))))
        (entry_id (entry_of_record r) \<mapsto> entry_of_record r)"
    using import_record_step [OF assms, of cs] by blast
  moreover have "jar_lookup (ext_psl E) s'
      = (jar_lookup (ext_psl E) s)(entry_id (entry_of_record r) \<mapsto> entry_of_record r)"
    using s' abs by (intro jar_lookup_update) (simp_all only: identity_of_domain)
  ultimately show ?thesis by blast
qed

abbreviation survivors :: "system_time \<Rightarrow> entry list \<Rightarrow> entry list" where
  "survivors now es \<equiv> filter (\<lambda>e. \<not> is_expired (en_cookie e) now) (map rounded es)"

lemma import_entries:
  assumes inv: "store_inv (good_entry (ext_psl E)) s"
    and es: "\<forall>e \<in> set es. \<exists>k. good_entry (ext_psl E) k e"
  shows "\<exists>s' cs'. for_each (import_record E now) (map record_of_entry es) (s, cs) = Some (s', cs')
    \<and> store_inv (good_entry (ext_psl E)) s'
    \<and> jar_lookup (ext_psl E) s' = fold (\<lambda>e m. m(entry_id e \<mapsto> e)) (survivors now es) (jar_lookup (ext_psl E) s)"
  using assms
proof (induction es arbitrary: s cs)
  case (Cons e es)
  show ?case
  proof (cases "is_expired (en_cookie (rounded e)) now")
    case True
    then have "\<not> record_admissible (record_of_entry e) now" using Cons.prems(2) record_admissible_of_entry by auto
    then have "import_record E now (record_of_entry e) (s, cs) = Some (s, cs)" by (simp add: import_record_def)
    then show ?thesis using Cons.IH [OF Cons.prems(1), of cs] Cons.prems(2) True by simp
  next
    case False
    then have adm: "record_admissible (record_of_entry e) now" using Cons.prems(2) record_admissible_of_entry by auto
    obtain s1 cs1 where 1: "import_record E now (record_of_entry e) (s, cs) = Some (s1, cs1)"
      "store_inv (good_entry (ext_psl E)) s1"
      "jar_lookup (ext_psl E) s1 = (jar_lookup (ext_psl E) s)(entry_id e \<mapsto> rounded e)"
      using import_record_lookup [OF Cons.prems(1) adm, of cs] by (auto simp: entry_of_record_of_entry)
    from Cons.IH [OF 1(2), of cs1] Cons.prems(2) 1 False show ?thesis by simp
  qed
qed simp

lemma fold_upd_map_of:
  assumes "distinct (map entry_id es)"
  shows "fold (\<lambda>e m. m(entry_id e \<mapsto> e)) es Map.empty k = Some x \<longleftrightarrow> x \<in> set es \<and> entry_id x = k"
  using assms
proof (induction es rule: rev_induct)
  case (snoc e es)
  then show ?case by (auto simp: image_iff)
qed simp

text \<open>Sizes: the entries of a jar are distinct, so a total is a cardinality.\<close>

lemma distinct_all_entries:
  assumes "store_inv (good_entry psl) s"
  shows "distinct (map entry_id (all_entries s))" and "st_total s = card (set (all_entries s))"
proof -
  have "distinct (map entry_id (concat (map (bk_entries \<circ> snd) sites)))"
    if "distinct (map fst sites)" "\<forall>(k, b) \<in> set sites. bucket_ok (good_entry psl) k b" for sites
    using that
  proof (induction sites)
    case (Cons x sites)
    obtain k b where x: "x = (k, b)" by force
    let ?rest = "concat (map (bk_entries \<circ> snd) sites)"
    have "entry_id ` set (bk_entries b) \<inter> entry_id ` set ?rest = {}"
    proof (rule ccontr)
      assume "entry_id ` set (bk_entries b) \<inter> entry_id ` set ?rest \<noteq> {}"
      then obtain e f where "e \<in> set (bk_entries b)" "f \<in> set ?rest" "entry_id e = entry_id f"
        by (elim ex_in_conv [THEN iffD2, THEN exE] IntE imageE) metis
      then obtain k' b' where ef: "e \<in> set (bk_entries b)" "(k', b') \<in> set sites"
        "f \<in> set (bk_entries b')" "entry_id e = entry_id f" by auto
      have "site_of psl (ck_domain (en_cookie e)) = k" "site_of psl (ck_domain (en_cookie f)) = k'"
        using Cons.prems(2) ef x by (auto simp: bucket_ok_def good_entry_def)
      moreover have "k \<noteq> k'" using Cons.prems(1) ef(2) x by force
      ultimately show False using ef(4) by (metis identity_of_domain)
    qed
    moreover have "distinct (map entry_id (bk_entries b))"
      using Cons.prems(2) x bucket_distinct by (auto simp: bucket_ok_def)
    moreover have "distinct (map entry_id ?rest)" using Cons by (simp add: comp_def)
    ultimately show ?case by (simp add: x comp_def)
  qed simp
  then show d: "distinct (map entry_id (all_entries s))"
    using assms by (auto simp: store_inv_def all_entries_def)
  have "length (all_entries s) = st_total s"
    using assms by (simp add: store_inv_def all_entries_def length_concat bucket_len_def comp_def)
  then show "st_total s = card (set (all_entries s))"
    using d by (metis distinct_card distinct_map)
qed

lemma jar_lookup_default: "jar_lookup psl store_default = Map.empty"
  by (simp add: fun_eq_iff jar_lookup_def store_default_def site_bucket_def bucket_default_abs)

lemma bucket_len_card:
  assumes "bucket_inv b"
  shows "bucket_len b = card (set (bk_entries b))"
  using bucket_distinct [OF assms] by (simp add: bucket_len_def distinct_card distinct_map)

lemma tidy_unexpired_noop:
  assumes inv: "store_inv P s" and live: "\<forall>e \<in> set (all_entries s). \<not> is_expired (en_cookie e) now"
    and limit: "within_limit n s"
  shows "site_bucket (tidy_every_site E s now n) = site_bucket s"
proof
  fix k
  let ?b = "site_bucket s k"
  have "filter (\<lambda>e. \<not> is_expired (en_cookie e) now) (bk_entries ?b) = bk_entries ?b"
    using live all_entries_site [OF inv] by (auto simp: filter_id_conv)
  then have "bucket_remove_expired ?b now = ?b" by (simp add: bucket_remove_expired_def)
  then show "site_bucket (tidy_every_site E s now n) k = ?b"
    using limit by (simp add: tidy_site_bucket [OF inv] within_limit_def bucket_trim_to_def bucket_len_def)
qed

lemma imported_fits:
  assumes s: "store_inv (good_entry (ext_psl E)) s" and s0: "store_inv (good_entry (ext_psl E)) s0"
    and sub: "set (all_entries s) \<subseteq> rounded ` set (all_entries s0)"
  shows "bucket_len (site_bucket s k) \<le> bucket_len (site_bucket s0 k)" and "st_total s \<le> st_total s0"
proof -
  have "set (bk_entries (site_bucket s k)) \<subseteq> rounded ` set (bk_entries (site_bucket s0 k))"
  proof
    fix e assume "e \<in> set (bk_entries (site_bucket s k))"
    then have e: "e \<in> set (all_entries s)" "site_of (ext_psl E) (ck_domain (en_cookie e)) = k"
      using site_entries [OF s] by blast+
    then obtain e0 where "e0 \<in> set (all_entries s0)" "e = rounded e0" using sub by blast
    with e(2) show "e \<in> rounded ` set (bk_entries (site_bucket s0 k))" using site_entries [OF s0] by simp
  qed
  then have "card (set (bk_entries (site_bucket s k))) \<le> card (set (bk_entries (site_bucket s0 k)))"
    by (rule surj_card_le [OF finite_set])
  then show "bucket_len (site_bucket s k) \<le> bucket_len (site_bucket s0 k)"
    using bucket_len_card site_bucket_ok [OF s] site_bucket_ok [OF s0] by (simp add: bucket_ok_def)
  have "card (set (all_entries s)) \<le> card (set (all_entries s0))"
    using sub by (rule surj_card_le [OF finite_set])
  then show "st_total s \<le> st_total s0"
    using distinct_all_entries(2) [OF s] distinct_all_entries(2) [OF s0] by simp
qed

lemma option_extI: "(\<And>v. x = Some v \<longleftrightarrow> y = Some v) \<Longrightarrow> x = y"
  by (cases x; cases y) auto

lemma snapshot_restores:
  assumes inv: "jar_inv E j"
  shows "\<exists>j'. import_jar E (with_limits (jar_limits j)) (export_jar j now) now = Some j'
    \<and> (\<forall>k. jar_lookup (ext_psl E) (jar_entries j') k =
          (case jar_lookup (ext_psl E) (jar_entries j) k of
             Some e \<Rightarrow> (if is_expired (en_cookie e) now \<or> is_expired (en_cookie (rounded e)) now then None else Some (rounded e))
           | None \<Rightarrow> None))"
proof -
  let ?P = "good_entry (ext_psl E)" and ?l = "jar_limits j" and ?s0 = "jar_entries j"
  let ?look = "jar_lookup (ext_psl E)"
  define es where "es = filter (\<lambda>e. \<not> is_expired (en_cookie e) now) (all_entries ?s0)"
  have s0: "store_inv ?P ?s0" using inv by (simp add: jar_inv_def)
  have good: "\<forall>e \<in> set es. \<exists>k. ?P k e"
    using site_bucket_ok [OF s0] all_entries_site [OF s0] by (fastforce simp: es_def bucket_ok_def)
  obtain s cs where loop: "for_each (import_record E now) (map record_of_entry es)
      (store_default, jar_counters (with_limits ?l)) = Some (s, cs)"
    and s: "store_inv ?P s" and look: "?look s = fold (\<lambda>e m. m(entry_id e \<mapsto> e)) (survivors now es) Map.empty"
    using import_entries [where E = E and now = now and cs = "jar_counters (with_limits ?l)", OF store_default_inv good]
    by (auto simp: jar_lookup_default)
  have "distinct (map entry_id (map rounded es))"
    using distinct_all_entries(1) [OF s0] by (simp add: es_def distinct_map_filter comp_def)
  then have dist: "distinct (map entry_id (survivors now es))" by (rule distinct_map_filter)
  have mem: "?look s k = Some e \<longleftrightarrow> e \<in> set (survivors now es) \<and> entry_id e = k" for k e
    unfolding look by (rule fold_upd_map_of [OF dist])
  have all: "set (all_entries s) = set (survivors now es)" using jar_lookup_mem [OF s] mem by blast
  note fits = imported_fits [OF s s0]
  have sub: "set (all_entries s) \<subseteq> rounded ` set (all_entries ?s0)" unfolding all by (auto simp: es_def)
  have limit: "within_limit (per_domain ?l) s"
    using fits(1) [OF sub] inv unfolding jar_inv_def within_limit_def by (meson order_trans)
  let ?t = "tidy_every_site E s now (per_domain ?l)"
  have bks: "site_bucket ?t = site_bucket s"
    by (rule tidy_unexpired_noop [OF s _ limit]) (simp add: all)
  have t: "store_inv ?P ?t" by (rule tidy_every_site_inv [OF s])
  have "set (all_entries ?t) = set (all_entries s)"
    using all_entries_site [OF t] all_entries_site [OF s] bks by auto
  then have "st_total ?t \<le> st_total ?s0" using imported_fits(2) [OF t s0] sub by simp
  then have "enforce_total ?t now (total_limit ?l) (purge_target ?l) = Some ?t"
    using inv by (simp add: enforce_total_def jar_inv_def)
  moreover have lt: "?look ?t = ?look s" using bks by (simp add: jar_lookup_def fun_eq_iff)
  moreover have "export_jar j now = map record_of_entry es"
    by (simp add: export_jar_def es_def all_entries_def)
  ultimately have imp: "import_jar E (with_limits ?l) (export_jar j now) now
      = Some ((with_limits ?l)\<lparr>jar_entries := ?t, jar_counters := cs\<rparr>)"
    using loop by (simp add: import_jar_def with_limits_def Let_def)
  have "?look ?t k = Some e \<longleftrightarrow> (\<exists>e0. ?look ?s0 k = Some e0 \<and> \<not> is_expired (en_cookie e0) now
      \<and> \<not> is_expired (en_cookie (rounded e0)) now \<and> e = rounded e0)" for k e
    unfolding lt mem using jar_lookup_mem [OF s0] by (auto simp: es_def)
  then have "?look ?t k = (case ?look ?s0 k of
             Some e \<Rightarrow> (if is_expired (en_cookie e) now \<or> is_expired (en_cookie (rounded e)) now then None else Some (rounded e))
           | None \<Rightarrow> None)" for k
    by (intro option_extI) (simp split: option.splits, blast)
  with imp show ?thesis by auto
qed

section \<open>A concrete jar\<close>

definition sample_url :: "string \<Rightarrow> nat \<Rightarrow> string \<Rightarrow> url" where
  "sample_url scheme port host =
     \<lparr>url_scheme = scheme, url_username = [], url_password = None, url_host_str = Some host,
      url_port_or_known_default = Some port, url_path = ''/a'', url_query = None, url_fragment = None\<rparr>"

abbreviation https_url :: url where
  "https_url \<equiv> sample_url ''https'' 443 ''www.example.com''"

abbreviation http_url :: url where
  "http_url \<equiv> sample_url ''http'' 80 ''www.example.com''"

definition sample_jar :: "jar option" where
  "sample_jar =
     jar_store sample_externals (with_limits \<lparr>per_domain = 1, total_limit = 5\<rparr>) https_url
       [''sid=1; Secure''] 0"

lemma sample_jar_lookup:
  "map_option (\<lambda>j. fst (cookies_for sample_externals j https_url conservative_default 0)) sample_jar
     = Some (Some ''sid=1'')"
  by code_simp

lemma sample_jar_reachable:
  obtains j where "sample_jar = Some j" and "jar_reachable sample_externals j"
    and "jar_limits j = \<lparr>per_domain = 1, total_limit = 5\<rparr>"
proof -
  have inv: "jar_inv sample_externals (with_limits \<lparr>per_domain = 1, total_limit = 5\<rparr>)"
    by (rule with_limits_inv)
  obtain j where j: "sample_jar = Some j" "jar_limits j = \<lparr>per_domain = 1, total_limit = 5\<rparr>"
    using jar_store_ok [OF sample_laws(1,3) inv] unfolding sample_jar_def
    by (force simp: with_limits_def)
  have "jar_reachable sample_externals j"
    using jar_reachable.stored [OF jar_reachable.created j(1) [unfolded sample_jar_def]] .
  with j show ?thesis by (intro that)
qed

section \<open>Where the code departs from its comments\<close>

text \<open>A plaintext response cannot overwrite or delete a \<open>Secure\<close> cookie, but it can push one out: the
  capacity limits rank entries by last access alone.\<close>

lemma plaintext_response_evicts_secure_cookie:
  "do {
     j1 \<leftarrow> sample_jar;
     j2 \<leftarrow> jar_store sample_externals j1 http_url [''other=2''] 0;
     fst (cookies_for sample_externals j2 https_url conservative_default 0)
   } = Some ''other=2''"
  by code_simp

text \<open>Cookies of one response need not share a bucket. With a suffix list that has a rule below another
  registrable domain, a \<open>Domain\<close> cookie is filed under the parent while lookups for the host that set
  it read the child, so the cookie is accepted and never sent back.\<close>

definition nested_suffix_externals :: externals where
  "nested_suffix_externals = sample_externals
     \<lparr>ext_psl := (\<lambda>h. if domain_matches h ''b.s3.cloud.com'' then Some ''b.s3.cloud.com''
                       else if h = ''s3.cloud.com'' then None
                       else if domain_matches h ''cloud.com'' then Some ''cloud.com'' else None)\<rparr>"

lemma nested_suffix_cookie_is_lost:
  "do {
     j \<leftarrow> jar_store nested_suffix_externals new_jar (sample_url ''https'' 443 ''b.s3.cloud.com'')
            [''k=v; Domain=cloud.com; Path=/''] 0;
     Some (st_total (jar_entries j),
           fst (cookies_for nested_suffix_externals j (sample_url ''https'' 443 ''b.s3.cloud.com'')
                  conservative_default 0))
   } = Some (1, None)"
  by code_simp

section \<open>Properties\<close>

text \<open>C1: A jar never panics and never exceeds its limits. In every state reachable by any sequence of
  \<open>store\<close>, \<open>import\<close> and \<open>cookies_for\<close> calls, each registrable domain holds at most \<open>per_domain\<close>
  cookies, the whole jar at most \<open>total\<close>, the running total is the sum over the buckets, every
  bucket's index is exact, and the next \<open>store\<close> or \<open>import\<close>, whatever its arguments, returns.\<close>
theorem jar_never_panics_and_stays_bounded:
  assumes "jar_reachable E j" and "to_str_law E" and "select_law E"
  shows "(\<forall>k. bucket_inv (site_bucket (jar_entries j) k)
        \<and> bucket_len (site_bucket (jar_entries j) k) \<le> per_domain (jar_limits j))
    \<and> st_total (jar_entries j) = sum_list (map (bucket_len \<circ> snd) (st_sites (jar_entries j)))
    \<and> st_total (jar_entries j) \<le> total_limit (jar_limits j)
    \<and> jar_store E j u headers now \<noteq> None \<and> import_jar E j snapshot now \<noteq> None"
proof -
  have inv: "jar_inv E j" using assms by (rule jar_reachable_inv)
  then have "store_inv (good_entry (ext_psl E)) (jar_entries j)" by (simp add: jar_inv_def)
  from site_bucket_ok [OF this] inv show ?thesis
    using jar_store_ok [OF assms(2,3) inv, of u headers now] import_jar_ok [OF assms(3) inv, of snapshot now]
    by (auto simp: jar_inv_def within_limit_def bucket_ok_def store_inv_def)
qed

theorem jar_never_panics_and_stays_bounded_witness:
  "\<exists>j. sample_jar = Some j \<and> jar_reachable sample_externals j \<and> st_total (jar_entries j) \<le> 5
     \<and> jar_store sample_externals j http_url [''a=1'', ''b=2'', ''; bad''] 7 \<noteq> None"
proof -
  obtain j where j: "sample_jar = Some j" "jar_reachable sample_externals j"
    "jar_limits j = \<lparr>per_domain = 1, total_limit = 5\<rparr>" by (rule sample_jar_reachable)
  from jar_never_panics_and_stays_bounded [OF j(2) sample_laws(1,3), of http_url
      "[''a=1'', ''b=2'', ''; bad'']" 7 "[]"] j
  show ?thesis by (intro exI [of _ j]) auto
qed

text \<open>C6: Both ways into the jar keep the name-prefix promise and the header syntax. In every reachable
  jar each stored cookie has a non-empty name and a value of header-safe characters without \<open>;\<close>, no
  \<open>=\<close> in the name, and a \<open>__Secure-\<close> or \<open>__Host-\<close> name only with the attributes the prefix promises;
  it lies in the bucket of its own site.\<close>
theorem stored_cookies_are_sound:
  assumes "jar_reachable E j" and "to_str_law E" and "select_law E"
    and "e \<in> set (all_entries (jar_entries j))"
  shows "is_representable (ck_name (en_cookie e)) (ck_value (en_cookie e))
    \<and> keeps_name_prefix_promise (ck_name (en_cookie e)) (ck_secure (en_cookie e))
        (ck_host_only (en_cookie e)) (ck_path (en_cookie e))
    \<and> e \<in> set (bk_entries (site_bucket (jar_entries j)
          (site_of (ext_psl E) (ck_domain (en_cookie e)))))"
proof -
  have "store_inv (good_entry (ext_psl E)) (jar_entries j)"
    using jar_reachable_inv [OF assms(1-3)] by (simp add: jar_inv_def)
  then have mem: "e \<in> set (bk_entries (site_bucket (jar_entries j)
        (site_of (ext_psl E) (ck_domain (en_cookie e)))))"
    and "bucket_ok (good_entry (ext_psl E)) (site_of (ext_psl E) (ck_domain (en_cookie e)))
        (site_bucket (jar_entries j) (site_of (ext_psl E) (ck_domain (en_cookie e))))"
    using assms(4) by (simp_all add: site_entries site_bucket_ok)
  then have "good_entry (ext_psl E) (site_of (ext_psl E) (ck_domain (en_cookie e))) e"
    unfolding bucket_ok_def by blast
  with mem show ?thesis by (simp add: good_entry_def)
qed

theorem stored_cookies_are_sound_witness:
  "\<exists>j. sample_jar = Some j \<and> all_entries (jar_entries j) \<noteq> []
     \<and> is_representable (ck_name (en_cookie (hd (all_entries (jar_entries j)))))
         (ck_value (en_cookie (hd (all_entries (jar_entries j)))))"
proof -
  obtain j where j: "sample_jar = Some j" "jar_reachable sample_externals j" by (rule sample_jar_reachable)
  have "map_option (\<lambda>j. all_entries (jar_entries j) \<noteq> []) sample_jar = Some True" by code_simp
  then have ne: "all_entries (jar_entries j) \<noteq> []" unfolding j(1) by simp
  from stored_cookies_are_sound [OF j(2) sample_laws(1,3) hd_in_set [OF this]] j(1) ne
  show ?thesis by auto
qed

text \<open>The order RFC 6265 asks for: longer paths first, older cookies first among equal lengths.\<close>

definition rfc_order :: "entry \<Rightarrow> entry \<Rightarrow> bool" where
  "rfc_order a b \<longleftrightarrow> length (ck_path (en_cookie b)) < length (ck_path (en_cookie a))
     \<or> length (ck_path (en_cookie a)) = length (ck_path (en_cookie b)) \<and> en_creation_seq a \<le> en_creation_seq b"

text \<open>Which cookies a request may carry: not expired, \<open>Secure\<close> ones only over a secure transport, in scope of
  domain and path, and by \<open>SameSite\<close>.\<close>

definition eligible :: "psl \<Rightarrow> url \<Rightarrow> origin \<Rightarrow> cookie_context \<Rightarrow> system_time \<Rightarrow> cookie \<Rightarrow> bool" where
  "eligible psl u g ctx now c \<longleftrightarrow>
     (\<forall>t. ck_expires c = Some t \<longrightarrow> now < t)
     \<and> (ck_secure c \<longrightarrow> is_secure g)
     \<and> (origin_host g = ck_domain c \<or> \<not> ck_host_only c \<and> domain_matches (origin_host g) (ck_domain c))
     \<and> path_matches (url_path u) (ck_path c)
     \<and> (ck_same_site c = SameSiteNone
        \<or> ck_same_site c = Lax \<and> cc_top_level_navigation ctx
        \<or> (\<exists>i. cc_initiator ctx = Some i \<and> is_same_site psl (origin_host i) (origin_host g)))"

lemma sorted_rfc_order: "sorted (map header_order es) \<longleftrightarrow> sorted_wrt rfc_order es"
proof -
  have "(\<lambda>a b. header_order a \<le> header_order b) = rfc_order"
    by (auto simp: fun_eq_iff header_order_def rfc_order_def less_eq_prod_def)
  then show ?thesis by (simp add: sorted_map)
qed

lemma eligible_iff:
  "eligible (ext_psl E) u g ctx now (en_cookie e) \<longleftrightarrow> entry_matches E (origin_host g) (url_path u) (is_secure g) ctx now e"
  by (cases "ck_same_site (en_cookie e)")
    (auto simp: eligible_def entry_matches_def is_expired_def applies_to_def same_site_eligible_def domain_matches_def Let_def
      split: option.splits if_splits)

text \<open>C3: A lookup sends exactly the right cookies, in the right order, and a server reads them back. The
  header lists every stored cookie of the request's site that has not expired, is in scope by transport,
  domain and path and is allowed by \<open>SameSite\<close>, and no other, longer paths first and older cookies first
  among equal lengths; there is no header when there is no such cookie. Splitting the header at semicolons and equals signs gives back each
  name and value, so no cookie can smuggle in another, and the fallback for unrepresentable cookies is
  never taken.\<close>
theorem lookup_sends_exactly_the_eligible_cookies:
  assumes "jar_reachable E j" and "to_str_law E" and "from_str_law E" and "select_law E"
    and "origin_of u = Inr g"
  shows "\<exists>es. distinct es \<and> sorted_wrt rfc_order es
    \<and> (\<forall>e. e \<in> set es \<longleftrightarrow> e \<in> set (all_entries (jar_entries j))
          \<and> is_same_site (ext_psl E) (ck_domain (en_cookie e)) (origin_host g)
          \<and> eligible (ext_psl E) u g ctx now (en_cookie e))
    \<and> fst (cookies_for E j u ctx now) = (if es = [] then None else Some (join_pairs es))
    \<and> (es \<noteq> [] \<longrightarrow> server_pairs (join_pairs es)
          = map (\<lambda>e. Some (ck_name (en_cookie e), ck_value (en_cookie e))) es)"
proof -
  obtain header j' where r: "cookies_for E j u ctx now = (header, j')" by force
  have inv: "jar_inv E j" using assms(1,2,4) by (rule jar_reachable_inv)
  from cookies_for_Some [OF inv assms(3,5) r] obtain es where
    es: "distinct es" "sorted (map header_order es)"
      "set es = {e \<in> set (all_entries (jar_entries j)).
         site_of (ext_psl E) (ck_domain (en_cookie e)) = site_of (ext_psl E) (origin_host g)
         \<and> entry_matches E (origin_host g) (url_path u) (is_secure g) ctx now e}"
      "header = (if es = [] then None else Some (join_pairs es))"
    and good: "\<forall>e \<in> set es. \<exists>k. good_entry (ext_psl E) k e" by auto
  have "\<forall>e \<in> set es. good_entry (ext_psl E) (site_of (ext_psl E) (origin_host g)) e"
    using good es(3) by (auto simp: good_entry_def)
  then have "es \<noteq> [] \<longrightarrow> server_pairs (join_pairs es)
      = map (\<lambda>e. Some (ck_name (en_cookie e), ck_value (en_cookie e))) es"
    using server_pairs_join by blast
  with es r show ?thesis
    by (intro exI [of _ es]) (auto simp: eligible_iff is_same_site_def sorted_rfc_order)
qed

definition ordered_jar :: "jar option" where
  "ordered_jar =
     jar_store sample_externals (with_limits \<lparr>per_domain = 4, total_limit = 5\<rparr>) https_url
       [''old=1; Path=/'', ''new=2; Path=/'', ''deep=3; Path=/a''] 0"

lemma ordered_jar_reachable: "ordered_jar = Some j \<Longrightarrow> jar_reachable sample_externals j"
  unfolding ordered_jar_def by (rule jar_reachable.stored [OF jar_reachable.created])

theorem lookup_sends_exactly_the_eligible_cookies_witness:
  "\<exists>j es. ordered_jar = Some j
     \<and> fst (cookies_for sample_externals j https_url conservative_default 0) = Some ''deep=3; old=1; new=2''
     \<and> fst (cookies_for sample_externals j https_url conservative_default 0) = Some (join_pairs es)
     \<and> sorted_wrt rfc_order es \<and> map (ck_name \<circ> en_cookie) es = [''deep'', ''old'', ''new'']"
proof -
  have h': "map_option (\<lambda>j. fst (cookies_for sample_externals j https_url conservative_default 0)) ordered_jar
      = Some (Some ''deep=3; old=1; new=2'')" by code_simp
  then obtain j where j: "ordered_jar = Some j"
    and h: "fst (cookies_for sample_externals j https_url conservative_default 0) = Some ''deep=3; old=1; new=2''"
    by auto
  have g: "origin_of https_url
      = Inr \<lparr>origin_scheme = ''https'', origin_host = ''www.example.com'', origin_port = 443\<rparr>"
    and sp: "server_pairs ''deep=3; old=1; new=2''
      = [Some (''deep'', ''3''), Some (''old'', ''1''), Some (''new'', ''2'')]"
    by code_simp+
  from lookup_sends_exactly_the_eligible_cookies [OF ordered_jar_reachable [OF j] sample_laws g, of conservative_default 0]
  obtain es where es: "fst (cookies_for sample_externals j https_url conservative_default 0)
      = (if es = [] then None else Some (join_pairs es))" "sorted_wrt rfc_order es"
    "es \<noteq> [] \<longrightarrow> server_pairs (join_pairs es)
      = map (\<lambda>e. Some (ck_name (en_cookie e), ck_value (en_cookie e))) es" by blast
  with h have ne: "es \<noteq> []" "join_pairs es = ''deep=3; old=1; new=2''" by (auto split: if_splits)
  with es(3) sp have "map (\<lambda>e. Some (ck_name (en_cookie e), ck_value (en_cookie e))) es
      = [Some (''deep'', ''3''), Some (''old'', ''1''), Some (''new'', ''2'')]" by simp
  from arg_cong [OF this, of "map (fst \<circ> the)"] have "map (ck_name \<circ> en_cookie) es = [''deep'', ''old'', ''new'']"
    by (simp add: comp_def)
  with j h ne es(2) show ?thesis by (intro exI [of _ j] exI [of _ es]) simp
qed

text \<open>C2: While no limit is reached, storing a response is the map semantics of RFC 6265 and nothing else:
  if the cookies already in the jar and the headers of the response together fit under both limits,
  \<open>store\<close> returns and the resulting jar, read as one map from identities to entries, is the old map with
  the accepted headers applied in order; the sequence counters advance accordingly.\<close>
theorem storing_refines_rfc_semantics:
  assumes "jar_reachable E j" and "to_str_law E" and "select_law E" and "origin_of u = Inr g"
    and "st_total (jar_entries j) + length headers
           \<le> min (per_domain (jar_limits j)) (total_limit (jar_limits j))"
    and "per_domain (jar_limits j) \<le> usize_max"
  shows "\<exists>j'. jar_store E j u headers now = Some j'
    \<and> (jar_lookup (ext_psl E) (jar_entries j'), jar_counters j')
      = fold (response_spec E (origin_host g) (url_path u) (is_secure g) now) headers
          (jar_lookup (ext_psl E) (jar_entries j), jar_counters j)"
  using jar_store_refines [OF assms(2) jar_reachable_inv [OF assms(1-3)] assms(4)] assms(5,6) by simp

lemma default_room:
  "st_total (jar_entries new_jar) + length [''a=1'', ''a=2'']
     \<le> min (per_domain (jar_limits new_jar)) (total_limit (jar_limits new_jar))"
  "per_domain (jar_limits new_jar) \<le> usize_max"
  by code_simp+

lemma http_origin:
  "origin_of http_url = Inr \<lparr>origin_scheme = ''http'', origin_host = ''www.example.com'', origin_port = 80\<rparr>"
  by code_simp

lemma new_jar_reachable: "jar_reachable E new_jar"
  unfolding new_jar_def by (rule jar_reachable.created)

theorem storing_refines_rfc_semantics_witness:
  "\<exists>j'. jar_store sample_externals new_jar http_url [''a=1'', ''a=2''] 0 = Some j'
     \<and> (jar_lookup (ext_psl sample_externals) (jar_entries j'), jar_counters j')
       = fold (response_spec sample_externals ''www.example.com'' ''/a'' False 0) [''a=1'', ''a=2'']
           (Map.empty, \<lparr>next_creation_seq = 0, next_access_seq = 0\<rparr>)"
  using storing_refines_rfc_semantics [OF new_jar_reachable sample_laws(1,3) http_origin default_room, of 0]
  by (simp add: new_jar_def with_limits_def jar_lookup_default is_secure_def) (simp add: sample_url_def)

text \<open>C7: A plaintext response cannot overwrite, downgrade or delete a \<open>Secure\<close> cookie: as long as the
  response fits under the limits, every \<open>Secure\<close> cookie in the jar is still there unchanged after a
  response from an insecure origin, whatever headers it carries.\<close>
theorem plaintext_leaves_secure_cookies_alone:
  assumes "jar_reachable E j" and "to_str_law E" and "select_law E" and "origin_of u = Inr g"
    and "st_total (jar_entries j) + length headers
           \<le> min (per_domain (jar_limits j)) (total_limit (jar_limits j))"
    and "per_domain (jar_limits j) \<le> usize_max"
    and "\<not> is_secure g" and "e \<in> set (all_entries (jar_entries j))" and "ck_secure (en_cookie e)"
  shows "\<exists>j'. jar_store E j u headers now = Some j' \<and> e \<in> set (all_entries (jar_entries j'))"
proof -
  have inv: "jar_inv E j" using assms(1-3) by (rule jar_reachable_inv)
  then have s: "store_inv (good_entry (ext_psl E)) (jar_entries j)" by (simp add: jar_inv_def)
  obtain j' where j': "jar_store E j u headers now = Some j'"
    and r: "(jar_lookup (ext_psl E) (jar_entries j'), jar_counters j')
      = fold (response_spec E (origin_host g) (url_path u) (is_secure g) now) headers
          (jar_lookup (ext_psl E) (jar_entries j), jar_counters j)"
    using jar_store_refines [OF assms(2) inv assms(4)] assms(5,6) by force
  have old: "jar_lookup (ext_psl E) (jar_entries j) (entry_id e) = Some e"
    using jar_lookup_mem [OF s] assms(8) by blast
  have plain: "is_secure g = False" using assms(7) by simp
  have "jar_lookup (ext_psl E) (jar_entries j')
      = fst (fold (response_spec E (origin_host g) (url_path u) False now) headers
          (jar_lookup (ext_psl E) (jar_entries j), jar_counters j))"
    using arg_cong [OF r, of fst] unfolding plain by simp
  then have "jar_lookup (ext_psl E) (jar_entries j') (entry_id e) = Some e"
    using fold_response_spec_secure [OF _ assms(9), of _ "entry_id e"] old by simp
  moreover have "store_inv (good_entry (ext_psl E)) (jar_entries j')"
    using jar_store_ok [OF assms(2,3) inv, of u headers now] j' by (auto simp: jar_inv_def)
  ultimately show ?thesis using j' jar_lookup_mem by blast
qed

theorem plaintext_leaves_secure_cookies_alone_witness:
  "\<exists>j j' e. jar_store sample_externals new_jar https_url [''sid=1; Secure''] 0 = Some j
     \<and> e \<in> set (all_entries (jar_entries j)) \<and> ck_secure (en_cookie e)
     \<and> jar_store sample_externals j http_url [''sid=2; Max-Age=0'', ''sid=evil''] 9 = Some j'
     \<and> e \<in> set (all_entries (jar_entries j'))"
proof -
  let ?st = "jar_store sample_externals new_jar https_url [''sid=1; Secure''] 0"
  obtain j where j: "?st = Some j" and lim: "jar_limits j = jar_limits new_jar"
    using jar_store_ok [OF sample_laws(1,3) jar_reachable_inv [OF new_jar_reachable sample_laws(1,3)]]
    by blast
  have "map_option (\<lambda>j. (map (ck_secure \<circ> en_cookie) (all_entries (jar_entries j)), st_total (jar_entries j)))
      ?st = Some ([True], 1)" by code_simp
  with j have one: "map (ck_secure \<circ> en_cookie) (all_entries (jar_entries j)) = [True]"
    and tot: "st_total (jar_entries j) = 1" by auto
  from one obtain e where e: "e \<in> set (all_entries (jar_entries j))" "ck_secure (en_cookie e)"
    by (cases "all_entries (jar_entries j)") auto
  have g: "\<not> is_secure \<lparr>origin_scheme = ''http'', origin_host = ''www.example.com'', origin_port = 80\<rparr>"
    by code_simp
  have r: "jar_reachable sample_externals j" by (rule jar_reachable.stored [OF new_jar_reachable j])
  have room: "st_total (jar_entries j) + length [''sid=2; Max-Age=0'', ''sid=evil'']
      \<le> min (per_domain (jar_limits j)) (total_limit (jar_limits j))"
    "per_domain (jar_limits j) \<le> usize_max"
    using default_room by (simp_all add: tot lim new_jar_def with_limits_def default_limits_def)
  from plaintext_leaves_secure_cookies_alone [OF r sample_laws(1,3) http_origin room g e, of 9] j e
  show ?thesis by blast
qed

text \<open>C8: A snapshot restores what it captured, to the second. Exporting any jar and importing the snapshot into
  an empty jar with the same limits, at the same time, never fails and gives a jar that holds exactly the
  unexpired cookies of the original, each under its own identity with its attributes, creation order and last
  access, its expiry time rounded to whole seconds towards 1970, the resolution of a snapshot; a cookie that
  has expired by its rounded time is left out.\<close>
theorem snapshot_round_trip:
  assumes "jar_reachable E j" and "to_str_law E" and "select_law E"
  shows "\<exists>j'. import_jar E (with_limits (jar_limits j)) (export_jar j now) now = Some j'
    \<and> (\<forall>k. jar_lookup (ext_psl E) (jar_entries j') k =
          (case jar_lookup (ext_psl E) (jar_entries j) k of
             Some e \<Rightarrow> (if lapsed e now \<or> lapsed (rounded e) now then None else Some (rounded e))
           | None \<Rightarrow> None))"
  using snapshot_restores [OF jar_reachable_inv [OF assms]] unfolding lapsed_iff .

definition fraction_jar :: "jar option" where
  "fraction_jar = jar_store sample_externals (with_limits \<lparr>per_domain = 2, total_limit = 5\<rparr>) https_url
     [''sid=1; Max-Age=10'', ''gone=1; Max-Age=1''] 1500000000"

theorem snapshot_round_trip_witness:
  "\<exists>j j'. fraction_jar = Some j
     \<and> import_jar sample_externals (with_limits (jar_limits j)) (export_jar j 2000000000) 2000000000 = Some j'
     \<and> map (\<lambda>e. (ck_name (en_cookie e), ck_expires (en_cookie e))) (all_entries (jar_entries j))
       = [(''sid'', Some 11500000000), (''gone'', Some 2500000000)]
     \<and> map (\<lambda>e. (ck_name (en_cookie e), ck_expires (en_cookie e))) (all_entries (jar_entries j')) = [(''sid'', Some 11000000000)]"
proof -
  have r: "map_option (\<lambda>j. map (\<lambda>e. (ck_name (en_cookie e), ck_expires (en_cookie e))) (all_entries (jar_entries j))) fraction_jar
      = Some [(''sid'', Some 11500000000), (''gone'', Some 2500000000)]"
    "map_option (\<lambda>j. map_option (\<lambda>j. map (\<lambda>e. (ck_name (en_cookie e), ck_expires (en_cookie e))) (all_entries (jar_entries j)))
        (import_jar sample_externals (with_limits (jar_limits j)) (export_jar j 2000000000) 2000000000)) fraction_jar
      = Some (Some [(''sid'', Some 11000000000)])"
    by code_simp+
  then obtain j where j: "fraction_jar = Some j" by auto
  then have "jar_reachable sample_externals j"
    unfolding fraction_jar_def by (rule jar_reachable.stored [OF jar_reachable.created])
  from snapshot_round_trip [OF this sample_laws(1,3), of 2000000000] obtain j' where
    i: "import_jar sample_externals (with_limits (jar_limits j)) (export_jar j 2000000000) 2000000000 = Some j'" by blast
  from r i have m: "map (\<lambda>e. (ck_name (en_cookie e), ck_expires (en_cookie e))) (all_entries (jar_entries j))
      = [(''sid'', Some 11500000000), (''gone'', Some 2500000000)]"
    "map (\<lambda>e. (ck_name (en_cookie e), ck_expires (en_cookie e))) (all_entries (jar_entries j')) = [(''sid'', Some 11000000000)]"
    unfolding j by (simp_all only: option.map option.inject)
  show ?thesis by (rule exI, rule exI, intro conjI, rule j, rule i, rule m(1), rule m(2))
qed

end
