(* ===== verification/Header_Map.thy ===== *)
theory Header_Map
  imports Rust_Std
begin

text \<open>
  The header multimap (\<open>http::HeaderMap\<close>) as the list of its field lines: lower-case names with their
  values, in order. The operations are the documented ones: \<open>get\<close> is the first value, \<open>insert\<close>
  replaces every value of the name, \<open>append\<close> adds one, \<open>remove\<close> drops them all. What the cache and the
  middleware rely on is the locale \<open>header_multimap\<close>, which the list model interprets.
\<close>

type_synonym header_name = string
type_synonym header_value = string
type_synonym header_map = "(header_name \<times> header_value) list"

definition hm_get_all :: "header_map \<Rightarrow> header_name \<Rightarrow> header_value list" where
  "hm_get_all h n = map snd (filter (\<lambda>f. fst f = n) h)"

definition hm_get :: "header_map \<Rightarrow> header_name \<Rightarrow> header_value option" where
  "hm_get h n = (case hm_get_all h n of [] \<Rightarrow> None | v # vs \<Rightarrow> Some v)"

definition hm_contains :: "header_map \<Rightarrow> header_name \<Rightarrow> bool" where
  "hm_contains h n \<longleftrightarrow> hm_get_all h n \<noteq> []"

definition hm_remove :: "header_name \<Rightarrow> header_map \<Rightarrow> header_map" where
  "hm_remove n h = filter (\<lambda>f. fst f \<noteq> n) h"

definition hm_append :: "header_name \<Rightarrow> header_value \<Rightarrow> header_map \<Rightarrow> header_map" where
  "hm_append n v h = h @ [(n, v)]"

definition hm_insert :: "header_name \<Rightarrow> header_value \<Rightarrow> header_map \<Rightarrow> header_map" where
  "hm_insert n v h = hm_append n v (hm_remove n h)"

definition hm_keys :: "header_map \<Rightarrow> header_name list" where
  "hm_keys h = remdups (map fst h)"

text \<open>Iterating over a map visits each name once and gives all its values together.\<close>

definition hm_flatten :: "(header_name \<times> header_value list) list \<Rightarrow> header_map" where
  "hm_flatten bs = concat (map (\<lambda>(n, vs). map (Pair n) vs) bs)"

definition hm_iter :: "header_map \<Rightarrow> (header_name \<times> header_value) list" where
  "hm_iter h = hm_flatten (map (\<lambda>n. (n, hm_get_all h n)) (hm_keys h))"

section \<open>The interface\<close>

locale header_multimap =
  fixes get_all :: "'m \<Rightarrow> 'n \<Rightarrow> 'v list"
    and insert :: "'n \<Rightarrow> 'v \<Rightarrow> 'm \<Rightarrow> 'm"
    and append :: "'n \<Rightarrow> 'v \<Rightarrow> 'm \<Rightarrow> 'm"
    and remove :: "'n \<Rightarrow> 'm \<Rightarrow> 'm"
    and keys :: "'m \<Rightarrow> 'n list"
  assumes get_insert: "get_all (insert n v m) k = (if k = n then [v] else get_all m k)"
    and get_append: "get_all (append n v m) k = (if k = n then get_all m k @ [v] else get_all m k)"
    and get_remove: "get_all (remove n m) k = (if k = n then [] else get_all m k)"
    and keys_iff: "k \<in> set (keys m) \<longleftrightarrow> get_all m k \<noteq> []"
begin

text \<open>Copying all values of one field over another map's, and removing a list of fields.\<close>

lemma get_fold_append:
  "get_all (fold (append n) vs m) k = (if k = n then get_all m k @ vs else get_all m k)"
  by (induction vs arbitrary: m) (auto simp: get_append)

lemma get_overwrite:
  "get_all (fold (append n) vs (insert n v m)) k = (if k = n then v # vs else get_all m k)"
  by (simp add: get_fold_append get_insert)

lemma get_remove_list: "get_all (fold remove ns m) k = (if k \<in> set ns then [] else get_all m k)"
  by (induction ns arbitrary: m) (auto simp: get_remove)

end

interpretation hm: header_multimap hm_get_all hm_insert hm_append hm_remove hm_keys
proof (unfold_locales, goal_cases)
  case (1 n v m k)
  show ?case by (auto simp: hm_get_all_def hm_insert_def hm_append_def hm_remove_def filter_empty_conv
        intro: arg_cong [of _ _ "map snd"] filter_cong)
next
  case (2 n v m k)
  show ?case by (simp add: hm_get_all_def hm_append_def)
next
  case (3 n m k)
  show ?case by (auto simp: hm_get_all_def hm_remove_def filter_empty_conv
        intro: arg_cong [of _ _ "map snd"] filter_cong)
next
  case (4 k m)
  show ?case by (force simp: hm_get_all_def hm_keys_def filter_empty_conv)
qed

lemmas hm_simps = hm.get_insert hm.get_append hm.get_remove hm.get_overwrite hm.get_remove_list

lemma hm_get_cong: "hm_get_all h n = hm_get_all g n \<Longrightarrow> hm_get h n = hm_get g n"
  by (simp add: hm_get_def)

lemma hm_get_None: "hm_get h n = None \<longleftrightarrow> \<not> hm_contains h n"
  by (simp add: hm_get_def hm_contains_def split: list.splits)

lemma hm_get_insert: "hm_get (hm_insert n v h) k = (if k = n then Some v else hm_get h k)"
  by (simp add: hm_get_def hm.get_insert)

section \<open>Maps given by their names and values\<close>

lemma hm_flatten_simps [simp]:
  "hm_flatten [] = []" "hm_flatten ((n, vs) # bs) = map (Pair n) vs @ hm_flatten bs"
  "hm_flatten (bs @ cs) = hm_flatten bs @ hm_flatten cs"
  by (simp_all add: hm_flatten_def)

lemma hm_get_all_append: "hm_get_all (h @ g) n = hm_get_all h n @ hm_get_all g n"
  by (simp add: hm_get_all_def)

lemma hm_get_all_block: "hm_get_all (map (Pair m) vs) n = (if m = n then vs else [])"
  by (induction vs) (auto simp: hm_get_all_def)

lemma hm_get_all_flatten:
  assumes "distinct (map fst bs)"
  shows "hm_get_all (hm_flatten bs) n = (case map_of bs n of None \<Rightarrow> [] | Some vs \<Rightarrow> vs)"
  using assms
proof (induction bs)
  case (Cons b bs)
  obtain m vs where b: "b = (m, vs)" by fastforce
  have "m = n \<Longrightarrow> map_of bs n = None" using Cons.prems by (auto simp: b map_of_eq_None_iff)
  then show ?case using Cons by (auto simp: b hm_get_all_append hm_get_all_block)
qed (simp add: hm_get_all_def)

lemma names_of_flatten:
  assumes "distinct (map fst bs)" and "\<forall>b \<in> set bs. snd b \<noteq> []"
  shows "remdups_adj (map fst (hm_flatten bs)) = map fst bs"
  using assms
proof (induction bs)
  case (Cons b bs)
  obtain m v vs where b: "b = (m, v # vs)" using Cons.prems(2) by (cases b; cases "snd b") auto
  have one: "remdups_adj (replicate (Suc k) m @ xs) = m # remdups_adj xs" if "xs = [] \<or> hd xs \<noteq> m" for k and xs :: "string list"
    using that by (induction k) (cases xs; simp)+
  have "map fst (hm_flatten bs) = [] \<or> hd (map fst (hm_flatten bs)) \<noteq> m"
  proof (cases bs)
    case (Cons c cs)
    then show ?thesis using \<open>distinct (map fst (b # bs))\<close> \<open>\<forall>b \<in> set (b # bs). snd b \<noteq> []\<close>
      by (cases c; cases "snd c") (auto simp: b)
  qed simp
  moreover have "map fst (hm_flatten (b # bs)) = replicate (Suc (length vs)) m @ map fst (hm_flatten bs)"
    by (simp add: b comp_def map_replicate_const)
  ultimately show ?case using one Cons by (simp add: b)
qed simp

end
