(* ===== verification/Http_Date.thy ===== *)
theory Http_Date
  imports Cookie_Date
begin

text \<open>
  \<open>chromulate-cache/src/date.rs\<close>: the three \<open>HTTP-date\<close> formats. The printers of \<open>Cookie_Date\<close> are
  shared; what is proved is that every printed date parses to its instant, and that whatever parses is
  a date from 1601 to 9999.
\<close>

section \<open>The parser\<close>

definition http_days_from_civil :: "int \<Rightarrow> nat \<Rightarrow> nat \<Rightarrow> int" where
  "http_days_from_civil y0 m d =
     (let y = (if m \<le> 2 then y0 - 1 else y0);
          era = (if 0 \<le> y then y else y - 399) sdiv 400;
          yoe = y - era * 400;
          mp = (int m + 9) smod 12;
          doy = (153 * mp + 2) sdiv 5 + int d - 1;
          doe = yoe * 365 + yoe sdiv 4 - yoe sdiv 100 + doy
      in era * 146097 + doe - 719468)"

definition two_digits :: "string \<Rightarrow> nat option" where
  "two_digits token =
     (if token = [] \<or> 2 < length token \<or> \<not> list_all is_ascii_digit token then None
      else parse_unsigned 32 token)"

fun three_parts :: "string list \<Rightarrow> (string \<times> string \<times> string) option" where
  "three_parts [a, b, c] = Some (a, b, c)"
| "three_parts _ = None"

definition time_of :: "string \<Rightarrow> (nat \<times> nat \<times> nat) option" where
  "time_of token =
     do {
       (a, b, c) \<leftarrow> three_parts (split_by (\<lambda>x. x = CHR '':'') token);
       hour \<leftarrow> two_digits a;
       minute \<leftarrow> two_digits b;
       second \<leftarrow> two_digits c;
       if 23 < hour \<or> 59 < minute \<or> 60 < second then None else Some (hour, minute, second)
     }"

definition http_months :: "string list" where
  "http_months =
     [''jan'', ''feb'', ''mar'', ''apr'', ''may'', ''jun'', ''jul'', ''aug'', ''sep'', ''oct'',
      ''nov'', ''dec'']"

definition month_of :: "string \<Rightarrow> nat option" where
  "month_of token =
     (if length token < 3 then None
      else let p = to_ascii_lowercase (take 3 token)
           in if length token \<noteq> 3 then None else map_option Suc (position_of p http_months))"

definition year_of :: "string \<Rightarrow> int option" where
  "year_of token =
     (if \<not> list_all is_ascii_digit token then None
      else if length token = 2 then
        do { v \<leftarrow> parse_i64 token; Some (if 70 \<le> v then 1900 + v else 2000 + v) }
      else if length token = 4 then parse_i64 token
      else None)"

definition date_words :: "char list \<Rightarrow> string \<Rightarrow> string list" where
  "date_words seps s = filter (\<lambda>f. f \<noteq> []) (split_by (\<lambda>c. c \<in> set seps) s)"

fun comma_fields :: "string list \<Rightarrow> (string \<times> string \<times> string \<times> string) option" where
  "comma_fields (day # month # year # time # _) = Some (day, month, year, time)"
| "comma_fields _ = None"

fun asctime_fields :: "string list \<Rightarrow> (string \<times> string \<times> string \<times> string) option" where
  "asctime_fields (weekday # month # day # time # year # _) = Some (day, month, year, time)"
| "asctime_fields _ = None"

definition http_date_fields :: "string \<Rightarrow> (string \<times> string \<times> string \<times> string) option" where
  "http_date_fields input =
     (case split_once (CHR '','') input of
        Some (weekday, rest) \<Rightarrow>
          if trim weekday = [] then None
          else comma_fields (date_words [CHR ''-'', CHR '' '', CHR 0x09] rest)
      | None \<Rightarrow> asctime_fields (date_words [CHR '' '', CHR 0x09] input))"

definition parse_http_date :: "string \<Rightarrow> system_time option" where
  "parse_http_date input =
     do {
       (d, m, y, t) \<leftarrow> http_date_fields (trim input);
       day \<leftarrow> two_digits d;
       month \<leftarrow> month_of m;
       year \<leftarrow> year_of y;
       (hour, minute, second) \<leftarrow> time_of t;
       if day = 0 \<or> 31 < day \<or> year < 1601 then None
       else
         (let seconds = http_days_from_civil year month day * 86400
                + int hour * 3600 + int minute * 60 + int second
          in if 0 \<le> seconds then checked_add 0 (from_secs (nat \<bar>seconds\<bar>))
             else checked_sub 0 (from_secs (nat \<bar>seconds\<bar>)))
     }"

lemma parse_http_date_examples:
  "parse_http_date ''0'' = None"
  "parse_http_date ''Sun, 06 Nov 1994 08:49:37 GMT'' = Some (784111777 * 1000000000)"
  "parse_http_date ''Sunday, 06-Nov-94 08:49:37 GMT'' = Some (784111777 * 1000000000)"
  "parse_http_date ''Sun Nov  6 08:49:37 1994'' = Some (784111777 * 1000000000)"
  by code_simp+

section \<open>Every printed date parses to its instant\<close>

lemma http_days_from_civil_eq: "http_days_from_civil = days_from_civil"
  by (intro ext) (simp only: http_days_from_civil_def days_from_civil_def)

lemma two_digits_pad2: "n < 100 \<Longrightarrow> two_digits (pad2 n) = Some n"
  using pad2_facts [of n] by (simp add: two_digits_def parse_unsigned_digits word_token_def)

lemma two_digits_single: "n < 10 \<Longrightarrow> two_digits [digit_char n] = Some n"
  using digit_char_facts [of n] parse_unsigned_digits [of "[digit_char n]"]
  by (simp add: two_digits_def digits_val_def)

lemma parse_i64_digits:
  assumes "list_all is_ascii_digit s" and "s \<noteq> []" and "length s \<le> 4"
  shows "parse_i64 s = Some (int (digits_val s))"
proof -
  have "digits_val s < 10 ^ length s" using assms digits_val_bound by (simp add: list_all_iff)
  also have "\<dots> \<le> (10::nat) ^ 4" using assms by (intro power_increasing) auto
  finally have "digits_val s < 10000" by simp
  moreover from assms have "strip_prefix ''-'' s = None"
    by (cases s) (auto simp: strip_prefix_def is_ascii_digit_def byte_def)
  ultimately show ?thesis
    using assms by (simp add: parse_i64_def skip_plus_digits all_digits_def list_all_iff)
qed

lemma year_of_pad4: "n < 10000 \<Longrightarrow> year_of (pad4 n) = Some (int n)"
  using pad4_facts [of n] by (simp add: year_of_def parse_i64_digits word_token_def)

lemma window_year:
  assumes "1970 \<le> y" and "y \<le> 2069"
  shows "(if 70 \<le> int (y mod 100) then 1900 + int (y mod 100) else 2000 + int (y mod 100)) = int y"
  using full_year_window [OF assms] by (auto simp: full_year_def simp del: of_nat_mod split: if_splits)

lemma year_of_pad2:
  assumes "1970 \<le> y" and "y \<le> 2069"
  shows "year_of (pad2 (y mod 100)) = Some (int y)"
proof -
  have "year_of (pad2 (y mod 100))
      = Some (if 70 \<le> int (y mod 100) then 1900 + int (y mod 100) else 2000 + int (y mod 100))"
    using pad2_facts [of "y mod 100"]
    by (simp add: year_of_def parse_i64_digits word_token_def del: of_nat_mod)
  then show ?thesis unfolding window_year [OF assms] .
qed

lemma split_by_char: "c \<notin> set s \<Longrightarrow> split_by (\<lambda>x. x = c) (s @ c # t) = s # split_by (\<lambda>x. x = c) t"
  by (rule split_by_append_sep) auto

lemma split_by_no_char: "c \<notin> set s \<Longrightarrow> split_by (\<lambda>x. x = c) s = [s]"
  by (rule split_by_none) auto

lemma split_once_None: "c \<notin> set s \<Longrightarrow> split_once c s = None"
proof -
  assume "c \<notin> set s"
  then have "find_char (\<lambda>x. x = c) s = None" unfolding find_char_None by blast
  then show ?thesis by (simp add: split_once_def)
qed

lemma time_of_hms:
  assumes "h \<le> 23" and "mi \<le> 59" and "se \<le> 60"
  shows "time_of (hms_text h mi se) = Some (h, mi, se)"
proof -
  have b: "h < 100" "mi < 100" "se < 100" using assms by auto
  note f = pad2_facts(4) [OF b(1)] pad2_facts(4) [OF b(2)] pad2_facts(4) [OF b(3)]
  have "split_by (\<lambda>x. x = CHR '':'') (hms_text h mi se) = [pad2 h, pad2 mi, pad2 se]"
    using f by (simp add: hms_text_def split_by_char split_by_no_char)
  with assms b show ?thesis by (simp add: time_of_def two_digits_pad2)
qed

lemma month_of_names:
  assumes "1 \<le> m" and "m \<le> 12"
  shows "month_of (month_names ! (m - 1)) = Some m"
proof -
  have "list_all (\<lambda>k. month_of (month_names ! k) = Some (Suc k)) [0..<12]" by code_simp
  moreover from assms have "m - 1 \<in> set [0..<12]" and "Suc (m - 1) = m" by auto
  ultimately show ?thesis unfolding list_all_iff by metis
qed

text \<open>Splitting a printed date into its words.\<close>

lemma word_token_seps:
  "word_token w \<Longrightarrow> c \<in> set w \<Longrightarrow> c \<noteq> CHR ''-'' \<and> c \<noteq> CHR '' '' \<and> c \<noteq> CHR 0x09 \<and> c \<noteq> CHR '',''"
  by (auto simp: word_token_def list_all_iff is_delimiter_def byte_def)

lemma date_words_word:
  assumes "word_token w" and "set seps \<subseteq> {CHR ''-'', CHR '' '', CHR 0x09}" and "c \<in> set seps"
  shows "date_words seps (w @ c # rest) = w # date_words seps rest"
proof -
  have "\<forall>x \<in> set w. x \<notin> set seps" using assms word_token_seps [of w] by blast
  with assms show ?thesis by (simp add: date_words_def split_by_append_sep word_token_def)
qed

lemma date_words_sep: "c \<in> set seps \<Longrightarrow> date_words seps (c # rest) = date_words seps rest"
  by (simp add: date_words_def)

lemma date_words_last:
  assumes "word_token w" and "set seps \<subseteq> {CHR ''-'', CHR '' '', CHR 0x09}"
  shows "date_words seps w = [w]"
proof -
  have "\<forall>x \<in> set w. x \<notin> set seps" using assms word_token_seps [of w] by blast
  with assms show ?thesis by (simp add: date_words_def split_by_none word_token_def)
qed

lemmas date_words_simps = date_words_word date_words_sep date_words_last

lemma weekday_not_space:
  assumes "wd \<in> set weekday_names"
  shows "trim wd = wd" and "\<not> is_whitespace (hd wd)" and "wd \<noteq> []"
proof -
  have "list_all (\<lambda>w. trim w = w \<and> \<not> is_whitespace (hd w) \<and> w \<noteq> []) weekday_names" by code_simp
  with assms show "trim wd = wd" "\<not> is_whitespace (hd wd)" "wd \<noteq> []"
    unfolding list_all_iff by blast+
qed

lemma trim_weekday:
  assumes "wd \<in> set weekday_names" and "t \<noteq> []" and "\<not> is_whitespace (last t)"
  shows "trim (wd @ t) = wd @ t"
  using weekday_not_space [OF assms(1)] assms by (intro trim_id) simp

definition http_instant :: "nat \<Rightarrow> nat \<Rightarrow> nat \<Rightarrow> nat \<Rightarrow> nat \<Rightarrow> nat \<Rightarrow> system_time option" where
  "http_instant y m d h mi se =
     (let seconds = http_days_from_civil (int y) m d * 86400 + int h * 3600 + int mi * 60 + int se
      in if 0 \<le> seconds then checked_add 0 (from_secs (nat \<bar>seconds\<bar>))
         else checked_sub 0 (from_secs (nat \<bar>seconds\<bar>)))"

lemma http_instant_utc:
  assumes r: "date_in_range y m d h mi se"
  shows "http_instant y m d h mi se = Some (utc_instant y m d h mi se)"
proof -
  define s where "s = days_from_civil (int y) m d * 86400 + int h * 3600 + int mi * 60 + int se"
  have ends: "- 200000 \<le> days_from_civil (int y) m d" "days_from_civil (int y) m d \<le> 3000000"
    using r days_from_civil_range [of "int y" m d] unfolding civil_range_ends
    by (auto simp: date_in_range_def)
  with r have s: "- 20000000000 \<le> s" "s \<le> 300000000000"
    by (auto simp: s_def date_in_range_def)
  have "civil_days (int y) m d = days_from_civil (int y) m d"
    using r days_from_civil_naive [of m "int y" d] by (simp add: date_in_range_def)
  then have utc: "utc_instant y m d h mi se = s * 1000000000"
    by (simp add: utc_instant_def epoch_seconds_to_system_time_def s_def nanos_per_sec_def)
  show ?thesis
    using s unfolding utc
    by (simp add: http_instant_def http_days_from_civil_eq s_def [symmetric] Let_def checked_add_def
        checked_sub_def from_secs_def max_time_def min_time_def nanos_per_sec_def)
qed

lemma parse_http_date_fields:
  assumes "http_date_fields (trim s) = Some (dd, mm, yy, tt)"
    and "two_digits dd = Some d" and "month_of mm = Some m" and "year_of yy = Some (int y)"
    and "time_of tt = Some (h, mi, se)" and r: "date_in_range y m d h mi se"
  shows "parse_http_date s = Some (utc_instant y m d h mi se)"
  using assms http_instant_utc [OF r]
  by (simp add: parse_http_date_def http_instant_def Let_def date_in_range_def)

lemma comma_date_fields:
  assumes wd: "wd \<in> set weekday_names" and c: "c \<in> {CHR ''-'', CHR '' ''}"
    and "word_token d" and "word_token m" and "word_token y" and "word_token t"
  shows "http_date_fields (trim (wd @ '', '' @ d @ [c] @ m @ [c] @ y @ '' '' @ t @ '' GMT''))
    = Some (d, m, y, t)"
proof -
  let ?seps = "[CHR ''-'', CHR '' '', CHR 0x09]"
  have comma: "CHR '','' \<notin> set wd"
    using weekday_facts [OF wd] word_token_seps [of wd] by blast
  have "trim (wd @ '', '' @ d @ [c] @ m @ [c] @ y @ '' '' @ t @ '' GMT'')
      = wd @ '', '' @ d @ [c] @ m @ [c] @ y @ '' '' @ t @ '' GMT''"
    by (rule trim_weekday [OF wd]) (simp_all add: is_whitespace_def byte_def)
  moreover have "split_once (CHR '','') (wd @ '', '' @ d @ [c] @ m @ [c] @ y @ '' '' @ t @ '' GMT'')
      = Some (wd, '' '' @ d @ [c] @ m @ [c] @ y @ '' '' @ t @ '' GMT'')"
    using split_once_append [OF comma] by simp
  moreover have "date_words ?seps ('' '' @ d @ [c] @ m @ [c] @ y @ '' '' @ t @ '' GMT'')
      = [d, m, y, t, ''GMT'']"
    using assms(3-) c gmt_facts(1) by (auto simp: date_words_simps)
  ultimately show ?thesis
    using weekday_not_space [OF wd] by (simp add: http_date_fields_def)
qed

lemma digit_not_space: "is_ascii_digit c \<Longrightarrow> \<not> is_whitespace c"
  by (auto simp: is_ascii_digit_def is_whitespace_def)

lemma asctime_date_fields:
  assumes wd: "wd \<in> set weekday_names" and pad: "pad \<in> {[], '' ''}"
    and w: "word_token m" "word_token d" "word_token t" "word_token y"
    and digits: "list_all is_ascii_digit y"
  shows "http_date_fields (trim (wd @ '' '' @ m @ '' '' @ pad @ d @ '' '' @ t @ '' '' @ y))
    = Some (d, m, y, t)"
proof -
  let ?s = "wd @ '' '' @ m @ '' '' @ pad @ d @ '' '' @ t @ '' '' @ y"
  have wtok: "word_token wd" using weekday_facts [OF wd] by blast
  have "CHR '','' \<notin> set u" if "word_token u" for u using word_token_seps [OF that] by blast
  with wtok w pad have "CHR '','' \<notin> set ?s" by auto
  then have "split_once (CHR '','') ?s = None" by (rule split_once_None)
  moreover have "y \<noteq> []" using w by (simp add: word_token_def)
  then have "trim ?s = ?s"
    using digits digit_not_space [of "last y"]
    by (intro trim_weekday [OF wd]) (simp_all add: list_all_iff)
  moreover have "date_words [CHR '' '', CHR 0x09] ?s = [wd, m, d, t, y]"
    using wtok w pad by (auto simp: date_words_simps)
  ultimately show ?thesis by (simp add: http_date_fields_def)
qed

lemma http_date_formats:
  assumes wd: "wd \<in> set weekday_names" and r: "date_in_range y m d h mi se"
  shows "parse_http_date (imf_fixdate wd y m d h mi se) = Some (utc_instant y m d h mi se)"
    and "parse_http_date (asctime_date wd y m d h mi se) = Some (utc_instant y m d h mi se)"
    and "1970 \<le> y \<Longrightarrow> y \<le> 2069 \<Longrightarrow>
      parse_http_date (rfc850_date wd y m d h mi se) = Some (utc_instant y m d h mi se)"
proof -
  have b: "d < 100" "y < 10000" "h < 100" "mi < 100" "se < 100" "y mod 100 < 100"
    and m: "1 \<le> m" "m \<le> 12" and t: "h \<le> 23" "mi \<le> 59" "se \<le> 60"
    using r by (auto simp: date_in_range_def)
  note tok = month_facts [OF m, THEN conjunct1] pad2_facts(3) [OF b(1)] pad4_facts(3) [OF b(2)]
    pad2_facts(3) [OF b(6)] hms_token(2) [OF b(3,4,5)]
  note parsed = month_of_names [OF m] time_of_hms [OF t] r
  show "parse_http_date (imf_fixdate wd y m d h mi se) = Some (utc_instant y m d h mi se)"
    using comma_date_fields [OF wd, of "CHR '' ''" "pad2 d" "month_names ! (m - 1)" "pad4 y"] tok
    by (intro parse_http_date_fields [OF _ two_digits_pad2 [OF b(1)] parsed(1) year_of_pad4 [OF b(2)]
          parsed(2,3)]) (simp add: imf_fixdate_def)
  show "parse_http_date (rfc850_date wd y m d h mi se) = Some (utc_instant y m d h mi se)"
    if "1970 \<le> y" "y \<le> 2069"
    using comma_date_fields [OF wd, of "CHR ''-''" "pad2 d" "month_names ! (m - 1)" "pad2 (y mod 100)"]
      tok
    by (intro parse_http_date_fields [OF _ two_digits_pad2 [OF b(1)] parsed(1) year_of_pad2 [OF that]
          parsed(2,3)]) (simp add: rfc850_date_def)
  show "parse_http_date (asctime_date wd y m d h mi se) = Some (utc_instant y m d h mi se)"
  proof (cases "d < 10")
    case True
    have "word_token [digit_char d]" using digit_char_facts(3) [OF True] by (simp add: word_token_def)
    then show ?thesis
      using True tok pad4_facts(1) [OF b(2)]
        asctime_date_fields [OF wd, of "'' ''" "month_names ! (m - 1)" "[digit_char d]"]
      by (intro parse_http_date_fields [OF _ two_digits_single [OF True] parsed(1)
            year_of_pad4 [OF b(2)] parsed(2,3)]) (simp add: asctime_date_def)
  next
    case False
    then show ?thesis
      using tok pad4_facts(1) [OF b(2)]
        asctime_date_fields [OF wd, of "[]" "month_names ! (m - 1)" "pad2 d"]
      by (intro parse_http_date_fields [OF _ two_digits_pad2 [OF b(1)] parsed(1)
            year_of_pad4 [OF b(2)] parsed(2,3)]) (simp add: asctime_date_def)
  qed
qed

section \<open>Properties\<close>

text \<open>C34: The cache reads each of the three \<open>HTTP-date\<close> formats as the instant it prints, and so
  agrees with the cookie store's parser on every date a server sends: the fixed format and the C
  library format for 1601 to 9999, the format with a two-digit year for 1970 to 2069.\<close>
theorem http_dates_parse:
  assumes "wd \<in> set weekday_names" and "date_in_range y m d h mi se"
  shows "parse_http_date (imf_fixdate wd y m d h mi se) = Some (utc_instant y m d h mi se)
    \<and> parse_http_date (asctime_date wd y m d h mi se) = Some (utc_instant y m d h mi se)
    \<and> (1970 \<le> y \<and> y \<le> 2069 \<longrightarrow>
         parse_http_date (rfc850_date wd y m d h mi se) = Some (utc_instant y m d h mi se)
         \<and> parse_http_date (rfc850_date wd y m d h mi se)
             = parse_cookie_date (rfc850_date wd y m d h mi se))"
  using http_date_formats [OF assms] parse_rfc850_date [OF assms] by simp

theorem http_dates_parse_witness:
  "parse_http_date (imf_fixdate ''Sun'' 1994 11 6 8 49 37) = Some (utc_instant 1994 11 6 8 49 37)
   \<and> parse_http_date (asctime_date ''Sun'' 1994 11 6 8 49 37) = Some (utc_instant 1994 11 6 8 49 37)
   \<and> parse_http_date (rfc850_date ''Sunday'' 1994 11 6 8 49 37) = Some (utc_instant 1994 11 6 8 49 37)"
proof -
  have wd: "''Sun'' \<in> set weekday_names" "''Sunday'' \<in> set weekday_names"
    and r: "date_in_range 1994 11 6 8 49 37" by code_simp+
  show ?thesis using http_dates_parse [OF wd(1) r] http_dates_parse [OF wd(2) r] by simp
qed

end
