(* ===== verification/Cache_Control.thy ===== *)
theory Cache_Control
  imports Core Header_Map Http_Date
begin

text \<open>
  \<open>chromulate-cache/src/directive.rs\<close>: \<open>Cache-Control\<close> parsed into a record. \<open>cache_ext\<close> collects what the
  cache calls outside the repository: the header-value and header-name conversions of the \<open>http\<close> crate,
  the URL operations of the \<open>url\<close> crate, the store's hash function and the two \<open>size_of\<close> constants.
\<close>

section \<open>What lies outside the repository\<close>

record cache_key =
  key_method :: string
  key_target :: string

record cache_ext =
  cx_to_str :: "header_value \<Rightarrow> string option"
  cx_name :: "string \<Rightarrow> header_name option"
  cx_target :: "url \<Rightarrow> string"
  cx_join :: "url \<Rightarrow> string \<Rightarrow> url option"
  cx_same_origin :: "url \<Rightarrow> url \<Rightarrow> bool"
  cx_hash :: "cache_key \<Rightarrow> nat"
  cx_key_size :: nat
  cx_entry_size :: nat

text \<open>\<open>HeaderValue::to_str\<close> returns the bytes of the value exactly when they are visible ASCII, space or
  tab; \<open>HeaderName::from_bytes\<close> returns the lower-case form of the name.\<close>

definition header_text :: "string \<Rightarrow> bool" where
  "header_text v \<longleftrightarrow> list_all (\<lambda>c. byte c = 9 \<or> (32 \<le> byte c \<and> byte c \<le> 126)) v"

definition value_law :: "cache_ext \<Rightarrow> bool" where
  "value_law X \<longleftrightarrow> (\<forall>v. cx_to_str X v = (if header_text v then Some v else None))"

definition name_law :: "cache_ext \<Rightarrow> bool" where
  "name_law X \<longleftrightarrow> (\<forall>s n. cx_name X s = Some n \<longrightarrow> n = to_ascii_lowercase s)"

section \<open>The directives\<close>

record cache_control =
  cc_no_store :: bool
  cc_no_cache :: bool
  cc_private :: bool
  cc_public :: bool
  cc_must_revalidate :: bool
  cc_immutable :: bool
  cc_max_age :: "nat option"
  cc_s_maxage :: "nat option"

definition cc_default :: cache_control where
  "cc_default = \<lparr>cc_no_store = False, cc_no_cache = False, cc_private = False, cc_public = False,
     cc_must_revalidate = False, cc_immutable = False, cc_max_age = None, cc_s_maxage = None\<rparr>"

definition cc_unquote :: "string \<Rightarrow> string" where
  "cc_unquote v =
     (case Option.bind (strip_prefix [CHR 0x22] v) (strip_suffix [CHR 0x22]) of
        Some r \<Rightarrow> r | None \<Rightarrow> v)"

definition u64_saturating_parse :: "string \<Rightarrow> nat" where
  "u64_saturating_parse v = (case parse_unsigned 64 v of Some n \<Rightarrow> n | None \<Rightarrow> 2 ^ 64 - 1)"

definition delta_seconds :: "string \<Rightarrow> nat option" where
  "delta_seconds v =
     (if v = [] \<or> \<not> list_all is_ascii_digit v then None else Some (u64_saturating_parse v))"

definition option_or :: "'a option \<Rightarrow> 'a option \<Rightarrow> 'a option" where
  "option_or a b = (case a of Some x \<Rightarrow> Some x | None \<Rightarrow> b)"

definition directive_parts :: "string \<Rightarrow> string \<times> string option" where
  "directive_parts token =
     (case split_once (CHR ''='') token of
        Some (name, argument) \<Rightarrow> (trim name, Some (cc_unquote (trim argument)))
      | None \<Rightarrow> (token, None))"

definition absorb_token :: "string \<Rightarrow> cache_control \<Rightarrow> cache_control" where
  "absorb_token raw cc =
     (let token = trim raw
      in if token = [] then cc
         else case directive_parts token of (name, argument) \<Rightarrow>
           (let n = to_ascii_lowercase name
            in if n = ''no-store'' then cc\<lparr>cc_no_store := True\<rparr>
               else if n = ''no-cache'' then cc\<lparr>cc_no_cache := True\<rparr>
               else if n = ''private'' then cc\<lparr>cc_private := True\<rparr>
               else if n = ''public'' then cc\<lparr>cc_public := True\<rparr>
               else if n = ''must-revalidate'' then cc\<lparr>cc_must_revalidate := True\<rparr>
               else if n = ''immutable'' then cc\<lparr>cc_immutable := True\<rparr>
               else if n = ''max-age''
                 then cc\<lparr>cc_max_age := option_or (Option.bind argument delta_seconds) (cc_max_age cc)\<rparr>
               else if n = ''s-maxage''
                 then cc\<lparr>cc_s_maxage := option_or (Option.bind argument delta_seconds) (cc_s_maxage cc)\<rparr>
               else cc))"

definition absorb :: "string \<Rightarrow> cache_control \<Rightarrow> cache_control" where
  "absorb text = fold absorb_token (split_by (\<lambda>c. c = CHR '','') text)"

definition absorb_value :: "cache_ext \<Rightarrow> header_value \<Rightarrow> cache_control \<Rightarrow> cache_control" where
  "absorb_value X v cc = (case cx_to_str X v of Some text \<Rightarrow> absorb text cc | None \<Rightarrow> cc)"

definition cc_of :: "cache_ext \<Rightarrow> header_map \<Rightarrow> cache_control" where
  "cc_of X h = fold (absorb_value X) (hm_get_all h ''cache-control'') cc_default"

definition pragma_no_cache :: "cache_ext \<Rightarrow> header_value \<Rightarrow> bool" where
  "pragma_no_cache X v =
     (case cx_to_str X v of
        Some text \<Rightarrow>
          list_ex (\<lambda>t. eq_ignore_ascii_case (trim t) ''no-cache'') (split_by (\<lambda>c. c = CHR '','') text)
      | None \<Rightarrow> False)"

definition cc_of_request :: "cache_ext \<Rightarrow> header_map \<Rightarrow> cache_control" where
  "cc_of_request X h =
     (let parsed = cc_of X h
      in if \<not> hm_contains h ''cache-control''
         then fold (\<lambda>v cc. if pragma_no_cache X v then cc\<lparr>cc_no_cache := True\<rparr> else cc)
                (hm_get_all h ''pragma'') parsed
         else parsed)"

definition explicit_lifetime :: "cache_control \<Rightarrow> duration option" where
  "explicit_lifetime cc = map_option from_secs (cc_max_age cc)"

section \<open>Field lines combine as their comma-joined value\<close>

lemma split_by_join: "p d \<Longrightarrow> split_by p (s @ d # t) = split_by p s @ split_by p t"
proof (induction s)
  case Nil
  then show ?case by simp
next
  case (Cons c s)
  show ?case
  proof (cases "p c")
    case True
    with Cons show ?thesis by simp
  next
    case False
    with Cons show ?thesis by (cases "split_by p s") (auto simp: split_by_Cons_not)
  qed
qed

lemma absorb_join: "absorb (a @ CHR '','' # b) = absorb b \<circ> absorb a"
  by (rule ext) (simp add: absorb_def split_by_join)

lemma absorb_join_with:
  "vs \<noteq> [] \<Longrightarrow> absorb (join_with '','' vs) = fold absorb vs"
  by (induction "'',''" vs rule: join_with.induct) (auto simp: absorb_join)

lemma header_text_join: "\<forall>v \<in> set vs. header_text v \<Longrightarrow> header_text (join_with '','' vs)"
  by (induction "'',''" vs rule: join_with.induct) (auto simp: header_text_def byte_def)

lemma fold_absorb_value:
  assumes "value_law X" and "\<forall>v \<in> set vs. header_text v"
  shows "fold (absorb_value X) vs = fold absorb vs"
  using assms by (intro ext fold_cong) (auto simp: absorb_value_def value_law_def)

lemma cc_of_joined:
  assumes X: "value_law X" and t: "\<forall>v \<in> set (hm_get_all h ''cache-control''). header_text v"
    and ne: "hm_contains h ''cache-control''"
  shows "cc_of X (hm_insert ''cache-control'' (join_with '','' (hm_get_all h ''cache-control'')) h)
    = cc_of X h"
proof -
  let ?vs = "hm_get_all h ''cache-control''"
  have "absorb_value X (join_with '','' ?vs) = absorb (join_with '','' ?vs)"
    using X header_text_join [OF t] by (auto simp: absorb_value_def value_law_def)
  with ne show ?thesis
    by (simp add: cc_of_def hm_simps absorb_join_with hm_contains_def fold_absorb_value [OF X t])
qed

section \<open>What each directive means\<close>

definition directive_name :: "string \<Rightarrow> string" where
  "directive_name token = to_ascii_lowercase (fst (directive_parts (trim token)))"

definition message_tokens :: "cache_ext \<Rightarrow> header_map \<Rightarrow> string list" where
  "message_tokens X h =
     concat (map (\<lambda>v. case cx_to_str X v of Some t \<Rightarrow> split_by (\<lambda>c. c = CHR '','') t | None \<Rightarrow> [])
       (hm_get_all h ''cache-control''))"

lemma cc_of_tokens: "cc_of X h = fold absorb_token (message_tokens X h) cc_default"
proof -
  have "fold (absorb_value X) vs cc = fold absorb_token
      (concat (map (\<lambda>v. case cx_to_str X v of Some t \<Rightarrow> split_by (\<lambda>c. c = CHR '','') t | None \<Rightarrow> []) vs)) cc"
    for vs cc
    by (induction vs arbitrary: cc) (auto simp: absorb_value_def absorb_def split: option.split)
  then show ?thesis by (simp add: cc_of_def message_tokens_def)
qed

lemma directive_name_empty: "trim t = [] \<Longrightarrow> directive_name t = []"
  by (simp add: directive_name_def directive_parts_def split_once_def to_ascii_lowercase_def)

lemma absorb_token_flags:
  "cc_no_store (absorb_token t cc) \<longleftrightarrow> cc_no_store cc \<or> directive_name t = ''no-store''"
  "cc_no_cache (absorb_token t cc) \<longleftrightarrow> cc_no_cache cc \<or> directive_name t = ''no-cache''"
  "cc_private (absorb_token t cc) \<longleftrightarrow> cc_private cc \<or> directive_name t = ''private''"
  "cc_public (absorb_token t cc) \<longleftrightarrow> cc_public cc \<or> directive_name t = ''public''"
  "cc_must_revalidate (absorb_token t cc) \<longleftrightarrow>
     cc_must_revalidate cc \<or> directive_name t = ''must-revalidate''"
  "cc_immutable (absorb_token t cc) \<longleftrightarrow> cc_immutable cc \<or> directive_name t = ''immutable''"
  using directive_name_empty [of t]
  by (auto simp: absorb_token_def directive_name_def Let_def split: prod.splits)

lemma fold_absorb_token_flags:
  "cc_no_store (fold absorb_token ts cc) \<longleftrightarrow> cc_no_store cc \<or> (\<exists>t \<in> set ts. directive_name t = ''no-store'')"
  "cc_no_cache (fold absorb_token ts cc) \<longleftrightarrow> cc_no_cache cc \<or> (\<exists>t \<in> set ts. directive_name t = ''no-cache'')"
  "cc_private (fold absorb_token ts cc) \<longleftrightarrow> cc_private cc \<or> (\<exists>t \<in> set ts. directive_name t = ''private'')"
  "cc_public (fold absorb_token ts cc) \<longleftrightarrow> cc_public cc \<or> (\<exists>t \<in> set ts. directive_name t = ''public'')"
  "cc_must_revalidate (fold absorb_token ts cc) \<longleftrightarrow>
     cc_must_revalidate cc \<or> (\<exists>t \<in> set ts. directive_name t = ''must-revalidate'')"
  "cc_immutable (fold absorb_token ts cc) \<longleftrightarrow> cc_immutable cc \<or> (\<exists>t \<in> set ts. directive_name t = ''immutable'')"
  by (induction ts arbitrary: cc) (auto simp: absorb_token_flags)

lemma cc_of_flags:
  "cc_no_store (cc_of X h) \<longleftrightarrow> (\<exists>t \<in> set (message_tokens X h). directive_name t = ''no-store'')"
  "cc_no_cache (cc_of X h) \<longleftrightarrow> (\<exists>t \<in> set (message_tokens X h). directive_name t = ''no-cache'')"
  "cc_private (cc_of X h) \<longleftrightarrow> (\<exists>t \<in> set (message_tokens X h). directive_name t = ''private'')"
  "cc_public (cc_of X h) \<longleftrightarrow> (\<exists>t \<in> set (message_tokens X h). directive_name t = ''public'')"
  "cc_must_revalidate (cc_of X h) \<longleftrightarrow>
     (\<exists>t \<in> set (message_tokens X h). directive_name t = ''must-revalidate'')"
  "cc_immutable (cc_of X h) \<longleftrightarrow> (\<exists>t \<in> set (message_tokens X h). directive_name t = ''immutable'')"
  by (simp_all add: cc_of_tokens fold_absorb_token_flags cc_default_def)

text \<open>The number of seconds is the written one, or the largest \<open>u64\<close>.\<close>

lemma parse_unsigned_64:
  assumes "list_all is_ascii_digit v" and "v \<noteq> []"
  shows "u64_saturating_parse v = min (digits_val v) (2 ^ 64 - 1)"
  using assms
  by (auto simp: u64_saturating_parse_def parse_unsigned_def skip_plus_digits all_digits_def list_all_iff)

text \<open>What a message says about seconds: the last token of that name whose argument, quotes aside, is a
  decimal number, capped at the largest \<open>u64\<close>.\<close>

definition written_seconds :: "string \<Rightarrow> string \<Rightarrow> nat option" where
  "written_seconds name token =
     (case snd (directive_parts (trim token)) of
        Some v \<Rightarrow>
          if directive_name token = name \<and> v \<noteq> [] \<and> list_all is_ascii_digit v
          then Some (min (digits_val v) (2 ^ 64 - 1)) else None
      | None \<Rightarrow> None)"

definition stated_seconds :: "string \<Rightarrow> string list \<Rightarrow> nat option" where
  "stated_seconds name tokens =
     (let ns = List.map_filter (written_seconds name) tokens in if ns = [] then None else Some (last ns))"

lemma stated_seconds_snoc:
  "stated_seconds name (ts @ [t]) = option_or (written_seconds name t) (stated_seconds name ts)"
  by (auto simp: stated_seconds_def option_or_def map_filter_def Let_def split: option.splits)

lemma delta_seconds_written:
  "delta_seconds v
     = (if v \<noteq> [] \<and> list_all is_ascii_digit v then Some (min (digits_val v) (2 ^ 64 - 1)) else None)"
  using parse_unsigned_64 [of v] by (auto simp: delta_seconds_def)

lemma written_seconds_bind:
  "directive_name t = name \<Longrightarrow>
     Option.bind (snd (directive_parts (trim t))) delta_seconds = written_seconds name t"
  "directive_name t \<noteq> name \<Longrightarrow> written_seconds name t = None"
  by (auto simp: written_seconds_def delta_seconds_written split: option.split)

lemma absorb_token_seconds:
  "cc_max_age (absorb_token t cc) = option_or (written_seconds ''max-age'' t) (cc_max_age cc)"
  "cc_s_maxage (absorb_token t cc) = option_or (written_seconds ''s-maxage'' t) (cc_s_maxage cc)"
  using directive_name_empty [of t] written_seconds_bind(1) [of t]
    written_seconds_bind(2) [of t "''max-age''"] written_seconds_bind(2) [of t "''s-maxage''"]
  by (auto simp: absorb_token_def directive_name_def Let_def option_or_def split: prod.splits)

lemma cc_of_seconds:
  "cc_max_age (cc_of X h) = stated_seconds ''max-age'' (message_tokens X h)"
  "cc_s_maxage (cc_of X h) = stated_seconds ''s-maxage'' (message_tokens X h)"
proof -
  have "cc_max_age (fold absorb_token ts cc_default) = stated_seconds ''max-age'' ts
      \<and> cc_s_maxage (fold absorb_token ts cc_default) = stated_seconds ''s-maxage'' ts" for ts
    by (induction ts rule: rev_induct)
      (simp_all add: absorb_token_seconds stated_seconds_snoc, simp add: stated_seconds_def cc_default_def map_filter_def)
  then show "cc_max_age (cc_of X h) = stated_seconds ''max-age'' (message_tokens X h)"
    and "cc_s_maxage (cc_of X h) = stated_seconds ''s-maxage'' (message_tokens X h)"
    by (simp_all add: cc_of_tokens)
qed

lemma cc_of_request_no_store: "cc_no_store (cc_of_request X h) = cc_no_store (cc_of X h)"
proof -
  have "cc_no_store (fold (\<lambda>v cc. if pragma_no_cache X v then cc\<lparr>cc_no_cache := True\<rparr> else cc) vs cc)
      = cc_no_store cc" for vs and cc :: cache_control
    by (induction vs arbitrary: cc) auto
  then show ?thesis by (simp add: cc_of_request_def Let_def)
qed

lemma delta_seconds_show: "delta_seconds (show_nat n) = Some (min n (2 ^ 64 - 1))"
  using show_nat_all_digits [of n] parse_unsigned_64 [of "show_nat n"]
  by (auto simp: delta_seconds_def all_digits_def list_all_iff digits_val_show_nat)

lemma delta_seconds_bound: "delta_seconds v = Some n \<Longrightarrow> n < 2 ^ 64"
  using parse_unsigned_64 [of v] by (auto simp: delta_seconds_def split: if_splits)

lemma from_secs_bound: "n < 2 ^ 64 \<Longrightarrow> from_secs n \<le> max_duration"
proof -
  assume "n < 2 ^ 64"
  then have "n * nanos_per_sec \<le> (2 ^ 64 - 1) * nanos_per_sec" by (intro mult_right_mono) auto
  then show ?thesis by (simp add: from_secs_def max_duration_def nanos_per_sec_def)
qed

lemma absorb_token_max_age:
  assumes "\<forall>n. cc_max_age cc = Some n \<longrightarrow> n < 2 ^ 64"
  shows "\<forall>n. cc_max_age (absorb_token t cc) = Some n \<longrightarrow> n < 2 ^ 64"
  using assms delta_seconds_bound
  by (auto simp: absorb_token_def Let_def option_or_def split: prod.splits option.splits
      bind_splits)

lemma cc_of_max_age: "cc_max_age (cc_of X h) = Some n \<Longrightarrow> n < 2 ^ 64"
proof -
  have "\<forall>n. cc_max_age (fold absorb_token ts cc) = Some n \<longrightarrow> n < 2 ^ 64"
    if "\<forall>n. cc_max_age cc = Some n \<longrightarrow> n < 2 ^ 64" for ts cc
    using that
  proof (induction ts arbitrary: cc)
    case (Cons t ts)
    show ?case using Cons.IH [OF absorb_token_max_age [OF Cons.prems]] by simp
  qed simp
  from this [of cc_default] show "cc_max_age (cc_of X h) = Some n \<Longrightarrow> n < 2 ^ 64"
    by (simp add: cc_of_tokens cc_default_def)
qed

section \<open>A concrete instance of what lies outside\<close>

definition sample_cache_ext :: cache_ext where
  "sample_cache_ext =
     \<lparr>cx_to_str = (\<lambda>v. if header_text v then Some v else None),
      cx_name = (\<lambda>s. if s \<noteq> [] \<and> list_all (\<lambda>c. \<not> is_delimiter c \<or> c = CHR ''-'') s
                       then Some (to_ascii_lowercase s) else None),
      cx_target = (\<lambda>u. url_scheme u @ ''://'' @ (case url_host_str u of Some h \<Rightarrow> h | None \<Rightarrow> []) @ url_path u
                       @ (case url_query u of Some q \<Rightarrow> CHR ''?'' # q | None \<Rightarrow> [])),
      cx_join = (\<lambda>u s. case s of CHR ''/'' # p \<Rightarrow> Some (u\<lparr>url_path := s, url_query := None\<rparr>) | _ \<Rightarrow> None),
      cx_same_origin = (\<lambda>u v. url_scheme u = url_scheme v \<and> url_host_str u = url_host_str v
                                \<and> url_port_or_known_default u = url_port_or_known_default v),
      cx_hash = (\<lambda>k. length (key_target k)),
      cx_key_size = 40, cx_entry_size = 200\<rparr>"

lemma sample_cache_laws: "value_law sample_cache_ext" "name_law sample_cache_ext"
  by (simp_all add: sample_cache_ext_def value_law_def name_law_def)

section \<open>Properties\<close>

text \<open>C29: A message with several readable \<open>Cache-Control\<close> lines means the same as the message with
  their single comma-joined value. Each of the six flags is set exactly when some comma-separated token of
  some line has its name, in any case and with or without an argument. \<open>max-age\<close> and \<open>s-maxage\<close> have the
  number of the last token of that name whose argument is a decimal number, in quotes or not, capped at
  the largest \<open>u64\<close>; a token of that name without a readable number is ignored.\<close>
theorem cache_control_lines_join:
  assumes "value_law X" and "\<forall>v \<in> set (hm_get_all h ''cache-control''). header_text v"
    and "hm_contains h ''cache-control''"
  shows "cc_of X (hm_insert ''cache-control'' (join_with '','' (hm_get_all h ''cache-control'')) h)
      = cc_of X h
    \<and> (let named = (\<lambda>d. \<exists>t \<in> set (message_tokens X h). directive_name t = d)
       in cc_of X h =
            \<lparr>cc_no_store = named ''no-store'', cc_no_cache = named ''no-cache'',
             cc_private = named ''private'', cc_public = named ''public'',
             cc_must_revalidate = named ''must-revalidate'', cc_immutable = named ''immutable'',
             cc_max_age = stated_seconds ''max-age'' (message_tokens X h),
             cc_s_maxage = stated_seconds ''s-maxage'' (message_tokens X h)\<rparr>)"
  using cc_of_joined [OF assms] cc_of_flags [of X h] cc_of_seconds [of X h]
  by (cases "cc_of X h") (simp add: Let_def)

definition two_lines :: header_map where
  "two_lines = [(''cache-control'', ''max-age=60, Private=x,MAX-AGE=soon''),
     (''cache-control'', ''No-Store , max-age=\"70\", s-maxage'')]"

theorem cache_control_lines_join_witness:
  "cc_of sample_cache_ext
      (hm_insert ''cache-control''
        ''max-age=60, Private=x,MAX-AGE=soon,No-Store , max-age=\"70\", s-maxage'' two_lines)
   = cc_of sample_cache_ext two_lines
   \<and> cc_of sample_cache_ext two_lines =
       \<lparr>cc_no_store = True, cc_no_cache = False, cc_private = True, cc_public = False,
        cc_must_revalidate = False, cc_immutable = False, cc_max_age = Some 70, cc_s_maxage = None\<rparr>"
proof -
  let ?ts = "message_tokens sample_cache_ext two_lines"
  have join: "join_with '','' (hm_get_all two_lines ''cache-control'')
      = ''max-age=60, Private=x,MAX-AGE=soon,No-Store , max-age=\"70\", s-maxage''" by code_simp
  have named: "(\<exists>t \<in> set ?ts. directive_name t = ''no-store'') = True"
    "(\<exists>t \<in> set ?ts. directive_name t = ''no-cache'') = False"
    "(\<exists>t \<in> set ?ts. directive_name t = ''private'') = True"
    "(\<exists>t \<in> set ?ts. directive_name t = ''public'') = False"
    "(\<exists>t \<in> set ?ts. directive_name t = ''must-revalidate'') = False"
    "(\<exists>t \<in> set ?ts. directive_name t = ''immutable'') = False"
    "stated_seconds ''max-age'' ?ts = Some 70" "stated_seconds ''s-maxage'' ?ts = None"
    by code_simp+
  have "\<forall>v \<in> set (hm_get_all two_lines ''cache-control''). header_text v"
    and "hm_contains two_lines ''cache-control''" by code_simp+
  from cache_control_lines_join [OF sample_cache_laws(1) this] show ?thesis
    unfolding join Let_def named .
qed

end
