(* ===== verification/Cache_Entry.thy ===== *)
theory Cache_Entry
  imports Cache_Control
begin

text \<open>
  \<open>chromulate-cache/src/entry.rs\<close>: cache keys, \<open>Vary\<close> selectors, stored responses, the merge of a
  \<open>304\<close> into a stored response and the removal of connection-specific fields.
\<close>

section \<open>Keys and selectors\<close>

definition cache_key_new :: "cache_ext \<Rightarrow> string \<Rightarrow> url \<Rightarrow> cache_key" where
  "cache_key_new X meth u = \<lparr>key_method = meth, key_target = cx_target X u\<rparr>"

definition key_size :: "cache_ext \<Rightarrow> cache_key \<Rightarrow> nat" where
  "key_size X k = cx_key_size X + length (key_target k)"

type_synonym selector = "(header_name \<times> header_value list) list"

definition selector_any :: selector where
  "selector_any = []"

definition selector_of :: "header_name list \<Rightarrow> header_map \<Rightarrow> selector" where
  "selector_of names request = map (\<lambda>name. (name, hm_get_all request name)) names"

text \<open>The loop that walks the two value sequences in step.\<close>

fun same_values :: "header_value list \<Rightarrow> header_value list \<Rightarrow> bool" where
  "same_values [] [] = True"
| "same_values (a # offered) (b # expected) = (if a = b then same_values offered expected else False)"
| "same_values _ _ = False"

definition selector_matches :: "selector \<Rightarrow> header_map \<Rightarrow> bool" where
  "selector_matches s request =
     list_all (\<lambda>(name, stored). same_values (hm_get_all request name) stored) s"

definition selector_names :: "selector \<Rightarrow> header_name list" where
  "selector_names s = map fst s"

definition selector_size :: "selector \<Rightarrow> nat" where
  "selector_size s = sum_list (map (\<lambda>(name, values). length name + sum_list (map length values)) s)"

section \<open>Stored responses\<close>

record cache_entry =
  ce_status :: nat
  ce_version :: string
  ce_headers :: header_map
  ce_body :: string
  ce_selector :: selector
  ce_requested_at :: system_time
  ce_received_at :: system_time

definition entry_new ::
  "nat \<Rightarrow> string \<Rightarrow> header_map \<Rightarrow> string \<Rightarrow> selector \<Rightarrow> system_time \<Rightarrow> system_time \<Rightarrow> cache_entry" where
  "entry_new status version headers body selector requested_at received_at =
     \<lparr>ce_status = status, ce_version = version, ce_headers = headers, ce_body = body,
      ce_selector = selector, ce_requested_at = requested_at, ce_received_at = received_at\<rparr>"

definition entry_size :: "cache_ext \<Rightarrow> cache_entry \<Rightarrow> nat" where
  "entry_size X e =
     cx_entry_size X + length (ce_body e)
     + sum_list (map (\<lambda>(name, v). length name + length v) (ce_headers e))
     + selector_size (ce_selector e)"

definition header_date :: "cache_ext \<Rightarrow> header_map \<Rightarrow> header_name \<Rightarrow> system_time option" where
  "header_date X h name =
     do { v \<leftarrow> hm_get h name; text \<leftarrow> cx_to_str X v; parse_http_date text }"

definition entry_date :: "cache_ext \<Rightarrow> cache_entry \<Rightarrow> system_time option" where
  "entry_date X e = header_date X (ce_headers e) ''date''"

definition entry_last_modified :: "cache_ext \<Rightarrow> cache_entry \<Rightarrow> system_time option" where
  "entry_last_modified X e = header_date X (ce_headers e) ''last-modified''"

definition effective_date :: "cache_ext \<Rightarrow> cache_entry \<Rightarrow> system_time" where
  "effective_date X e = (case entry_date X e of Some t \<Rightarrow> t | None \<Rightarrow> ce_received_at e)"

definition age_field :: "cache_ext \<Rightarrow> cache_entry \<Rightarrow> duration option" where
  "age_field X e =
     do {
       v \<leftarrow> hm_get (ce_headers e) ''age'';
       text \<leftarrow> cx_to_str X v;
       if text = [] \<or> \<not> list_all is_ascii_digit text then None
       else Some (from_secs (u64_saturating_parse text))
     }"

definition expires_field :: "cache_ext \<Rightarrow> cache_entry \<Rightarrow> system_time option" where
  "expires_field X e =
     (case hm_get (ce_headers e) ''expires'' of
        None \<Rightarrow> None
      | Some v \<Rightarrow>
          Some (case Option.bind (cx_to_str X v) parse_http_date of Some t \<Rightarrow> t | None \<Rightarrow> 0))"

section \<open>Connection-specific fields\<close>

definition is_hop_by_hop :: "header_name \<Rightarrow> bool" where
  "is_hop_by_hop name \<longleftrightarrow>
     name \<in> set [''connection'', ''keep-alive'', ''proxy-authenticate'', ''proxy-authorization'',
       ''proxy-connection'', ''te'', ''trailer'', ''transfer-encoding'', ''upgrade'']"

definition connection_named :: "cache_ext \<Rightarrow> header_map \<Rightarrow> header_name list" where
  "connection_named X h =
     List.map_filter (\<lambda>token. cx_name X (trim token))
       (concat (map (split_by (\<lambda>c. c = CHR '',''))
         (List.map_filter (cx_to_str X) (hm_get_all h ''connection''))))"

definition strip_hop_by_hop :: "cache_ext \<Rightarrow> header_map \<Rightarrow> header_map" where
  "strip_hop_by_hop X h =
     fold hm_remove (filter is_hop_by_hop (hm_keys h) @ connection_named X h) h"

section \<open>Vary\<close>

definition vary_token :: "cache_ext \<Rightarrow> string \<Rightarrow> header_name list \<Rightarrow> header_name list option" where
  "vary_token X raw names =
     (let token = trim raw
      in if token = [] then Some names
         else if token = ''*'' then None
         else case cx_name X token of Some name \<Rightarrow> Some (names @ [name]) | None \<Rightarrow> None)"

definition vary_value :: "cache_ext \<Rightarrow> header_value \<Rightarrow> header_name list \<Rightarrow> header_name list option" where
  "vary_value X v names =
     (case cx_to_str X v of
        None \<Rightarrow> None
      | Some text \<Rightarrow> for_each (vary_token X) (split_by (\<lambda>c. c = CHR '','') text) names)"

definition vary_names :: "cache_ext \<Rightarrow> header_map \<Rightarrow> header_name list option" where
  "vary_names X h =
     map_option (\<lambda>names. remdups_adj (sort names)) (for_each (vary_value X) (hm_get_all h ''vary'') [])"

section \<open>Merging a 304\<close>

definition merge_field :: "header_map \<Rightarrow> header_name \<Rightarrow> header_map \<Rightarrow> header_map" where
  "merge_field not_modified name headers =
     (if is_hop_by_hop name \<or> name = ''content-length'' then headers
      else case hm_get_all not_modified name of
             [] \<Rightarrow> headers
           | first # extra \<Rightarrow> fold (hm_append name) extra (hm_insert name first headers))"

definition refreshed :: "cache_entry \<Rightarrow> header_map \<Rightarrow> system_time \<Rightarrow> system_time \<Rightarrow> cache_entry" where
  "refreshed e not_modified requested_at received_at =
     \<lparr>ce_status = ce_status e, ce_version = ce_version e,
      ce_headers = fold (merge_field not_modified) (hm_keys not_modified) (ce_headers e),
      ce_body = ce_body e, ce_selector = ce_selector e,
      ce_requested_at = requested_at, ce_received_at = received_at\<rparr>"

section \<open>Selectors match exactly the requests with the recorded values\<close>

lemma same_values_eq: "same_values a b \<longleftrightarrow> a = b"
  by (induction a b rule: same_values.induct) auto

lemma selector_matches_of:
  "selector_matches (selector_of names request) other \<longleftrightarrow>
     (\<forall>n \<in> set names. hm_get_all other n = hm_get_all request n)"
  by (auto simp: selector_matches_def selector_of_def same_values_eq list_all_iff)

lemma selector_of_eq:
  "selector_of names r = selector_of names r' \<longleftrightarrow> (\<forall>n \<in> set names. hm_get_all r n = hm_get_all r' n)"
  by (auto simp: selector_of_def)

section \<open>What Vary selects on\<close>

lemma for_each_append: "for_each f (xs @ ys) s = Option.bind (for_each f xs s) (for_each f ys)"
  by (induction xs arbitrary: s) (auto split: bind_splits)

definition vary_tokens :: "cache_ext \<Rightarrow> header_map \<Rightarrow> string list" where
  "vary_tokens X h =
     filter (\<lambda>t. t \<noteq> []) (map trim (concat (map (split_by (\<lambda>c. c = CHR '',''))
       (hm_get_all h ''vary''))))"

lemma vary_token_loop:
  "for_each (vary_token X) ts names = Some out \<longleftrightarrow>
     (let ws = filter (\<lambda>t. t \<noteq> []) (map trim ts)
      in ''*'' \<notin> set ws \<and> (\<forall>w \<in> set ws. cx_name X w \<noteq> None)
         \<and> out = names @ map (\<lambda>w. the (cx_name X w)) ws)"
  by (induction ts arbitrary: names) (auto simp: vary_token_def Let_def split: option.splits)

lemma vary_value_loop:
  assumes X: "value_law X"
  shows "for_each (vary_value X) vs names = Some out \<longleftrightarrow>
     (\<forall>v \<in> set vs. header_text v) \<and>
     for_each (vary_token X) (concat (map (split_by (\<lambda>c. c = CHR '','')) vs)) names = Some out"
proof (induction vs arbitrary: names)
  case Nil
  then show ?case by simp
next
  case (Cons v vs)
  show ?case
    using X Cons
    by (auto simp: vary_value_def value_law_def for_each_append split: bind_splits)
qed

lemma vary_names_Some:
  assumes X: "value_law X"
  shows "vary_names X h = Some names \<longleftrightarrow>
    (\<forall>v \<in> set (hm_get_all h ''vary''). header_text v) \<and> ''*'' \<notin> set (vary_tokens X h)
    \<and> (\<forall>t \<in> set (vary_tokens X h). cx_name X t \<noteq> None)
    \<and> names = remdups_adj (sort (map (\<lambda>t. the (cx_name X t)) (vary_tokens X h)))"
  unfolding vary_names_def map_option_eq_Some vary_value_loop [OF X] vary_token_loop vary_tokens_def Let_def
  by auto

lemma distinct_remdups_adj: "sorted (xs :: 'a::linorder list) \<Longrightarrow> distinct (remdups_adj xs)"
  by (induction xs rule: remdups_adj.induct) (auto simp: order.strict_iff_not)

lemma vary_names_set:
  assumes "value_law X" and "name_law X" and "vary_names X h = Some names"
  shows "set names = to_ascii_lowercase ` set (vary_tokens X h)" and "sorted names" and "distinct names"
proof -
  from assms have "names = remdups_adj (sort (map (\<lambda>t. the (cx_name X t)) (vary_tokens X h)))"
    and some: "\<forall>t \<in> set (vary_tokens X h). cx_name X t \<noteq> None"
    by (simp_all add: vary_names_Some)
  then have n: "names = remdups_adj (sort (map to_ascii_lowercase (vary_tokens X h)))"
    using assms(2) by (metis (mono_tags, lifting) map_eq_conv name_law_def option.collapse)
  then show "set names = to_ascii_lowercase ` set (vary_tokens X h)" by simp
  from n show "sorted names" and "distinct names"
    by (simp_all add: sorted_remdups_adj distinct_remdups_adj)
qed

section \<open>Field by field\<close>

definition mergeable :: "header_name \<Rightarrow> bool" where
  "mergeable n \<longleftrightarrow> \<not> is_hop_by_hop n \<and> n \<noteq> ''content-length''"

lemma merge_field_get:
  "hm_get_all (merge_field nm n h) k =
     (if k = n \<and> mergeable n \<and> hm_get_all nm n \<noteq> [] then hm_get_all nm n else hm_get_all h k)"
  by (cases "hm_get_all nm n") (auto simp: merge_field_def mergeable_def hm_simps)

lemma fold_merge_field_get:
  "hm_get_all (fold (merge_field nm) ns h) k =
     (if k \<in> set ns \<and> mergeable k \<and> hm_get_all nm k \<noteq> [] then hm_get_all nm k else hm_get_all h k)"
  by (induction ns arbitrary: h) (auto simp: merge_field_get)

lemma refreshed_get:
  "hm_get_all (ce_headers (refreshed e nm rq rc)) k =
     (if mergeable k \<and> hm_contains nm k then hm_get_all nm k else hm_get_all (ce_headers e) k)"
  by (simp add: refreshed_def fold_merge_field_get hm.keys_iff hm_contains_def)

lemma strip_hop_by_hop_get:
  "hm_get_all (strip_hop_by_hop X h) k =
     (if is_hop_by_hop k \<or> k \<in> set (connection_named X h) then [] else hm_get_all h k)"
  by (auto simp: strip_hop_by_hop_def hm_simps hm.keys_iff)

lemma set_map_filter: "y \<in> set (List.map_filter f xs) \<longleftrightarrow> (\<exists>x \<in> set xs. f x = Some y)"
  by (induction xs) (auto simp: map_filter_simps split: option.splits)

lemma connection_named_mem:
  assumes X: "value_law X"
  shows "k \<in> set (connection_named X h) \<longleftrightarrow>
    (\<exists>v \<in> set (hm_get_all h ''connection''). header_text v \<and>
      (\<exists>t \<in> set (split_by (\<lambda>c. c = CHR '','') v). cx_name X (trim t) = Some k))"
proof -
  have readable: "cx_to_str X v = Some t \<longleftrightarrow> header_text v \<and> t = v" for v t
    using X by (auto simp: value_law_def)
  show ?thesis by (auto simp: connection_named_def set_map_filter readable)
qed

section \<open>Properties\<close>

text \<open>C31: A \<open>304\<close> updates a stored response field by field: every field it carries replaces the stored
  values of that field, except the connection-specific fields and \<open>Content-Length\<close>; every other field,
  the body, the status and the selector stay as stored, and the entry's clock restarts at the times of
  the revalidation.\<close>
theorem refresh_merges_fields:
  "ce_body (refreshed e nm rq rc) = ce_body e \<and> ce_status (refreshed e nm rq rc) = ce_status e
   \<and> ce_selector (refreshed e nm rq rc) = ce_selector e
   \<and> ce_requested_at (refreshed e nm rq rc) = rq \<and> ce_received_at (refreshed e nm rq rc) = rc
   \<and> hm_get_all (ce_headers (refreshed e nm rq rc)) k =
       (if \<not> is_hop_by_hop k \<and> k \<noteq> ''content-length'' \<and> hm_contains nm k
        then hm_get_all nm k else hm_get_all (ce_headers e) k)"
proof (intro conjI)
  show "hm_get_all (ce_headers (refreshed e nm rq rc)) k =
       (if \<not> is_hop_by_hop k \<and> k \<noteq> ''content-length'' \<and> hm_contains nm k
        then hm_get_all nm k else hm_get_all (ce_headers e) k)"
    unfolding refreshed_get mergeable_def by simp
qed (simp_all add: refreshed_def)

text \<open>C26: \<open>Vary\<close> selects exactly: a response's selector matches a later request precisely when that
  request carries, for every field the response's \<open>Vary\<close> names in any case, the same sequence of values
  as the request that fetched it, absence included.\<close>
theorem vary_selects_exactly:
  assumes "value_law X" and "name_law X" and "vary_names X h = Some names"
  shows "selector_matches (selector_of names request) other \<longleftrightarrow>
    (\<forall>t \<in> set (vary_tokens X h).
       hm_get_all other (to_ascii_lowercase t) = hm_get_all request (to_ascii_lowercase t))"
  using vary_names_set(1) [OF assms] by (simp add: selector_matches_of)

theorem vary_selects_exactly_witness:
  "vary_tokens sample_cache_ext [(''vary'', ''Accept-Language, , DNT'')] = [''Accept-Language'', ''DNT'']
   \<and> (\<forall>other. selector_matches
        (selector_of [''accept-language'', ''dnt''] [(''accept-language'', ''de'')]) other
      \<longleftrightarrow> hm_get_all other ''accept-language'' = [''de''] \<and> hm_get_all other ''dnt'' = [])"
proof -
  let ?h = "[(''vary'', ''Accept-Language, , DNT'')]"
  have names: "vary_names sample_cache_ext ?h = Some [''accept-language'', ''dnt'']"
    and tokens: "vary_tokens sample_cache_ext ?h = [''Accept-Language'', ''DNT'']"
    and lower: "to_ascii_lowercase ''Accept-Language'' = ''accept-language''"
      "to_ascii_lowercase ''DNT'' = ''dnt''"
    and request: "hm_get_all [(''accept-language'', ''de'')] ''accept-language'' = [''de'']"
      "hm_get_all [(''accept-language'', ''de'')] ''dnt'' = []"
    by code_simp+
  show ?thesis
    using vary_selects_exactly [OF sample_cache_laws names, of "[(''accept-language'', ''de'')]"]
    unfolding tokens by (simp add: lower request)
qed

end
