(* ===== verification/Cache_Policy.thy ===== *)
theory Cache_Policy
  imports Cache_Entry
begin

text \<open>
  \<open>chromulate-cache/src/policy.rs\<close>: whether an exchange may be stored and whether a stored response is
  still fresh. The lemmas bound the age from below and the lifetime from above, so that a fresh answer
  implies that little time has passed.
\<close>

section \<open>Configuration and refusals\<close>

record cache_config =
  cfg_max_body_bytes :: nat
  cfg_store_private :: bool
  cfg_heuristic_cap :: duration

definition default_cache_config :: cache_config where
  "default_cache_config =
     \<lparr>cfg_max_body_bytes = 8 * 1024 * 1024, cfg_store_private = False,
      cfg_heuristic_cap = from_secs (24 * 60 * 60)\<rparr>"

datatype not_storable = NsMethod | NsRequestNoStore | NsResponseNoStore | NsStatus | NsSetCookie
  | NsVaryStar | NsVaryUnselectable | NsPrivate | NsAuthorization | NsNoFreshnessAndNoValidator

definition not_storable_text :: "not_storable \<Rightarrow> string" where
  "not_storable_text r =
     (case r of
        NsMethod \<Rightarrow> ''the method is not GET''
      | NsRequestNoStore \<Rightarrow> ''the request carried Cache-Control: no-store''
      | NsResponseNoStore \<Rightarrow> ''the response carried Cache-Control: no-store''
      | NsStatus \<Rightarrow> ''the status code is not cacheable''
      | NsSetCookie \<Rightarrow> ''the response carried Set-Cookie''
      | NsVaryStar \<Rightarrow> ''the response carried Vary: *''
      | NsVaryUnselectable \<Rightarrow> ''Vary names a header this cache cannot select on''
      | NsPrivate \<Rightarrow> ''the response is private and store_private is off''
      | NsAuthorization \<Rightarrow>
          ''the request carried Authorization and the response is not explicitly shareable''
      | NsNoFreshnessAndNoValidator \<Rightarrow>
          ''the response carries neither a freshness lifetime nor a validator'')"

definition is_cacheable_status :: "nat \<Rightarrow> bool" where
  "is_cacheable_status s \<longleftrightarrow>
     s \<in> set [200, 203, 204, 300, 301, 302, 307, 308, 404, 405, 410, 414, 501]"

definition is_heuristically_cacheable :: "nat \<Rightarrow> bool" where
  "is_heuristically_cacheable s \<longleftrightarrow>
     s \<in> set [200, 203, 204, 300, 301, 308, 404, 405, 410, 414, 501]"

definition unselectable :: "string list" where
  "unselectable =
     [''cookie'', ''accept'', ''referer'', ''origin'', ''priority'', ''upgrade-insecure-requests'',
      ''sec-fetch-site'', ''sec-fetch-mode'', ''sec-fetch-user'', ''sec-fetch-dest'',
      ''sec-ch-ua-arch'', ''sec-ch-ua-bitness'', ''sec-ch-ua-model'', ''sec-ch-ua-platform-version'',
      ''sec-ch-ua-full-version-list'']"

definition has_validator :: "header_map \<Rightarrow> bool" where
  "has_validator h \<longleftrightarrow> hm_contains h ''etag'' \<or> hm_contains h ''last-modified''"

definition storable :: "cache_ext \<Rightarrow> cache_config \<Rightarrow> string \<Rightarrow> header_map \<Rightarrow> cache_control \<Rightarrow> nat \<Rightarrow>
    header_map \<Rightarrow> cache_control \<Rightarrow> not_storable + header_name list" where
  "storable X config meth request_headers request_cc status response_headers response_cc =
     (if meth \<noteq> ''GET'' then Inl NsMethod
      else if cc_no_store request_cc then Inl NsRequestNoStore
      else if cc_no_store response_cc then Inl NsResponseNoStore
      else if \<not> is_cacheable_status status then Inl NsStatus
      else if hm_contains response_headers ''set-cookie'' then Inl NsSetCookie
      else case vary_names X response_headers of
        None \<Rightarrow> Inl NsVaryStar
      | Some names \<Rightarrow>
          if list_ex (\<lambda>n. n \<in> set unselectable) names then Inl NsVaryUnselectable
          else if cc_private response_cc \<and> \<not> cfg_store_private config then Inl NsPrivate
          else if hm_contains request_headers ''authorization'' \<and> \<not> cfg_store_private config
            \<and> \<not> (cc_public response_cc \<or> cc_must_revalidate response_cc \<or> cc_s_maxage response_cc \<noteq> None)
            then Inl NsAuthorization
          else if \<not> (cc_max_age response_cc \<noteq> None \<or> hm_contains response_headers ''expires''
            \<or> has_validator response_headers
            \<or> is_heuristically_cacheable status \<and> hm_contains response_headers ''last-modified'')
            then Inl NsNoFreshnessAndNoValidator
          else Inr names)"

section \<open>Age and freshness\<close>

definition current_age :: "cache_ext \<Rightarrow> cache_entry \<Rightarrow> system_time \<Rightarrow> duration" where
  "current_age X e now =
     (let received = ce_received_at e;
          apparent_age = duration_since_or_zero received (effective_date X e);
          response_delay = duration_since_or_zero received (ce_requested_at e);
          corrected_age =
            saturating_add (case age_field X e of Some a \<Rightarrow> a | None \<Rightarrow> 0) response_delay;
          initial_age = max apparent_age corrected_age;
          resident_time = duration_since_or_zero now received
      in saturating_add initial_age resident_time)"

definition duration_since_ok :: "system_time \<Rightarrow> system_time \<Rightarrow> duration option" where
  "duration_since_ok t u = (case duration_since t u of Inr d \<Rightarrow> Some d | Inl _ \<Rightarrow> None)"

definition freshness_lifetime ::
  "cache_ext \<Rightarrow> cache_entry \<Rightarrow> cache_control \<Rightarrow> cache_config \<Rightarrow> duration option" where
  "freshness_lifetime X e response_cc config =
     (case explicit_lifetime response_cc of
        Some explicit \<Rightarrow> Some explicit
      | None \<Rightarrow>
          (case expires_field X e of
             Some expires \<Rightarrow> Some (duration_since_or_zero expires (effective_date X e))
           | None \<Rightarrow>
               if \<not> is_heuristically_cacheable (ce_status e) then None
               else do {
                 modified \<leftarrow> entry_last_modified X e;
                 since \<leftarrow> duration_since_ok (effective_date X e) modified;
                 Some (min (since div 10) (cfg_heuristic_cap config))
               }))"

definition is_fresh ::
  "cache_ext \<Rightarrow> cache_entry \<Rightarrow> cache_control \<Rightarrow> cache_config \<Rightarrow> system_time \<Rightarrow> bool" where
  "is_fresh X e response_cc config now =
     (if cc_no_cache response_cc then False
      else case freshness_lifetime X e response_cc config of
             Some lifetime \<Rightarrow> current_age X e now < lifetime
           | None \<Rightarrow> False)"

definition request_forces_revalidation :: "cache_control \<Rightarrow> bool" where
  "request_forces_revalidation request_cc \<longleftrightarrow>
     cc_no_cache request_cc \<or> cc_max_age request_cc = Some 0"

section \<open>Ages only grow\<close>

definition initial_age :: "cache_ext \<Rightarrow> cache_entry \<Rightarrow> duration" where
  "initial_age X e =
     max (nat (ce_received_at e - effective_date X e))
       (saturating_add (case age_field X e of Some a \<Rightarrow> a | None \<Rightarrow> 0)
         (nat (ce_received_at e - ce_requested_at e)))"

lemma current_age_eq:
  "current_age X e now = saturating_add (initial_age X e) (nat (now - ce_received_at e))"
  by (simp add: current_age_def initial_age_def duration_since_or_zero_eq Let_def)

lemma saturating_add_mono: "a \<le> a' \<Longrightarrow> b \<le> b' \<Longrightarrow> saturating_add a b \<le> saturating_add a' b'"
  by (auto simp: saturating_add_def)

lemma current_age_mono: "now \<le> later \<Longrightarrow> current_age X e now \<le> current_age X e later"
  unfolding current_age_eq by (intro saturating_add_mono) auto

lemma saturating_add_less: "saturating_add a b < d \<Longrightarrow> d \<le> max_duration \<Longrightarrow> a + b < d"
  by (auto simp: saturating_add_def)

lemma current_age_less:
  assumes "current_age X e now < d" and "d \<le> max_duration"
  shows "initial_age X e + nat (now - ce_received_at e) < d"
  using assms by (auto simp: current_age_eq intro: saturating_add_less)

lemma is_fresh_earlier:
  assumes "is_fresh X e cc config later" and "now \<le> later"
  shows "is_fresh X e cc config now"
  using assms current_age_mono [OF assms(2), of X e]
  by (auto simp: is_fresh_def split: if_splits option.splits)

section \<open>How long a response stays fresh\<close>

lemma is_fresh_max_age:
  assumes fresh: "is_fresh X e (cc_of X h) config now" and n: "cc_max_age (cc_of X h) = Some n"
  shows "initial_age X e + nat (now - ce_received_at e) < from_secs n"
proof (rule current_age_less)
  show "current_age X e now < from_secs n"
    using assms by (auto simp: is_fresh_def freshness_lifetime_def explicit_lifetime_def split: if_splits)
  show "from_secs n \<le> max_duration" using cc_of_max_age [OF n] by (rule from_secs_bound)
qed

lemma is_fresh_heuristic:
  assumes fresh: "is_fresh X e cc config now" and "cc_max_age cc = None"
    and "expires_field X e = None" and cap: "cfg_heuristic_cap config \<le> max_duration"
  shows "initial_age X e + nat (now - ce_received_at e) < cfg_heuristic_cap config"
proof -
  from assms obtain d where "current_age X e now < d" and d: "d \<le> cfg_heuristic_cap config"
    by (auto simp: is_fresh_def freshness_lifetime_def explicit_lifetime_def split: if_splits bind_splits)
  then have "initial_age X e + nat (now - ce_received_at e) < d"
    using cap by (intro current_age_less) auto
  with d show ?thesis by simp
qed

lemma is_fresh_expires:
  assumes fresh: "is_fresh X e cc config now" and "cc_max_age cc = None"
    and t: "expires_field X e = Some t" and bound: "t - effective_date X e \<le> int max_duration"
  shows "now < t \<and> ce_received_at e < t"
proof -
  from assms have "current_age X e now < nat (t - effective_date X e)"
    by (auto simp: is_fresh_def freshness_lifetime_def explicit_lifetime_def duration_since_or_zero_eq
        split: if_splits)
  moreover have "nat (t - effective_date X e) \<le> max_duration" using bound by simp
  ultimately have "initial_age X e + nat (now - ce_received_at e) < nat (t - effective_date X e)"
    by (rule current_age_less)
  moreover have "nat (ce_received_at e - effective_date X e) \<le> initial_age X e"
    by (simp add: initial_age_def)
  ultimately have "nat (ce_received_at e - effective_date X e) + nat (now - ce_received_at e)
      < nat (t - effective_date X e)" by linarith
  then show ?thesis by linarith
qed

lemma checked_from_epoch:
  "checked_add 0 d = Some t \<Longrightarrow> min_time \<le> t \<and> t \<le> max_time"
  "checked_sub 0 d = Some t \<Longrightarrow> min_time \<le> t \<and> t \<le> max_time"
  by (auto simp: checked_add_def checked_sub_def min_time_def max_time_def nanos_per_sec_def
      split: if_splits)

lemma parse_http_date_range: "parse_http_date s = Some t \<Longrightarrow> min_time \<le> t \<and> t \<le> max_time"
  by (auto simp: parse_http_date_def Let_def split: bind_splits if_splits
      dest!: checked_from_epoch)

lemma expires_span:
  assumes "expires_field X e = Some t" and "min_time \<le> ce_received_at e"
  shows "t - effective_date X e \<le> int max_duration"
proof -
  have "t \<le> max_time"
    using assms(1) parse_http_date_range [of _ t]
    by (auto simp: expires_field_def max_time_def nanos_per_sec_def split: option.splits bind_splits)
  moreover have "min_time \<le> effective_date X e"
    using assms(2) parse_http_date_range
    by (auto simp: effective_date_def entry_date_def header_date_def split: option.splits bind_splits)
  ultimately show ?thesis
    by (simp add: max_time_def min_time_def max_duration_def nanos_per_sec_def)
qed

section \<open>What may be stored\<close>

lemma storable_Inr:
  "storable X config meth rqh rqcc status rsh rscc = Inr names \<longleftrightarrow>
     meth = ''GET'' \<and> \<not> cc_no_store rqcc \<and> \<not> cc_no_store rscc \<and> is_cacheable_status status
     \<and> \<not> hm_contains rsh ''set-cookie'' \<and> vary_names X rsh = Some names
     \<and> set names \<inter> set unselectable = {}
     \<and> (cc_private rscc \<longrightarrow> cfg_store_private config)
     \<and> (hm_contains rqh ''authorization'' \<longrightarrow> cfg_store_private config \<or> cc_public rscc
          \<or> cc_must_revalidate rscc \<or> cc_s_maxage rscc \<noteq> None)
     \<and> (cc_max_age rscc \<noteq> None \<or> hm_contains rsh ''expires'' \<or> has_validator rsh)"
proof -
  have "list_ex (\<lambda>n. n \<in> set unselectable) names \<longleftrightarrow> set names \<inter> set unselectable \<noteq> {}" for names
    by (auto simp: list_ex_iff)
  then show ?thesis
    by (cases "vary_names X rsh") (auto simp: storable_def has_validator_def simp del: not_None_eq)
qed

lemma stated_seconds_some:
  "stated_seconds name ts \<noteq> None \<longleftrightarrow> (\<exists>t \<in> set ts. written_seconds name t \<noteq> None)"
  by (auto simp: stated_seconds_def map_filter_def filter_empty_conv Let_def)

section \<open>Properties\<close>

text \<open>C20: Storing is conservative, with the directives read as \<open>HttpCache\<close> reads them. A response is
  stored only for a \<open>GET\<close> whose request and response carry no \<open>no-store\<close> token on any line, with a
  cacheable status, without \<open>Set-Cookie\<close>, without \<open>Vary: *\<close> and without a \<open>Vary\<close> token naming a field
  the cache cannot see (\<open>Cookie\<close> in any case among them), and only with an explicit lifetime or a
  validator. A cache shared between identities never stores a \<open>private\<close> response, and stores the answer
  to an authorized request only when the response says \<open>public\<close>, \<open>must-revalidate\<close> or \<open>s-maxage\<close> with a
  number.\<close>
theorem storing_is_conservative:
  assumes "value_law X" and "name_law X"
    and "storable X config meth rqh (cc_of_request X rqh) status rsh (cc_of X rsh) = Inr names"
  shows "meth = ''GET'' \<and> is_cacheable_status status \<and> \<not> hm_contains rsh ''set-cookie''
    \<and> (\<forall>t \<in> set (message_tokens X rqh) \<union> set (message_tokens X rsh). directive_name t \<noteq> ''no-store'')
    \<and> (\<forall>t \<in> set (vary_tokens X rsh). t \<noteq> ''*'' \<and> to_ascii_lowercase t \<notin> set unselectable)
    \<and> (stated_seconds ''max-age'' (message_tokens X rsh) \<noteq> None \<or> hm_contains rsh ''expires''
       \<or> hm_contains rsh ''etag'' \<or> hm_contains rsh ''last-modified'')
    \<and> (cfg_store_private config
       \<or> (\<forall>t \<in> set (message_tokens X rsh). directive_name t \<noteq> ''private'')
         \<and> (hm_contains rqh ''authorization'' \<longrightarrow>
              (\<exists>t \<in> set (message_tokens X rsh).
                 directive_name t = ''public'' \<or> directive_name t = ''must-revalidate''
                 \<or> written_seconds ''s-maxage'' t \<noteq> None)))"
proof -
  note ok = assms(3) [unfolded storable_Inr]
  then have names: "vary_names X rsh = Some names" by blast
  have "''*'' \<notin> set (vary_tokens X rsh)" using names by (simp add: vary_names_Some [OF assms(1)])
  moreover have "to_ascii_lowercase ` set (vary_tokens X rsh) \<inter> set unselectable = {}"
    using ok vary_names_set(1) [OF assms(1,2) names] by simp
  ultimately show ?thesis
    using ok stated_seconds_some [of "''s-maxage''" "message_tokens X rsh"]
    by (auto simp: cc_of_flags cc_of_seconds cc_of_request_no_store has_validator_def
        simp del: not_None_eq)
qed

theorem storing_is_conservative_witness:
  "storable sample_cache_ext default_cache_config ''GET''
     [(''authorization'', ''Basic eDp5''), (''pragma'', ''no-cache'')]
     (cc_of_request sample_cache_ext [(''authorization'', ''Basic eDp5''), (''pragma'', ''no-cache'')]) 200
     [(''cache-control'', ''s-maxage=60''), (''etag'', ''1''), (''vary'', ''DNT'')]
     (cc_of sample_cache_ext [(''cache-control'', ''s-maxage=60''), (''etag'', ''1''), (''vary'', ''DNT'')])
     = Inr [''dnt'']
   \<and> to_ascii_lowercase ''DNT'' \<notin> set unselectable
   \<and> (\<exists>t \<in> set (message_tokens sample_cache_ext
         [(''cache-control'', ''s-maxage=60''), (''etag'', ''1''), (''vary'', ''DNT'')]).
       directive_name t = ''public'' \<or> directive_name t = ''must-revalidate''
       \<or> written_seconds ''s-maxage'' t \<noteq> None)"
proof -
  let ?rqh = "[(''authorization'', ''Basic eDp5''), (''pragma'', ''no-cache'')]"
  let ?rsh = "[(''cache-control'', ''s-maxage=60''), (''etag'', ''1''), (''vary'', ''DNT'')]"
  have ok: "storable sample_cache_ext default_cache_config ''GET'' ?rqh
      (cc_of_request sample_cache_ext ?rqh) 200 ?rsh (cc_of sample_cache_ext ?rsh) = Inr [''dnt'']"
    and mem: "''DNT'' \<in> set (vary_tokens sample_cache_ext ?rsh)"
    and authorized: "hm_contains ?rqh ''authorization'' \<and> \<not> cfg_store_private default_cache_config"
    by code_simp+
  from storing_is_conservative [OF sample_cache_laws ok] mem authorized ok show ?thesis by blast
qed

text \<open>C21: A stored response is served as fresh only while it is young. It is never fresh under
  \<open>no-cache\<close>; having been fresh later it was fresh at every earlier time; with \<open>max-age=n\<close> its age on
  arrival plus the time it has been held is below n seconds; otherwise with an \<open>Expires\<close> date the clock has
  not reached that date (an unreadable date counts as 1970); otherwise it has been held for less than
  the configured cap.\<close>
theorem fresh_means_young:
  assumes "is_fresh X e (cc_of X (ce_headers e)) config now"
    and "min_time \<le> ce_received_at e" and "cfg_heuristic_cap config \<le> max_duration"
  shows "\<not> cc_no_cache (cc_of X (ce_headers e))
    \<and> (\<forall>earlier \<le> now. is_fresh X e (cc_of X (ce_headers e)) config earlier)
    \<and> (case cc_max_age (cc_of X (ce_headers e)) of
         Some n \<Rightarrow> int (initial_age X e) + (now - ce_received_at e) < int (from_secs n)
       | None \<Rightarrow>
           (case expires_field X e of
              Some t \<Rightarrow> now < t \<and> ce_received_at e < t
            | None \<Rightarrow> now - ce_received_at e < int (cfg_heuristic_cap config)))"
proof (intro conjI)
  show "\<not> cc_no_cache (cc_of X (ce_headers e))" using assms(1) by (auto simp: is_fresh_def)
  show "\<forall>earlier \<le> now. is_fresh X e (cc_of X (ce_headers e)) config earlier"
    using is_fresh_earlier [OF assms(1)] by blast
  show "case cc_max_age (cc_of X (ce_headers e)) of
         Some n \<Rightarrow> int (initial_age X e) + (now - ce_received_at e) < int (from_secs n)
       | None \<Rightarrow>
           (case expires_field X e of
              Some t \<Rightarrow> now < t \<and> ce_received_at e < t
            | None \<Rightarrow> now - ce_received_at e < int (cfg_heuristic_cap config))"
    using is_fresh_max_age [OF assms(1)] is_fresh_heuristic [OF assms(1) _ _ assms(3)]
      is_fresh_expires [OF assms(1) _ _ expires_span [OF _ assms(2)]]
    by (auto split: option.splits; linarith)
qed

definition sample_stored :: "header_map \<Rightarrow> cache_entry" where
  "sample_stored h = entry_new 200 ''HTTP/1.1'' h ''body'' selector_any 1000000000000 1000000000000"

theorem fresh_means_young_witness:
  "is_fresh sample_cache_ext (sample_stored [(''cache-control'', ''max-age=60''), (''age'', ''10'')])
     (cc_of sample_cache_ext [(''cache-control'', ''max-age=60''), (''age'', ''10'')])
     default_cache_config 1049000000000
   \<and> int (initial_age sample_cache_ext
         (sample_stored [(''cache-control'', ''max-age=60''), (''age'', ''10'')]))
       + (1049000000000 - 1000000000000) < int (from_secs 60)"
proof -
  let ?h = "[(''cache-control'', ''max-age=60''), (''age'', ''10'')]"
  let ?e = "sample_stored ?h"
  have fresh: "is_fresh sample_cache_ext ?e (cc_of sample_cache_ext (ce_headers ?e)) default_cache_config
      1049000000000"
    and range: "min_time \<le> ce_received_at ?e" "cfg_heuristic_cap default_cache_config \<le> max_duration"
    and cc: "cc_max_age (cc_of sample_cache_ext (ce_headers ?e)) = Some 60"
    and at: "ce_received_at ?e = 1000000000000" and h: "ce_headers ?e = ?h"
    by code_simp+
  from fresh_means_young [OF fresh range] have
    "int (initial_age sample_cache_ext ?e) + (1049000000000 - ce_received_at ?e) < int (from_secs 60)"
    unfolding cc by simp
  with fresh show ?thesis unfolding at h by blast
qed

text \<open>An unreadable \<open>Expires\<close> means stale: with no \<open>max-age\<close>, a response carrying an \<open>Expires\<close>
  that is not a date (such as 0) is never served as fresh, whatever its \<open>Date\<close> and \<open>Last-Modified\<close> say.\<close>
theorem unreadable_expires_is_stale:
  assumes "hm_get (ce_headers e) ''expires'' = Some v"
    and "Option.bind (cx_to_str X v) parse_http_date = None"
    and "cc_max_age (cc_of X (ce_headers e)) = None" and "0 \<le> ce_received_at e"
  shows "\<not> is_fresh X e (cc_of X (ce_headers e)) config now"
proof
  assume fresh: "is_fresh X e (cc_of X (ce_headers e)) config now"
  have t: "expires_field X e = Some 0" using assms(1,2) by (simp add: expires_field_def)
  have "min_time \<le> ce_received_at e" using assms(4) by (simp add: min_time_def nanos_per_sec_def)
  from is_fresh_expires [OF fresh assms(3) t expires_span [OF t this]] assms(4) show False by simp
qed

text \<open>C39: A revalidation does not always restart the age. When the stored response carries an \<open>Age\<close> of
  at least its \<open>max-age\<close> and the \<open>304\<close> carries none, the merged response keeps the old \<open>Age\<close> and is
  stale at every later time, so every following request revalidates again.\<close>
theorem stored_age_survives_revalidation:
  assumes "age_field X e = Some a" and "\<not> hm_contains nm ''age''"
    and "cc_max_age (cc_of X (ce_headers (refreshed e nm rq rc))) = Some n" and "from_secs n \<le> a"
  shows "\<not> is_fresh X (refreshed e nm rq rc) (cc_of X (ce_headers (refreshed e nm rq rc))) config now"
proof
  let ?r = "refreshed e nm rq rc"
  assume fresh: "is_fresh X ?r (cc_of X (ce_headers ?r)) config now"
  have "hm_get (ce_headers ?r) ''age'' = hm_get (ce_headers e) ''age''"
    using assms(2) by (intro hm_get_cong) (simp add: refreshed_get)
  then have "age_field X ?r = Some a" using assms(1) by (simp add: age_field_def)
  then have "min a max_duration \<le> initial_age X ?r"
    by (auto simp: initial_age_def saturating_add_def le_max_iff_disj)
  moreover have "from_secs n \<le> max_duration" using cc_of_max_age [OF assms(3)] by (rule from_secs_bound)
  ultimately have "from_secs n \<le> initial_age X ?r" using assms(4) by simp
  with is_fresh_max_age [OF fresh assms(3)] show False by simp
qed

theorem stored_age_survives_revalidation_witness:
  "\<not> is_fresh sample_cache_ext
     (refreshed (sample_stored [(''cache-control'', ''max-age=60''), (''age'', ''60'')])
        [(''etag'', ''x'')] 2000000000000 2000000000000)
     (cc_of sample_cache_ext (ce_headers
       (refreshed (sample_stored [(''cache-control'', ''max-age=60''), (''age'', ''60'')])
          [(''etag'', ''x'')] 2000000000000 2000000000000)))
     default_cache_config 2000000000000"
proof -
  let ?e = "sample_stored [(''cache-control'', ''max-age=60''), (''age'', ''60'')]"
  have f: "age_field sample_cache_ext ?e = Some (from_secs 60)" "\<not> hm_contains [(''etag'', ''x'')] ''age''"
    "cc_max_age (cc_of sample_cache_ext (ce_headers
       (refreshed ?e [(''etag'', ''x'')] 2000000000000 2000000000000))) = Some 60"
    by code_simp+
  from stored_age_survives_revalidation [OF f order_refl] show ?thesis .
qed

end
