(* ===== verification/Memory_Store.thy ===== *)
theory Memory_Store
  imports Cache_Policy
begin

text \<open>
  \<open>chromulate-cache/src/storage.rs\<close>: the storage interface of the cache and the sharded in-memory
  store. A shard's hash map is an association list with distinct keys; the shards' locks make every
  operation one step of the state. \<open>cache_storage\<close> is the contract the trait documents; the memory
  store interprets it.
\<close>

section \<open>The trait\<close>

datatype cache_error = Unavailable string | BackendError string

record 's storage_ops =
  so_get :: "cache_key \<Rightarrow> 's \<Rightarrow> (cache_error + cache_entry list) \<times> 's"
  so_put :: "cache_key \<Rightarrow> cache_entry \<Rightarrow> 's \<Rightarrow> (cache_error + unit) \<times> 's"
  so_remove :: "cache_key \<Rightarrow> 's \<Rightarrow> (cache_error + unit) \<times> 's"

definition merge_variants :: "cache_entry list \<Rightarrow> cache_entry \<Rightarrow> cache_entry list" where
  "merge_variants existing e = filter (\<lambda>stored. ce_selector stored \<noteq> ce_selector e) existing @ [e]"

text \<open>What an implementation owes its caller. An operation may fail and may forget; what it may not do is
  return or keep an entry that was not put under that key, or keep two variants with one selector.\<close>

locale cache_storage =
  fixes ops :: "'s storage_ops"
    and inv :: "'s \<Rightarrow> bool"
    and lookup :: "'s \<Rightarrow> cache_key \<Rightarrow> cache_entry list"
  assumes get_contract: "inv s \<Longrightarrow> so_get ops k s = (r, s') \<Longrightarrow>
      inv s' \<and> (\<forall>j. lookup s' j = lookup s j \<or> lookup s' j = [])
      \<and> (\<forall>vs. r = Inr vs \<longrightarrow> set vs = set (lookup s k))"
    and put_contract: "inv s \<Longrightarrow> so_put ops k e s = (r', s') \<Longrightarrow>
      inv s' \<and> (\<forall>j. j \<noteq> k \<longrightarrow> lookup s' j = lookup s j \<or> lookup s' j = [])
      \<and> (lookup s' k = [] \<or> lookup s' k = merge_variants (lookup s k) e
          \<or> r' \<noteq> Inr () \<and> lookup s' k = lookup s k)"
    and remove_contract: "inv s \<Longrightarrow> so_remove ops k s = (r', s') \<Longrightarrow>
      inv s' \<and> (\<forall>j. j \<noteq> k \<longrightarrow> lookup s' j = lookup s j \<or> lookup s' j = [])
      \<and> (lookup s' k = [] \<or> r' \<noteq> Inr () \<and> lookup s' k = lookup s k)"

section \<open>The in-memory store\<close>

record memory_limits =
  ml_max_bytes :: nat
  ml_shards :: nat

definition default_memory_limits :: memory_limits where
  "default_memory_limits = \<lparr>ml_max_bytes = 32 * 1024 * 1024, ml_shards = 16\<rparr>"

definition per_shard :: "memory_limits \<Rightarrow> nat" where
  "per_shard l = max (ml_max_bytes l div max (ml_shards l) 1) 1"

definition shard_purge_target :: "memory_limits \<Rightarrow> nat" where
  "shard_purge_target l = (let cap = per_shard l in cap - cap div 8)"

record memory_stats =
  mst_keys :: nat
  mst_bytes :: nat
  mst_evictions :: u64
  mst_purge_scans :: u64

record mem_record =
  mr_variants :: "cache_entry list"
  mr_bytes :: nat
  mr_last_used :: u64

record shard =
  sh_records :: "(cache_key \<times> mem_record) list"
  sh_bytes :: nat

record memory_store =
  ms_shards :: "shard list"
  ms_limits :: memory_limits
  ms_tick :: u64
  ms_evictions :: u64
  ms_purge_scans :: u64

definition shard_default :: shard where
  "shard_default = \<lparr>sh_records = [], sh_bytes = 0\<rparr>"

definition store_with_limits :: "memory_limits \<Rightarrow> memory_store" where
  "store_with_limits l =
     (let shards = max (ml_shards l) 1
      in \<lparr>ms_shards = replicate shards shard_default, ms_limits = l\<lparr>ml_shards := shards\<rparr>,
          ms_tick = 0, ms_evictions = 0, ms_purge_scans = 0\<rparr>)"

definition store_new :: memory_store where
  "store_new = store_with_limits default_memory_limits"

definition store_stats :: "memory_store \<Rightarrow> memory_stats" where
  "store_stats s =
     \<lparr>mst_keys = sum_list (map (\<lambda>sh. length (sh_records sh)) (ms_shards s)),
      mst_bytes = sum_list (map sh_bytes (ms_shards s)),
      mst_evictions = ms_evictions s, mst_purge_scans = ms_purge_scans s\<rparr>"

definition shard_of :: "cache_ext \<Rightarrow> memory_store \<Rightarrow> cache_key \<Rightarrow> nat" where
  "shard_of X s k = cx_hash X k mod length (ms_shards s)"

definition next_tick :: "memory_store \<Rightarrow> u64 \<times> memory_store" where
  "next_tick s = (saturating_incr (ms_tick s), s\<lparr>ms_tick := saturating_incr (ms_tick s)\<rparr>)"

fun purge_cutoff :: "nat \<Rightarrow> (u64 \<times> nat) list \<Rightarrow> nat \<Rightarrow> u64 \<Rightarrow> u64" where
  "purge_cutoff target [] remaining cutoff = cutoff"
| "purge_cutoff target ((last_used, bytes) # ages) remaining cutoff =
     (if remaining \<le> target then cutoff
      else purge_cutoff target ages (remaining - min bytes remaining) last_used)"

definition record_ages :: "shard \<Rightarrow> (u64 \<times> nat) list" where
  "record_ages sh = map (\<lambda>(k, r). (mr_last_used r, mr_bytes r)) (sh_records sh)"

definition shard_cutoff :: "memory_limits \<Rightarrow> shard \<Rightarrow> u64" where
  "shard_cutoff l sh =
     purge_cutoff (shard_purge_target l) (sort_key fst (record_ages sh)) (sh_bytes sh) 0"

definition purge :: "memory_store \<Rightarrow> shard \<Rightarrow> shard \<times> memory_store" where
  "purge s sh =
     (if sh_bytes sh \<le> per_shard (ms_limits s) then (sh, s)
      else
        (let cutoff = shard_cutoff (ms_limits s) sh;
             kept = filter (\<lambda>(k, r). cutoff < mr_last_used r) (sh_records sh)
         in (\<lparr>sh_records = kept, sh_bytes = sum_list (map (\<lambda>(k, r). mr_bytes r) kept)\<rparr>,
             s\<lparr>ms_purge_scans := ms_purge_scans s + of_nat (length (record_ages sh)),
               ms_evictions := ms_evictions s + of_nat (length (sh_records sh) - length kept)\<rparr>)))"

definition set_shard :: "nat \<Rightarrow> shard \<Rightarrow> memory_store \<Rightarrow> memory_store" where
  "set_shard i sh s = s\<lparr>ms_shards := (ms_shards s)[i := sh]\<rparr>"

definition store_get ::
  "cache_ext \<Rightarrow> cache_key \<Rightarrow> memory_store \<Rightarrow> (cache_error + cache_entry list) \<times> memory_store" where
  "store_get X k s0 =
     (case next_tick s0 of (tick, s) \<Rightarrow>
        let i = shard_of X s k; sh = ms_shards s ! i
        in case map_of (sh_records sh) k of
             Some r \<Rightarrow>
               (Inr (mr_variants r),
                set_shard i (sh\<lparr>sh_records := AList.update k (r\<lparr>mr_last_used := tick\<rparr>) (sh_records sh)\<rparr>) s)
           | None \<Rightarrow> (Inr [], s))"

definition record_size :: "cache_ext \<Rightarrow> cache_key \<Rightarrow> cache_entry list \<Rightarrow> nat" where
  "record_size X k variants = key_size X k + sum_list (map (entry_size X) variants)"

definition store_put ::
  "cache_ext \<Rightarrow> cache_key \<Rightarrow> cache_entry \<Rightarrow> memory_store \<Rightarrow> (cache_error + unit) \<times> memory_store" where
  "store_put X k e s0 =
     (case next_tick s0 of (tick, s) \<Rightarrow>
        let i = shard_of X s k;
            sh = ms_shards s ! i;
            existing = map_of (sh_records sh) k;
            previous = (case existing of Some r \<Rightarrow> mr_bytes r | None \<Rightarrow> 0);
            merged = merge_variants (case existing of Some r \<Rightarrow> mr_variants r | None \<Rightarrow> []) e;
            bytes = record_size X k merged
        in if per_shard (ms_limits s) < bytes then
             (Inr (),
              if existing \<noteq> None
              then set_shard i (sh\<lparr>sh_records := AList.delete k (sh_records sh),
                                   sh_bytes := sh_bytes sh - min previous (sh_bytes sh)\<rparr>) s
              else s)
           else
             (let sh1 = sh\<lparr>sh_bytes := sh_bytes sh + bytes - min previous (sh_bytes sh),
                           sh_records := AList.update k
                             \<lparr>mr_variants = merged, mr_bytes = bytes, mr_last_used = tick\<rparr> (sh_records sh)\<rparr>
              in case purge s sh1 of (sh2, s1) \<Rightarrow> (Inr (), set_shard i sh2 s1)))"

definition store_remove ::
  "cache_ext \<Rightarrow> cache_key \<Rightarrow> memory_store \<Rightarrow> (cache_error + unit) \<times> memory_store" where
  "store_remove X k s =
     (let i = shard_of X s k; sh = ms_shards s ! i
      in case map_of (sh_records sh) k of
           Some r \<Rightarrow>
             (Inr (), set_shard i (sh\<lparr>sh_records := AList.delete k (sh_records sh),
                                      sh_bytes := sh_bytes sh - min (mr_bytes r) (sh_bytes sh)\<rparr>) s)
         | None \<Rightarrow> (Inr (), s))"

definition memory_ops :: "cache_ext \<Rightarrow> memory_store storage_ops" where
  "memory_ops X = \<lparr>so_get = store_get X, so_put = store_put X, so_remove = store_remove X\<rparr>"

section \<open>Variants of one key\<close>

lemma merge_variants_distinct:
  "distinct (map ce_selector vs) \<Longrightarrow> distinct (map ce_selector (merge_variants vs e))"
  by (auto simp: merge_variants_def distinct_map inj_on_def)

lemma merge_variants_mem: "v \<in> set (merge_variants vs e) \<Longrightarrow> v = e \<or> v \<in> set vs"
  by (auto simp: merge_variants_def)

section \<open>The purge\<close>

lemma purge_cutoff_split:
  assumes "remaining = sum_list (map snd ages)"
  shows "\<exists>i \<le> length ages.
    purge_cutoff target ages remaining c = (if i = 0 then c else fst (ages ! (i - 1)))
    \<and> sum_list (map snd (drop i ages)) \<le> target
    \<and> (\<forall>j < i. target < sum_list (map snd (drop j ages)))"
  using assms
proof (induction ages arbitrary: remaining c)
  case Nil
  then show ?case by auto
next
  case (Cons a ages)
  obtain lu b where a: "a = (lu, b)" by (cases a)
  show ?case
  proof (cases "remaining \<le> target")
    case True
    with Cons.prems show ?thesis by (intro exI [of _ 0]) (simp add: a)
  next
    case False
    have "remaining - min b remaining = sum_list (map snd ages)" using Cons.prems by (simp add: a)
    from Cons.IH [OF this, of lu] obtain i where i: "i \<le> length ages"
      "purge_cutoff target ages (remaining - min b remaining) lu = (if i = 0 then lu else fst (ages ! (i - 1)))"
      "sum_list (map snd (drop i ages)) \<le> target"
      "\<forall>j < i. target < sum_list (map snd (drop j ages))" by blast
    show ?thesis
    proof (intro exI [of _ "Suc i"] conjI allI impI)
      show "Suc i \<le> length (a # ages)" using i(1) by simp
      show "purge_cutoff target (a # ages) remaining c
          = (if Suc i = 0 then c else fst ((a # ages) ! (Suc i - 1)))"
        using False i(2) by (cases i) (simp_all add: a)
      show "sum_list (map snd (drop (Suc i) (a # ages))) \<le> target" using i(3) by simp
      fix j assume "j < Suc i"
      then show "target < sum_list (map snd (drop j (a # ages)))"
        using False Cons.prems i(4) by (cases j) (auto simp: a)
    qed
  qed
qed

lemma sum_filter_le:
  fixes xs :: "('a \<times> nat) list"
  shows "sum_list (map snd (filter P xs)) \<le> sum_list (map snd xs)"
  by (induction xs) auto

lemma filter_after_cutoff:
  fixes as :: "('a::linorder \<times> nat) list"
  assumes "sorted (map fst as)" and "i \<le> length as" and "0 < i"
  shows "filter (\<lambda>a. fst (as ! (i - 1)) < fst a) as = filter (\<lambda>a. fst (as ! (i - 1)) < fst a) (drop i as)"
proof -
  have "\<not> fst (as ! (i - 1)) < fst a" if "a \<in> set (take i as)" for a
  proof -
    from that obtain j where j: "j < i" "j < length as" "a = as ! j"
      by (auto simp: in_set_conv_nth)
    then have "map fst as ! j \<le> map fst as ! (i - 1)"
      using assms by (intro sorted_nth_mono) auto
    with j assms show ?thesis by simp
  qed
  then have "filter (\<lambda>a. fst (as ! (i - 1)) < fst a) (take i as) = []" by (simp add: filter_empty_conv)
  then show ?thesis
    by (metis append_take_drop_id filter_append self_append_conv2)
qed

section \<open>The invariant\<close>

definition record_ok :: "cache_ext \<Rightarrow> cache_key \<Rightarrow> mem_record \<Rightarrow> bool" where
  "record_ok X k r \<longleftrightarrow> mr_variants r \<noteq> [] \<and> distinct (map ce_selector (mr_variants r))
     \<and> mr_bytes r = record_size X k (mr_variants r)"

definition shard_wf :: "cache_ext \<Rightarrow> nat \<Rightarrow> u64 \<Rightarrow> nat \<Rightarrow> shard \<Rightarrow> bool" where
  "shard_wf X n tick i sh \<longleftrightarrow>
     distinct (map fst (sh_records sh))
     \<and> sh_bytes sh = sum_list (map (mr_bytes \<circ> snd) (sh_records sh))
     \<and> (\<forall>(k, r) \<in> set (sh_records sh).
          record_ok X k r \<and> cx_hash X k mod n = i \<and> 0 < mr_last_used r \<and> mr_last_used r \<le> tick)
     \<and> (tick \<noteq> u64_max \<longrightarrow> inj_on (mr_last_used \<circ> snd) (set (sh_records sh)))"

definition mem_inv :: "cache_ext \<Rightarrow> memory_store \<Rightarrow> bool" where
  "mem_inv X s \<longleftrightarrow>
     ms_shards s \<noteq> [] \<and> ml_shards (ms_limits s) = length (ms_shards s)
     \<and> (\<forall>i < length (ms_shards s).
          shard_wf X (length (ms_shards s)) (ms_tick s) i (ms_shards s ! i)
          \<and> sh_bytes (ms_shards s ! i) \<le> per_shard (ms_limits s))"

lemma saturating_incr_pos: "0 < saturating_incr w"
proof (cases "w = u64_max")
  case True
  then show ?thesis by (simp add: saturating_incr_def u64_max_def word_greater_zero_iff)
next
  case False
  have "0 \<le> w" by simp
  also note incr_greater [OF False]
  finally show ?thesis using False by (simp add: saturating_incr_def)
qed

lemma shard_wf_tick:
  assumes "shard_wf X n t i sh"
  shows "shard_wf X n (saturating_incr t) i sh"
  using assms order_trans [OF _ saturating_incr_mono [of t]]
  by (fastforce simp: shard_wf_def saturating_incr_def split: if_splits)

lemma shard_wf_filter:
  assumes "shard_wf X n t i sh"
  shows "shard_wf X n t i
    \<lparr>sh_records = filter P (sh_records sh), sh_bytes = sum_list (map (mr_bytes \<circ> snd) (filter P (sh_records sh)))\<rparr>"
  using assms by (auto simp: shard_wf_def distinct_map_filter intro: inj_on_subset)

lemma shard_wf_delete:
  assumes wf: "shard_wf X n t i sh" and r: "map_of (sh_records sh) k = Some r"
  shows "shard_wf X n t i (sh\<lparr>sh_records := AList.delete k (sh_records sh),
      sh_bytes := sh_bytes sh - min (mr_bytes r) (sh_bytes sh)\<rparr>)"
proof -
  have dist: "distinct (map fst (sh_records sh))"
    and bytes: "sh_bytes sh = sum_list (map (mr_bytes \<circ> snd) (sh_records sh))"
    using wf by (auto simp: shard_wf_def)
  have "sh_bytes sh - min (mr_bytes r) (sh_bytes sh)
      = sum_list (map (mr_bytes \<circ> snd) (AList.delete k (sh_records sh)))"
    using sum_delete [OF dist, of mr_bytes k] r bytes by simp
  with shard_wf_filter [OF wf, of "\<lambda>p. k \<noteq> fst p"] show ?thesis
    by (auto simp: shard_wf_def AList.delete_eq case_prod_unfold)
qed

lemma shard_wf_update:
  assumes wf: "shard_wf X n t i sh" and r: "record_ok X k r" "cx_hash X k mod n = i"
    and lu: "mr_last_used r = saturating_incr t"
    and prev: "prev = (case map_of (sh_records sh) k of Some r \<Rightarrow> mr_bytes r | None \<Rightarrow> 0)"
  shows "shard_wf X n (saturating_incr t) i (sh\<lparr>sh_records := AList.update k r (sh_records sh),
      sh_bytes := sh_bytes sh + mr_bytes r - min prev (sh_bytes sh)\<rparr>)"
proof -
  let ?new = "AList.update k r (sh_records sh)"
  have dist: "distinct (map fst (sh_records sh))"
    and bytes: "sh_bytes sh = sum_list (map (mr_bytes \<circ> snd) (sh_records sh))"
    and all: "\<And>k r. (k, r) \<in> set (sh_records sh) \<Longrightarrow>
      record_ok X k r \<and> cx_hash X k mod n = i \<and> 0 < mr_last_used r \<and> mr_last_used r \<le> t"
    and inj: "t \<noteq> u64_max \<longrightarrow> inj_on (mr_last_used \<circ> snd) (set (sh_records sh))"
    using wf by (auto simp: shard_wf_def)
  note mem = update_mem_iff [OF dist, of _ _ k r]
  have "sh_bytes sh + mr_bytes r - min prev (sh_bytes sh) = sum_list (map (mr_bytes \<circ> snd) ?new)"
    using sum_delete [OF dist, of mr_bytes k] sum_update [OF dist, of mr_bytes k r] bytes prev by simp
  moreover have "record_ok X k' r' \<and> cx_hash X k' mod n = i \<and> 0 < mr_last_used r'
      \<and> mr_last_used r' \<le> saturating_incr t" if "(k', r') \<in> set ?new" for k' r'
    using that all [of k' r'] r lu saturating_incr_pos [of t] saturating_incr_mono [of t]
    by (auto simp: mem)
  moreover have "inj_on (mr_last_used \<circ> snd) (set ?new)" if "saturating_incr t \<noteq> u64_max"
  proof (rule inj_onI)
    have t: "t \<noteq> u64_max" "t < saturating_incr t"
      using that incr_greater [of t] by (auto simp: saturating_incr_def split: if_splits)
    have old: "mr_last_used r' \<noteq> saturating_incr t" if "(k', r') \<in> set (sh_records sh)" for k' r'
      using all [OF that] t(2) by auto
    fix x y assume xy: "x \<in> set ?new" "y \<in> set ?new" "(mr_last_used \<circ> snd) x = (mr_last_used \<circ> snd) y"
    obtain kx rx ky ry where p: "x = (kx, rx)" "y = (ky, ry)" by fastforce
    show "x = y"
    proof (cases "kx = k \<or> ky = k")
      case True
      with xy lu old [of kx rx] old [of ky ry] show ?thesis unfolding p mem by auto
    next
      case False
      with xy p have set: "x \<in> set (sh_records sh)" "y \<in> set (sh_records sh)" by (auto simp: mem)
      have "inj_on (mr_last_used \<circ> snd) (set (sh_records sh))" using inj t(1) by blast
      from inj_onD [OF this xy(3) set] show ?thesis .
    qed
  qed
  ultimately show ?thesis using dist by (auto simp: shard_wf_def distinct_update)
qed

section \<open>What a purge keeps\<close>

lemma bytes_of_records: "(\<lambda>(k, r). mr_bytes r) = mr_bytes \<circ> snd"
  by auto

lemma sum_record_ages: "sum_list (map snd (record_ages sh)) = sum_list (map (mr_bytes \<circ> snd) (sh_records sh))"
  by (simp add: record_ages_def case_prod_unfold comp_def)

lemma filter_record_ages:
  "sum_list (map snd (filter (\<lambda>a. c < fst a) (record_ages sh)))
     = sum_list (map (mr_bytes \<circ> snd) (filter (\<lambda>(k, r). c < mr_last_used r) (sh_records sh)))"
  by (simp add: record_ages_def filter_map case_prod_unfold comp_def)

lemma sum_sort_key:
  fixes f :: "'a \<Rightarrow> nat"
  shows "sum_list (map f (filter P (sort_key g xs))) = sum_list (map f (filter P xs))"
  by (metis mset_filter mset_map mset_sort sum_mset_sum_list)

lemma sum_sort_key_all:
  fixes f :: "'a \<Rightarrow> nat"
  shows "sum_list (map f (sort_key g xs)) = sum_list (map f xs)"
  using sum_sort_key [of f "\<lambda>_. True" g xs] by simp

text \<open>The purged prefix: the oldest records, as many as it takes and no more.\<close>

lemma shard_cutoff_split:
  assumes "shard_wf X n t i sh"
  obtains j where "j \<le> length (sh_records sh)"
    and "shard_cutoff l sh = (if j = 0 then 0 else fst (sort_key fst (record_ages sh) ! (j - 1)))"
    and "sum_list (map snd (drop j (sort_key fst (record_ages sh)))) \<le> shard_purge_target l"
    and "\<forall>m < j. shard_purge_target l < sum_list (map snd (drop m (sort_key fst (record_ages sh))))"
proof -
  have "sh_bytes sh = sum_list (map snd (sort_key fst (record_ages sh)))"
    using assms by (simp add: shard_wf_def sum_sort_key_all sum_record_ages)
  from purge_cutoff_split [OF this, of "shard_purge_target l" 0] that show ?thesis
    by (auto simp: shard_cutoff_def record_ages_def)
qed

lemma kept_bytes_target:
  assumes wf: "shard_wf X n t i sh"
  shows "sum_list (map (mr_bytes \<circ> snd) (filter (\<lambda>(k, r). shard_cutoff l sh < mr_last_used r) (sh_records sh)))
    \<le> shard_purge_target l"
proof -
  let ?as = "sort_key fst (record_ages sh)" and ?c = "shard_cutoff l sh"
  obtain j where j: "j \<le> length (sh_records sh)" "?c = (if j = 0 then 0 else fst (?as ! (j - 1)))"
    "sum_list (map snd (drop j ?as)) \<le> shard_purge_target l"
    using shard_cutoff_split [OF wf] by metis
  have "sum_list (map snd (filter (\<lambda>a. ?c < fst a) ?as)) \<le> sum_list (map snd (drop j ?as))"
  proof (cases "j = 0")
    case True
    then show ?thesis using sum_filter_le by simp
  next
    case False
    have "filter (\<lambda>a. ?c < fst a) ?as = filter (\<lambda>a. ?c < fst a) (drop j ?as)"
      using False j(1,2) filter_after_cutoff [of ?as j] by (simp add: record_ages_def)
    then show ?thesis using sum_filter_le by metis
  qed
  with j(3) show ?thesis by (simp add: sum_sort_key filter_record_ages)
qed

lemma purge_target_le_cap: "shard_purge_target l \<le> per_shard l"
  by (simp add: shard_purge_target_def Let_def)

lemma map_of_filter_or:
  assumes "distinct (map fst xs)"
  shows "map_of (filter P xs) k = map_of xs k \<or> map_of (filter P xs) k = None"
proof (cases "map_of (filter P xs) k")
  case (Some v)
  then have "(k, v) \<in> set xs" by (auto dest: map_of_SomeD)
  with assms Some show ?thesis by simp
qed simp

lemma purge_ok:
  assumes wf: "shard_wf X n t i sh" and p: "purge s sh = (sh', s')"
  shows "shard_wf X n t i sh'" and "sh_bytes sh' \<le> per_shard (ms_limits s)"
    and "ms_shards s' = ms_shards s" and "ms_limits s' = ms_limits s" and "ms_tick s' = ms_tick s"
    and "\<And>k. map_of (sh_records sh') k = map_of (sh_records sh) k \<or> map_of (sh_records sh') k = None"
proof -
  note b = kept_bytes_target [OF wf, of "ms_limits s"]
  show "sh_bytes sh' \<le> per_shard (ms_limits s)"
    using p b purge_target_le_cap [of "ms_limits s"]
    by (auto simp: purge_def Let_def bytes_of_records split: if_splits)
  show "shard_wf X n t i sh'"
    using p wf shard_wf_filter [OF wf, of "\<lambda>(k, r). shard_cutoff (ms_limits s) sh < mr_last_used r"]
    by (auto simp: purge_def Let_def bytes_of_records split: if_splits)
  show "ms_shards s' = ms_shards s" "ms_limits s' = ms_limits s" "ms_tick s' = ms_tick s"
    using p by (auto simp: purge_def Let_def split: if_splits)
  fix k
  have "distinct (map fst (sh_records sh))" using wf by (simp add: shard_wf_def)
  note kept = map_of_filter_or [OF this, of "\<lambda>(k, r). shard_cutoff (ms_limits s) sh < mr_last_used r" k]
  show "map_of (sh_records sh') k = map_of (sh_records sh) k \<or> map_of (sh_records sh') k = None"
    using p kept by (auto simp: purge_def Let_def split: if_splits)
qed

section \<open>The operations\<close>

definition variants_of :: "cache_ext \<Rightarrow> memory_store \<Rightarrow> cache_key \<Rightarrow> cache_entry list" where
  "variants_of X s k =
     (case map_of (sh_records (ms_shards s ! shard_of X s k)) k of
        Some r \<Rightarrow> mr_variants r | None \<Rightarrow> [])"

lemma shard_of_less: "mem_inv X s \<Longrightarrow> shard_of X s k < length (ms_shards s)"
  by (simp add: mem_inv_def shard_of_def)

lemma mem_inv_shard:
  assumes "mem_inv X s"
  shows "shard_wf X (length (ms_shards s)) (ms_tick s) (shard_of X s k) (ms_shards s ! shard_of X s k)"
    and "sh_bytes (ms_shards s ! shard_of X s k) \<le> per_shard (ms_limits s)"
  using assms shard_of_less [OF assms, of k] by (simp_all add: mem_inv_def)

lemma with_limits_mem_inv: "mem_inv X (store_with_limits l)"
  by (auto simp: mem_inv_def store_with_limits_def shard_default_def shard_wf_def Let_def)

lemma variants_of_with_limits: "variants_of X (store_with_limits l) k = []"
  by (simp add: variants_of_def store_with_limits_def shard_default_def shard_of_def Let_def)

text \<open>One shard replaced, with the clock advanced or not.\<close>

lemma mem_inv_replace:
  assumes inv: "mem_inv X s" and same: "ms_shards s' = (ms_shards s)[i := sh]" "ms_limits s' = ms_limits s"
    and t: "ms_tick s' = ms_tick s \<or> ms_tick s' = saturating_incr (ms_tick s)"
    and sh: "shard_wf X (length (ms_shards s)) (ms_tick s') i sh" "sh_bytes sh \<le> per_shard (ms_limits s)"
  shows "mem_inv X s'"
proof -
  have "shard_wf X (length (ms_shards s)) (ms_tick s') j (ms_shards s ! j)" if "j < length (ms_shards s)" for j
    using inv that t shard_wf_tick by (auto simp: mem_inv_def)
  then have "shard_wf X (length (ms_shards s)) (ms_tick s') j ((ms_shards s)[i := sh] ! j)
      \<and> sh_bytes ((ms_shards s)[i := sh] ! j) \<le> per_shard (ms_limits s)" if "j < length (ms_shards s)" for j
    using inv sh that by (cases "j = i") (auto simp: mem_inv_def)
  with inv same show ?thesis by (auto simp: mem_inv_def)
qed

lemma mem_inv_tick:
  assumes "mem_inv X s"
  shows "mem_inv X (s\<lparr>ms_tick := saturating_incr (ms_tick s)\<rparr>)"
  using assms shard_wf_tick by (auto simp: mem_inv_def)

lemma variants_of_replace:
  assumes "mem_inv X s" and "ms_shards s' = (ms_shards s)[shard_of X s k := sh]"
  shows "variants_of X s' k' =
    (if shard_of X s k' = shard_of X s k
     then (case map_of (sh_records sh) k' of Some r \<Rightarrow> mr_variants r | None \<Rightarrow> [])
     else variants_of X s k')"
  using assms shard_of_less [OF assms(1)]
  by (auto simp: variants_of_def shard_of_def nth_list_update)

lemma store_get_ok:
  assumes inv: "mem_inv X s"
  shows "fst (store_get X k s) = Inr (variants_of X s k)"
    and "mem_inv X (snd (store_get X k s))"
    and "variants_of X (snd (store_get X k s)) k' = variants_of X s k'"
    and "ms_limits (snd (store_get X k s)) = ms_limits s"
proof -
  let ?s1 = "s\<lparr>ms_tick := saturating_incr (ms_tick s)\<rparr>" and ?sh = "ms_shards s ! shard_of X s k"
  have same: "shard_of X ?s1 k = shard_of X s k" "variants_of X ?s1 k' = variants_of X s k'" for k k'
    by (simp_all add: shard_of_def variants_of_def)
  have "fst (store_get X k s) = Inr (variants_of X s k) \<and> mem_inv X (snd (store_get X k s))
    \<and> variants_of X (snd (store_get X k s)) k' = variants_of X s k'
    \<and> ms_limits (snd (store_get X k s)) = ms_limits s"
  proof (cases "map_of (sh_records ?sh) k")
    case None
    then show ?thesis
      using mem_inv_tick [OF inv] same
      by (simp add: store_get_def next_tick_def Let_def variants_of_def)
  next
    case (Some r)
    let ?r = "r\<lparr>mr_last_used := saturating_incr (ms_tick s)\<rparr>"
    let ?sh' = "?sh\<lparr>sh_records := AList.update k ?r (sh_records ?sh)\<rparr>"
    have out: "store_get X k s = (Inr (mr_variants r), set_shard (shard_of X s k) ?sh' ?s1)"
      using Some same by (simp add: store_get_def next_tick_def Let_def)
    note wf = mem_inv_shard [OF inv, of k]
    have r: "record_ok X k ?r" "cx_hash X k mod length (ms_shards s) = shard_of X s k"
      using wf(1) map_of_SomeD [OF Some] by (auto simp: shard_wf_def record_ok_def shard_of_def)
    have "mr_bytes r \<le> sh_bytes ?sh"
      using wf(1) Some sum_delete [of "sh_records ?sh" mr_bytes k] by (simp add: shard_wf_def)
    then have "shard_wf X (length (ms_shards s)) (saturating_incr (ms_tick s)) (shard_of X s k) ?sh'"
      using shard_wf_update [OF wf(1) r, of "mr_bytes r"] Some by simp
    then have "mem_inv X (set_shard (shard_of X s k) ?sh' ?s1)"
      using wf(2) by (intro mem_inv_replace [OF inv, of _ "shard_of X s k" ?sh']) (simp_all add: set_shard_def)
    moreover have "variants_of X (set_shard (shard_of X s k) ?sh' ?s1) k' = variants_of X s k'"
      using Some variants_of_replace [OF inv, of "set_shard (shard_of X s k) ?sh' ?s1" k ?sh']
      by (auto simp: set_shard_def update_conv' variants_of_def)
    ultimately show ?thesis using Some unfolding out by (simp add: variants_of_def set_shard_def)
  qed
  then show "fst (store_get X k s) = Inr (variants_of X s k)" "mem_inv X (snd (store_get X k s))"
    "variants_of X (snd (store_get X k s)) k' = variants_of X s k'"
    "ms_limits (snd (store_get X k s)) = ms_limits s" by blast+
qed

lemma store_remove_ok:
  assumes inv: "mem_inv X s"
  shows "fst (store_remove X k s) = Inr ()" and "mem_inv X (snd (store_remove X k s))"
    and "variants_of X (snd (store_remove X k s)) k' = (if k' = k then [] else variants_of X s k')"
    and "ms_limits (snd (store_remove X k s)) = ms_limits s"
proof -
  let ?sh = "ms_shards s ! shard_of X s k"
  have "fst (store_remove X k s) = Inr () \<and> mem_inv X (snd (store_remove X k s))
    \<and> variants_of X (snd (store_remove X k s)) k' = (if k' = k then [] else variants_of X s k')
    \<and> ms_limits (snd (store_remove X k s)) = ms_limits s"
  proof (cases "map_of (sh_records ?sh) k")
    case None
    then show ?thesis using inv by (simp add: store_remove_def Let_def variants_of_def)
  next
    case (Some r)
    let ?sh' = "?sh\<lparr>sh_records := AList.delete k (sh_records ?sh),
      sh_bytes := sh_bytes ?sh - min (mr_bytes r) (sh_bytes ?sh)\<rparr>"
    have out: "store_remove X k s = (Inr (), set_shard (shard_of X s k) ?sh' s)"
      using Some by (simp add: store_remove_def Let_def)
    note wf = mem_inv_shard [OF inv, of k]
    have "mem_inv X (set_shard (shard_of X s k) ?sh' s)"
      using shard_wf_delete [OF wf(1) Some] wf(2)
      by (intro mem_inv_replace [OF inv, of _ "shard_of X s k" ?sh']) (simp_all add: set_shard_def)
    moreover have "variants_of X (set_shard (shard_of X s k) ?sh' s) k' = (if k' = k then [] else variants_of X s k')"
      using variants_of_replace [OF inv, of "set_shard (shard_of X s k) ?sh' s" k ?sh']
      by (auto simp: set_shard_def delete_conv' variants_of_def)
    ultimately show ?thesis unfolding out by (simp add: set_shard_def)
  qed
  then show "fst (store_remove X k s) = Inr ()" "mem_inv X (snd (store_remove X k s))"
    "variants_of X (snd (store_remove X k s)) k' = (if k' = k then [] else variants_of X s k')"
    "ms_limits (snd (store_remove X k s)) = ms_limits s" by blast+
qed

lemma record_ok_merge:
  assumes "shard_wf X n t i sh"
  shows "record_ok X k \<lparr>mr_variants = merge_variants
      (case map_of (sh_records sh) k of Some r \<Rightarrow> mr_variants r | None \<Rightarrow> []) e,
    mr_bytes = record_size X k (merge_variants
      (case map_of (sh_records sh) k of Some r \<Rightarrow> mr_variants r | None \<Rightarrow> []) e),
    mr_last_used = u\<rparr>"
proof -
  have "distinct (map ce_selector (case map_of (sh_records sh) k of Some r \<Rightarrow> mr_variants r | None \<Rightarrow> []))"
    using assms by (auto simp: shard_wf_def record_ok_def split: option.splits dest: map_of_SomeD)
  from merge_variants_distinct [OF this] show ?thesis by (simp add: record_ok_def merge_variants_def)
qed

definition put_refused :: "cache_ext \<Rightarrow> memory_store \<Rightarrow> cache_key \<Rightarrow> cache_entry \<Rightarrow> bool" where
  "put_refused X s k e \<longleftrightarrow>
     per_shard (ms_limits s) < record_size X k (merge_variants (variants_of X s k) e)"

lemma store_put_refused:
  assumes inv: "mem_inv X s" and big: "put_refused X s k e"
  shows "store_put X k e s = (Inr (), snd (store_remove X k (s\<lparr>ms_tick := saturating_incr (ms_tick s)\<rparr>)))"
  using big
  by (auto simp: store_put_def store_remove_def next_tick_def Let_def put_refused_def variants_of_def
      shard_of_def split: option.splits)

lemma store_put_accepted:
  assumes inv: "mem_inv X s" and small: "\<not> put_refused X s k e"
  obtains sh1 sh2 s1 where "store_put X k e s = (Inr (), set_shard (shard_of X s k) sh2 s1)"
    and "purge (s\<lparr>ms_tick := saturating_incr (ms_tick s)\<rparr>) sh1 = (sh2, s1)"
    and "shard_wf X (length (ms_shards s)) (saturating_incr (ms_tick s)) (shard_of X s k) sh1"
    and "map_of (sh_records sh1) = (map_of (sh_records (ms_shards s ! shard_of X s k)))
      (k \<mapsto> \<lparr>mr_variants = merge_variants (variants_of X s k) e,
         mr_bytes = record_size X k (merge_variants (variants_of X s k) e),
         mr_last_used = saturating_incr (ms_tick s)\<rparr>)"
proof -
  let ?s1 = "s\<lparr>ms_tick := saturating_incr (ms_tick s)\<rparr>" and ?sh = "ms_shards s ! shard_of X s k"
  let ?m = "merge_variants (variants_of X s k) e"
  let ?r = "\<lparr>mr_variants = ?m, mr_bytes = record_size X k ?m, mr_last_used = saturating_incr (ms_tick s)\<rparr>"
  let ?prev = "case map_of (sh_records ?sh) k of Some r \<Rightarrow> mr_bytes r | None \<Rightarrow> 0"
  let ?sh1 = "?sh\<lparr>sh_bytes := sh_bytes ?sh + record_size X k ?m - min ?prev (sh_bytes ?sh),
    sh_records := AList.update k ?r (sh_records ?sh)\<rparr>"
  note wf = mem_inv_shard(1) [OF inv, of k]
  have r: "record_ok X k ?r" using record_ok_merge [OF wf] by (simp add: variants_of_def)
  have hash: "cx_hash X k mod length (ms_shards s) = shard_of X s k" by (simp add: shard_of_def)
  obtain sh2 s1 where p: "purge ?s1 ?sh1 = (sh2, s1)" by force
  have "store_put X k e s = (Inr (), set_shard (shard_of X s k) sh2 s1)"
    using small p
    by (simp add: store_put_def next_tick_def Let_def put_refused_def variants_of_def shard_of_def
        cong: option.case_cong)
  moreover have "shard_wf X (length (ms_shards s)) (saturating_incr (ms_tick s)) (shard_of X s k) ?sh1"
    using shard_wf_update [OF wf r hash _ refl] by (simp add: shard_wf_def)
  ultimately show ?thesis using p by (intro that [of sh2 s1 ?sh1]) (simp_all add: update_conv')
qed

lemma store_put_ok:
  assumes inv: "mem_inv X s"
  shows "fst (store_put X k e s) = Inr ()" and "mem_inv X (snd (store_put X k e s))"
    and "variants_of X (snd (store_put X k e s)) k
      \<in> (if put_refused X s k e then {[]} else {[], merge_variants (variants_of X s k) e})"
    and "k' \<noteq> k \<Longrightarrow> variants_of X (snd (store_put X k e s)) k'
      \<in> (if put_refused X s k e then {variants_of X s k'} else {[], variants_of X s k'})"
    and "ms_limits (snd (store_put X k e s)) = ms_limits s"
proof -
  have "fst (store_put X k e s) = Inr () \<and> mem_inv X (snd (store_put X k e s))
    \<and> variants_of X (snd (store_put X k e s)) k
        \<in> (if put_refused X s k e then {[]} else {[], merge_variants (variants_of X s k) e})
    \<and> (k' \<noteq> k \<longrightarrow> variants_of X (snd (store_put X k e s)) k'
        \<in> (if put_refused X s k e then {variants_of X s k'} else {[], variants_of X s k'}))
    \<and> ms_limits (snd (store_put X k e s)) = ms_limits s"
  proof (cases "put_refused X s k e")
    case True
    let ?s1 = "s\<lparr>ms_tick := saturating_incr (ms_tick s)\<rparr>"
    have "variants_of X ?s1 k' = variants_of X s k'" by (simp add: variants_of_def shard_of_def)
    with True store_remove_ok [OF mem_inv_tick [OF inv], of k] show ?thesis
      by (simp add: store_put_refused [OF inv True])
  next
    case False
    obtain sh1 sh2 s1 where out: "store_put X k e s = (Inr (), set_shard (shard_of X s k) sh2 s1)"
      and p: "purge (s\<lparr>ms_tick := saturating_incr (ms_tick s)\<rparr>) sh1 = (sh2, s1)"
      and wf: "shard_wf X (length (ms_shards s)) (saturating_incr (ms_tick s)) (shard_of X s k) sh1"
      and new: "map_of (sh_records sh1) = (map_of (sh_records (ms_shards s ! shard_of X s k)))
        (k \<mapsto> \<lparr>mr_variants = merge_variants (variants_of X s k) e,
           mr_bytes = record_size X k (merge_variants (variants_of X s k) e),
           mr_last_used = saturating_incr (ms_tick s)\<rparr>)"
      using store_put_accepted [OF inv False] by blast
    note ok = purge_ok [OF wf p]
    have shards: "ms_shards (set_shard (shard_of X s k) sh2 s1) = (ms_shards s)[shard_of X s k := sh2]"
      using ok(3) by (simp add: set_shard_def)
    have keep: "mem_inv X (set_shard (shard_of X s k) sh2 s1)"
      using ok by (intro mem_inv_replace [OF inv shards]) (simp_all add: set_shard_def)
    have vs: "variants_of X (set_shard (shard_of X s k) sh2 s1) j \<in>
        {[], if j = k then merge_variants (variants_of X s k) e else variants_of X s j}" for j
      using ok(6) [of j] new variants_of_replace [OF inv shards, of j]
      by (auto simp: variants_of_def split: if_splits)
    have "ms_limits (set_shard (shard_of X s k) sh2 s1) = ms_limits s"
      using ok(4) by (simp add: set_shard_def)
    then show ?thesis
      using False keep vs [of k] vs [of k'] unfolding out by (cases "k' = k") simp_all
  qed
  then show "fst (store_put X k e s) = Inr ()" "mem_inv X (snd (store_put X k e s))"
    "variants_of X (snd (store_put X k e s)) k
      \<in> (if put_refused X s k e then {[]} else {[], merge_variants (variants_of X s k) e})"
    "k' \<noteq> k \<Longrightarrow> variants_of X (snd (store_put X k e s)) k'
      \<in> (if put_refused X s k e then {variants_of X s k'} else {[], variants_of X s k'})"
    "ms_limits (snd (store_put X k e s)) = ms_limits s" by blast+
qed

interpretation mem: cache_storage "memory_ops X" "mem_inv X" "variants_of X" for X
proof (unfold_locales, goal_cases)
  case (1 s k r s')
  then show ?case using store_get_ok [OF 1(1), where k = k] by (simp add: memory_ops_def)
next
  case (2 s k e r' s')
  have "variants_of X s' j = variants_of X s j \<or> variants_of X s' j = []" if "j \<noteq> k" for j
    using 2 store_put_ok(4) [OF 2(1) that, of e] by (auto simp: memory_ops_def split: if_splits)
  with 2 store_put_ok(1-3) [OF 2(1), where k = k and e = e] show ?case
    by (auto simp: memory_ops_def split: if_splits)
next
  case (3 s k r' s')
  then show ?case using store_remove_ok [OF 3(1), where k = k] by (simp add: memory_ops_def)
qed

end
