(* ===== verification/Memory_Laws.thy ===== *)
theory Memory_Laws
  imports Memory_Store
begin

text \<open>
  What the in-memory store guarantees: the byte budget of every reachable state, the least-recently-used
  order of eviction, and what a caller finds after a store.
\<close>

section \<open>Recency\<close>

lemma sorted_ages_distinct:
  assumes "shard_wf X n t i sh" and "t \<noteq> u64_max"
  shows "distinct (map fst (sort_key fst (record_ages sh)))"
proof -
  have "distinct (sh_records sh)" using assms(1) by (simp add: shard_wf_def distinct_map)
  then have "distinct (map fst (record_ages sh))"
    using assms by (simp add: shard_wf_def record_ages_def comp_def case_prod_unfold distinct_map)
  moreover have "mset (map fst (sort_key fst (record_ages sh))) = mset (map fst (record_ages sh))" by simp
  ultimately show ?thesis using mset_eq_imp_distinct_iff by blast
qed

lemma filter_after_cutoff_distinct:
  fixes as :: "('a::linorder \<times> nat) list"
  assumes "sorted (map fst as)" and "distinct (map fst as)" and "i \<le> length as" and "0 < i"
  shows "filter (\<lambda>a. fst (as ! (i - 1)) < fst a) as = drop i as"
proof -
  have "sorted_wrt (<) (map fst (take i as) @ map fst (drop i as))"
    using assms(1,2) unfolding map_append [symmetric] append_take_drop_id by (simp add: strict_sorted_iff)
  moreover have "as ! (i - 1) \<in> set (take i as)"
    using assms(3,4) by (auto simp: in_set_conv_nth intro!: exI [of _ "i - 1"])
  ultimately have "fst (as ! (i - 1)) < fst a" if "a \<in> set (drop i as)" for a
    using that by (simp add: sorted_wrt_append)
  then show ?thesis using filter_after_cutoff [OF assms(1,3,4)] by simp
qed

lemma purge_lru:
  assumes wf: "shard_wf X n t i sh" and t: "t \<noteq> u64_max" and full: "per_shard (ms_limits s) < sh_bytes sh"
    and p: "purge s sh = (sh', s')"
  obtains k r where "(k, r) \<in> set (sh_records sh)"
    and "sh_records sh' = filter (\<lambda>(k', r'). mr_last_used r < mr_last_used r') (sh_records sh)"
    and "sh_bytes sh' \<le> shard_purge_target (ms_limits s)"
    and "shard_purge_target (ms_limits s) < sh_bytes sh' + mr_bytes r"
proof -
  let ?as = "sort_key fst (record_ages sh)" and ?l = "ms_limits s"
  obtain j where j: "j \<le> length (sh_records sh)"
    and c: "shard_cutoff ?l sh = (if j = 0 then 0 else fst (?as ! (j - 1)))"
    and low: "sum_list (map snd (drop j ?as)) \<le> shard_purge_target ?l"
    and high: "\<forall>m < j. shard_purge_target ?l < sum_list (map snd (drop m ?as))"
    by (rule shard_cutoff_split [OF wf])
  have len: "length ?as = length (sh_records sh)" by (simp add: record_ages_def)
  have "sum_list (map snd ?as) = sh_bytes sh"
    using wf by (simp add: sum_sort_key_all sum_record_ages shard_wf_def)
  then have "j \<noteq> 0" using low full purge_target_le_cap [of ?l] by (cases j) auto
  then obtain m where m: "j = Suc m" by (cases j) auto
  have c': "shard_cutoff ?l sh = fst (?as ! m)" and ml: "m < length ?as" using c j len m by auto
  have "?as ! m \<in> set ?as" using ml by (rule nth_mem)
  then obtain k r where r: "(k, r) \<in> set (sh_records sh)" "?as ! m = (mr_last_used r, mr_bytes r)"
    by (auto simp: record_ages_def)
  have kept: "sum_list (map (mr_bytes \<circ> snd)
      (filter (\<lambda>(k, r'). mr_last_used r < mr_last_used r') (sh_records sh))) = sum_list (map snd (drop j ?as))"
    using filter_after_cutoff_distinct [OF _ sorted_ages_distinct [OF wf t], of j]
      filter_record_ages [of "mr_last_used r" sh] sum_sort_key [of snd "\<lambda>a. mr_last_used r < fst a" fst "record_ages sh"]
      ml m r(2) by simp
  have "drop m ?as = ?as ! m # drop j ?as" using Cons_nth_drop_Suc [OF ml] m by simp
  with high [rule_format, of m] m r(2) have "shard_purge_target ?l < mr_bytes r + sum_list (map snd (drop j ?as))" by simp
  moreover have "sh_records sh' = filter (\<lambda>(k', r'). mr_last_used r < mr_last_used r') (sh_records sh)"
    and "sh_bytes sh' = sum_list (map snd (drop j ?as))"
    using p full kept c' r(2) by (auto simp: purge_def Let_def bytes_of_records)
  ultimately show ?thesis using low by (intro that [OF r(1)]) simp_all
qed

lemma purge_drops_large:
  assumes wf: "shard_wf X n t i sh" and full: "per_shard (ms_limits s) < sh_bytes sh"
    and p: "purge s sh = (sh', s')" and r: "map_of (sh_records sh) k = Some r"
    and newest: "mr_last_used r = t" and large: "shard_purge_target (ms_limits s) < mr_bytes r"
  shows "sh_records sh' = []"
proof -
  let ?c = "shard_cutoff (ms_limits s) sh"
  let ?kept = "filter (\<lambda>(k, r). ?c < mr_last_used r) (sh_records sh)"
  have "(k, r) \<notin> set ?kept"
  proof
    assume "(k, r) \<in> set ?kept"
    then have "mr_bytes r \<in> set (map (mr_bytes \<circ> snd) ?kept)" by force
    then have "mr_bytes r \<le> sum_list (map (mr_bytes \<circ> snd) ?kept)" by (rule member_le_sum_list) simp
    with kept_bytes_target [OF wf, of "ms_limits s"] large show False by simp
  qed
  then have c: "t \<le> ?c" using map_of_SomeD [OF r] newest by auto
  have "\<not> ?c < mr_last_used r'" if "(k', r') \<in> set (sh_records sh)" for k' r'
  proof -
    have "mr_last_used r' \<le> t" using wf that by (auto simp: shard_wf_def)
    from order_trans [OF this c] show ?thesis by (simp add: not_less)
  qed
  then have "?kept = []" by (auto simp: filter_empty_conv)
  with p full show ?thesis by (auto simp: purge_def Let_def)
qed

section \<open>Reachable stores\<close>

inductive mem_reachable :: "cache_ext \<Rightarrow> memory_store \<Rightarrow> bool" for X :: cache_ext where
  with_limits: "mem_reachable X (store_with_limits l)"
| got: "mem_reachable X s \<Longrightarrow> mem_reachable X (snd (store_get X k s))"
| put: "mem_reachable X s \<Longrightarrow> mem_reachable X (snd (store_put X k e s))"
| removed: "mem_reachable X s \<Longrightarrow> mem_reachable X (snd (store_remove X k s))"

lemma mem_reachable_inv: "mem_reachable X s \<Longrightarrow> mem_inv X s"
  by (induction rule: mem_reachable.induct)
    (auto intro: with_limits_mem_inv store_get_ok(2) store_put_ok(2) store_remove_ok(2))

lemma sum_list_le_const:
  fixes f :: "'a \<Rightarrow> nat"
  shows "\<forall>x \<in> set xs. f x \<le> c \<Longrightarrow> sum_list (map f xs) \<le> length xs * c"
  by (induction xs) auto

lemma store_bytes_bound:
  assumes "mem_inv X s"
  shows "mst_bytes (store_stats s) \<le> max (ml_max_bytes (ms_limits s)) (ml_shards (ms_limits s))"
proof -
  let ?n = "length (ms_shards s)" and ?m = "ml_max_bytes (ms_limits s)"
  have n: "ml_shards (ms_limits s) = ?n" "0 < ?n" using assms by (auto simp: mem_inv_def)
  have "\<forall>sh \<in> set (ms_shards s). sh_bytes sh \<le> per_shard (ms_limits s)"
    using assms by (auto simp: mem_inv_def in_set_conv_nth)
  then have "sum_list (map sh_bytes (ms_shards s)) \<le> ?n * per_shard (ms_limits s)"
    by (rule sum_list_le_const)
  moreover have "per_shard (ms_limits s) = max (?m div ?n) 1"
    using n by (simp add: per_shard_def max_absorb1 Suc_le_eq)
  then have "?n * per_shard (ms_limits s) = max (?n * (?m div ?n)) ?n"
    by (simp add: nat_mult_max_right)
  then have "?n * per_shard (ms_limits s) \<le> max ?m ?n"
    using times_div_less_eq_dividend [of ?n ?m] by (simp add: max.coboundedI1)
  ultimately show ?thesis using n by (simp add: store_stats_def)
qed

lemma store_bytes_exact:
  assumes "mem_inv X s"
  shows "mst_bytes (store_stats s) = sum_list (map (\<lambda>sh. sum_list
    (map (\<lambda>(k, r). record_size X k (mr_variants r)) (sh_records sh))) (ms_shards s))"
proof -
  have "sh_bytes sh = sum_list (map (\<lambda>(k, r). record_size X k (mr_variants r)) (sh_records sh))"
    if "sh \<in> set (ms_shards s)" for sh
  proof -
    from that assms obtain i where wf: "shard_wf X (length (ms_shards s)) (ms_tick s) i sh"
      by (auto simp: mem_inv_def in_set_conv_nth)
    then have "map (mr_bytes \<circ> snd) (sh_records sh)
        = map (\<lambda>(k, r). record_size X k (mr_variants r)) (sh_records sh)"
      by (auto simp: shard_wf_def record_ok_def)
    with wf show ?thesis by (simp add: shard_wf_def)
  qed
  then show ?thesis by (simp add: store_stats_def cong: map_cong)
qed

lemma variants_of_distinct:
  assumes "mem_inv X s"
  shows "distinct (map ce_selector (variants_of X s k))"
  using mem_inv_shard(1) [OF assms, of k]
  by (auto simp: variants_of_def shard_wf_def record_ok_def split: option.splits dest: map_of_SomeD)

lemma not_stored:
  assumes "mem_inv X s" and "variants_of X s k = []"
  shows "map_of (sh_records (ms_shards s ! shard_of X s k)) k = None"
  using assms mem_inv_shard(1) [OF assms(1), of k]
  by (auto simp: variants_of_def shard_wf_def record_ok_def split: option.splits dest: map_of_SomeD)

section \<open>What a store leaves behind\<close>

text \<open>A record that fits beside what its shard holds is found again with everything else.\<close>

lemma store_put_fits:
  assumes inv: "mem_inv X s" and new: "variants_of X s k = []"
    and fits: "sh_bytes (ms_shards s ! shard_of X s k) + record_size X k [e] \<le> per_shard (ms_limits s)"
  shows "variants_of X (snd (store_put X k e s)) k' = (if k' = k then [e] else variants_of X s k')"
proof -
  let ?i = "shard_of X s k"
  let ?sh = "(ms_shards s ! ?i)\<lparr>sh_bytes := sh_bytes (ms_shards s ! ?i) + record_size X k [e],
    sh_records := AList.update k
      \<lparr>mr_variants = [e], mr_bytes = record_size X k [e], mr_last_used = saturating_incr (ms_tick s)\<rparr>
      (sh_records (ms_shards s ! ?i))\<rparr>"
  have "snd (store_put X k e s) = set_shard ?i ?sh (s\<lparr>ms_tick := saturating_incr (ms_tick s)\<rparr>)"
    using fits not_stored [OF inv new]
    by (simp add: store_put_def next_tick_def Let_def merge_variants_def purge_def shard_of_def)
  then have "ms_shards (snd (store_put X k e s)) = (ms_shards s)[?i := ?sh]"
    by (simp add: set_shard_def)
  from variants_of_replace [OF inv this, of k'] show ?thesis
    by (auto simp: update_conv' variants_of_def)
qed

lemma sum_list_mset: "sum_list (map f xs) = sum_mset (image_mset f (mset xs))"
  by (metis mset_map sum_mset_sum_list)

lemma mset_of_map_upd:
  assumes "distinct (map fst xs)" and "distinct (map fst ys)"
    and "map_of ys = (map_of xs)(k \<mapsto> v)" and "map_of xs k = None"
  shows "mset ys = add_mset (k, v) (mset xs)"
proof -
  have "(a, b) \<in> set ys \<longleftrightarrow> (a, b) = (k, v) \<or> (a, b) \<in> set xs" for a b
    unfolding map_of_eq_Some_iff [OF assms(1), symmetric] map_of_eq_Some_iff [OF assms(2), symmetric]
    using assms(3,4) by auto
  then have "set ys = insert (k, v) (set xs)" by auto
  moreover have "(k, v) \<notin> set xs" using assms(4) by (auto simp: map_of_eq_None_iff rev_image_eqI)
  moreover have "distinct xs" "distinct ys" using assms(1,2) by (simp_all add: distinct_map)
  ultimately show ?thesis by (simp flip: mset_set_set)
qed

lemma store_put_flushes:
  assumes inv: "mem_inv X s" and new: "variants_of X s k = []" and ok: "\<not> put_refused X s k e"
    and large: "shard_purge_target (ms_limits s) < record_size X k [e]"
    and full: "per_shard (ms_limits s) < sh_bytes (ms_shards s ! shard_of X s k) + record_size X k [e]"
    and same: "shard_of X s k' = shard_of X s k"
  shows "variants_of X (snd (store_put X k e s)) k' = []"
proof -
  let ?r = "\<lparr>mr_variants = [e], mr_bytes = record_size X k [e], mr_last_used = saturating_incr (ms_tick s)\<rparr>"
  have mv: "merge_variants (variants_of X s k) e = [e]" using new by (simp add: merge_variants_def)
  obtain sh1 sh2 s1 where out: "store_put X k e s = (Inr (), set_shard (shard_of X s k) sh2 s1)"
    and p: "purge (s\<lparr>ms_tick := saturating_incr (ms_tick s)\<rparr>) sh1 = (sh2, s1)"
    and wf: "shard_wf X (length (ms_shards s)) (saturating_incr (ms_tick s)) (shard_of X s k) sh1"
    and recs: "map_of (sh_records sh1) = (map_of (sh_records (ms_shards s ! shard_of X s k)))(k \<mapsto> ?r)"
    using store_put_accepted [OF inv ok, unfolded mv] by blast
  have r: "map_of (sh_records sh1) k = Some ?r" using recs by simp
  have "per_shard (ms_limits s) < sh_bytes sh1"
  proof -
    let ?old = "ms_shards s ! shard_of X s k"
    have d: "distinct (map fst (sh_records ?old))" "distinct (map fst (sh_records sh1))"
      using mem_inv_shard(1) [OF inv, of k] wf by (auto simp: shard_wf_def)
    have "mset (sh_records sh1) = add_mset (k, ?r) (mset (sh_records ?old))"
      using recs d not_stored [OF inv new] by (intro mset_of_map_upd) auto
    then have "sum_list (map (mr_bytes \<circ> snd) (sh_records sh1))
        = record_size X k [e] + sum_list (map (mr_bytes \<circ> snd) (sh_records ?old))"
      by (simp add: sum_list_mset)
    with full wf mem_inv_shard(1) [OF inv, of k] show ?thesis by (simp add: shard_wf_def)
  qed
  then have "sh_records sh2 = []"
    using purge_drops_large [OF wf _ p r] large by simp
  moreover have "ms_shards (set_shard (shard_of X s k) sh2 s1) = (ms_shards s)[shard_of X s k := sh2]"
    using purge_ok(3) [OF wf p] by (simp add: set_shard_def)
  ultimately show ?thesis
    using variants_of_replace [OF inv, of "set_shard (shard_of X s k) sh2 s1" k sh2 k'] same out by simp
qed

section \<open>Concrete stores\<close>

definition sample_key :: "string \<Rightarrow> cache_key" where
  "sample_key t = \<lparr>key_method = ''GET'', key_target = t\<rparr>"

definition sized_entry :: "nat \<Rightarrow> cache_entry" where
  "sized_entry n = entry_new 200 ''HTTP/1.1'' [] (replicate n CHR ''x'') selector_any 0 0"

definition small_store :: memory_store where
  "small_store = store_with_limits \<lparr>ml_max_bytes = 500, ml_shards = 1\<rparr>"

definition one_key_store :: memory_store where
  "one_key_store = snd (store_put sample_cache_ext (sample_key ''a'') (sized_entry 0) small_store)"

lemma one_key_reachable: "mem_reachable sample_cache_ext one_key_store"
  unfolding one_key_store_def small_store_def by (intro mem_reachable.put mem_reachable.with_limits)

section \<open>Properties\<close>

text \<open>C22: The in-memory store never exceeds its budget. In every state reached by lookups, stores and
  removals the byte counter is exactly the size of what is held, it is at most the configured maximum (or
  one byte per shard when the maximum is smaller than that), and no key holds two variants with the same
  selector.\<close>
theorem memory_store_stays_within_budget:
  assumes "mem_reachable X s"
  shows "mst_bytes (store_stats s) \<le> max (ml_max_bytes (ms_limits s)) (ml_shards (ms_limits s))
    \<and> mst_bytes (store_stats s) = sum_list (map (\<lambda>sh. sum_list
        (map (\<lambda>(k, r). record_size X k (mr_variants r)) (sh_records sh))) (ms_shards s))
    \<and> distinct (map ce_selector (variants_of X s k))"
  using mem_reachable_inv [OF assms] store_bytes_bound store_bytes_exact variants_of_distinct by blast

theorem memory_store_stays_within_budget_witness:
  "mst_bytes (store_stats one_key_store) = 241 \<and> mst_bytes (store_stats one_key_store) \<le> 500"
proof -
  have "mst_bytes (store_stats one_key_store) = 241"
    and l: "max (ml_max_bytes (ms_limits one_key_store)) (ml_shards (ms_limits one_key_store)) = 500"
    by code_simp+
  with memory_store_stays_within_budget [OF one_key_reachable] show ?thesis unfolding l by blast
qed

text \<open>C23: The store keeps its contract. A lookup returns exactly the variants held and changes none; a
  removal empties its key and touches no other; a store leaves its key empty or with the entry replacing
  the variant of the same selector, and every other key unchanged or evicted; a store that is refused
  evicts nothing, and a new record that fits beside what its shard holds is found by the next lookup.\<close>
theorem memory_store_keeps_contract:
  assumes "mem_reachable X s"
  shows "fst (store_get X k s) = Inr (variants_of X s k)
    \<and> variants_of X (snd (store_get X k s)) k' = variants_of X s k'
    \<and> variants_of X (snd (store_remove X k s)) k' = (if k' = k then [] else variants_of X s k')
    \<and> variants_of X (snd (store_put X k e s)) k \<in> {[], merge_variants (variants_of X s k) e}
    \<and> (k' \<noteq> k \<longrightarrow> variants_of X (snd (store_put X k e s)) k' \<in> {[], variants_of X s k'})
    \<and> (k' \<noteq> k \<and> put_refused X s k e \<longrightarrow>
         variants_of X (snd (store_put X k e s)) k' = variants_of X s k')
    \<and> (variants_of X s k = [] \<and> sh_bytes (ms_shards s ! shard_of X s k) + record_size X k [e]
           \<le> per_shard (ms_limits s) \<longrightarrow>
         fst (store_get X k (snd (store_put X k e s))) = Inr [e])"
proof -
  note inv = mem_reachable_inv [OF assms]
  have "variants_of X (snd (store_put X k e s)) k \<in> {[], merge_variants (variants_of X s k) e}"
    using store_put_ok(3) [OF inv, of k e] by (auto split: if_splits)
  moreover have "fst (store_get X k (snd (store_put X k e s))) = Inr [e]"
    if "variants_of X s k = []" and "sh_bytes (ms_shards s ! shard_of X s k) + record_size X k [e]
      \<le> per_shard (ms_limits s)"
    using store_get_ok(1) [OF store_put_ok(2) [OF inv]] store_put_fits [OF inv that, of k] by simp
  ultimately show ?thesis
    using store_get_ok(1,3) [OF inv] store_remove_ok(3) [OF inv] store_put_ok(4) [OF inv, of k' k e]
    by (auto split: if_splits)
qed

theorem memory_store_keeps_contract_witness:
  "fst (store_get sample_cache_ext (sample_key ''b'')
      (snd (store_put sample_cache_ext (sample_key ''b'') (sized_entry 9) one_key_store)))
    = Inr [sized_entry 9]"
proof -
  have "variants_of sample_cache_ext one_key_store (sample_key ''b'') = []"
    and "sh_bytes (ms_shards one_key_store ! shard_of sample_cache_ext one_key_store (sample_key ''b''))
      + record_size sample_cache_ext (sample_key ''b'') [sized_entry 9] \<le> per_shard (ms_limits one_key_store)"
    by code_simp+
  with memory_store_keeps_contract [OF one_key_reachable, of "sample_key ''b''" _ "sized_entry 9"]
  show ?thesis by blast
qed

text \<open>C24: Eviction is least-recently-used and stops as soon as it may. A purge of an overflowing shard
  drops exactly the records used no later than some record of it, brings the shard to at most seven
  eighths of its share, and keeping that last dropped record would have exceeded the seven eighths.\<close>
theorem purge_is_least_recently_used:
  assumes "shard_wf X n t i sh" and "t \<noteq> u64_max" and "per_shard (ms_limits s) < sh_bytes sh"
    and "purge s sh = (sh', s')"
  shows "\<exists>(k, r) \<in> set (sh_records sh).
    sh_records sh' = filter (\<lambda>(k', r'). mr_last_used r < mr_last_used r') (sh_records sh)
    \<and> sh_bytes sh' \<le> shard_purge_target (ms_limits s)
    \<and> shard_purge_target (ms_limits s) < sh_bytes sh' + mr_bytes r"
proof -
  obtain k r where "(k, r) \<in> set (sh_records sh)"
    and "sh_records sh' = filter (\<lambda>(k', r'). mr_last_used r < mr_last_used r') (sh_records sh)"
    and "sh_bytes sh' \<le> shard_purge_target (ms_limits s)"
    and "shard_purge_target (ms_limits s) < sh_bytes sh' + mr_bytes r"
    by (rule purge_lru [OF assms])
  then show ?thesis by (intro bexI [of _ "(k, r)"]) simp_all
qed

definition overflowing_shard :: shard where
  "overflowing_shard =
     \<lparr>sh_records =
        [(sample_key ''b'', \<lparr>mr_variants = [sized_entry 0], mr_bytes = 241, mr_last_used = 2\<rparr>),
         (sample_key ''c'', \<lparr>mr_variants = [sized_entry 0], mr_bytes = 241, mr_last_used = 3\<rparr>),
         (sample_key ''a'', \<lparr>mr_variants = [sized_entry 0], mr_bytes = 241, mr_last_used = 1\<rparr>)],
      sh_bytes = 723\<rparr>"

theorem purge_is_least_recently_used_witness:
  "\<exists>(k, r) \<in> set (sh_records overflowing_shard).
    sh_records (fst (purge small_store overflowing_shard))
      = filter (\<lambda>(k', r'). mr_last_used r < mr_last_used r') (sh_records overflowing_shard)
    \<and> sh_bytes (fst (purge small_store overflowing_shard)) \<le> 438"
proof -
  have wf: "shard_wf sample_cache_ext 1 3 0 overflowing_shard"
    unfolding shard_wf_def by (intro conjI) code_simp+
  have t: "(3 :: u64) \<noteq> u64_max" and full: "per_shard (ms_limits small_store) < sh_bytes overflowing_shard"
    and target: "shard_purge_target (ms_limits small_store) = 438" by code_simp+
  from purge_is_least_recently_used [OF wf t full prod.collapse [symmetric]] show ?thesis
    unfolding target by blast
qed

text \<open>C40: A record between seven eighths and the whole of its shard's share is not refused, and storing it
  into a shard it overflows empties that shard: every other key of the shard is evicted and the record
  itself is not kept either.\<close>
theorem large_store_empties_shard:
  assumes "mem_reachable X s" and "variants_of X s k = []" and "\<not> put_refused X s k e"
    and "shard_purge_target (ms_limits s) < record_size X k [e]"
    and "per_shard (ms_limits s) < sh_bytes (ms_shards s ! shard_of X s k) + record_size X k [e]"
    and "shard_of X s k' = shard_of X s k"
  shows "variants_of X (snd (store_put X k e s)) k' = []"
  using store_put_flushes [OF mem_reachable_inv [OF assms(1)] assms(2-6)] .

theorem large_store_empties_shard_witness:
  "variants_of sample_cache_ext one_key_store (sample_key ''a'') = [sized_entry 0]
   \<and> variants_of sample_cache_ext
       (snd (store_put sample_cache_ext (sample_key ''b'') (sized_entry 200) one_key_store)) (sample_key ''a'') = []"
proof -
  have v: "variants_of sample_cache_ext one_key_store (sample_key ''b'') = []"
    "\<not> put_refused sample_cache_ext one_key_store (sample_key ''b'') (sized_entry 200)"
    "shard_purge_target (ms_limits one_key_store)
      < record_size sample_cache_ext (sample_key ''b'') [sized_entry 200]"
    "per_shard (ms_limits one_key_store)
      < sh_bytes (ms_shards one_key_store ! shard_of sample_cache_ext one_key_store (sample_key ''b''))
        + record_size sample_cache_ext (sample_key ''b'') [sized_entry 200]"
    "shard_of sample_cache_ext one_key_store (sample_key ''a'')
      = shard_of sample_cache_ext one_key_store (sample_key ''b'')"
    and held: "variants_of sample_cache_ext one_key_store (sample_key ''a'') = [sized_entry 0]"
    by code_simp+
  from large_store_empties_shard [OF one_key_reachable v] held show ?thesis by blast
qed

end
