(* ===== verification/Http_Cache.thy ===== *)
theory Http_Cache
  imports Memory_Store
begin

text \<open>
  \<open>chromulate-cache/src/cache.rs\<close> and \<open>clock.rs\<close>: what the cache does before a request is sent and with
  what came back, and the two bodies it hands out: one that records itself while it is read and one that
  drains a \<open>304\<close> before the stored body. The store is any implementation of the storage trait, a record
  of operations over its state; a clock reading is an argument.
\<close>

section \<open>The clock\<close>

definition clock_advance :: "duration \<Rightarrow> system_time \<Rightarrow> system_time" where
  "clock_advance by now = (case checked_add now by of Some t \<Rightarrow> t | None \<Rightarrow> now)"

definition clock_set :: "system_time \<Rightarrow> system_time \<Rightarrow> system_time" where
  "clock_set to now = to"

section \<open>Messages\<close>

text \<open>What polling a body yields, in order; the end of the list is the end of the body.\<close>

datatype frame = DataFrame string | TrailersFrame | FrameError | FramePending

record cache_request =
  rq_method :: string
  rq_headers :: header_map

record origin_response =
  or_status :: nat
  or_version :: string
  or_headers :: header_map
  or_frames :: "frame list"
  or_hint :: "nat option"

datatype cache_status = Hit | Revalidated

record pending_inner =
  pi_key :: cache_key
  pi_request_headers :: header_map
  pi_request_cc :: cache_control
  pi_requested_at :: system_time
  pi_revalidating :: "cache_entry option"

datatype pending = Aside | Invalidate | Store pending_inner

record commit =
  cm_key :: cache_key
  cm_status :: nat
  cm_version :: string
  cm_headers :: header_map
  cm_selector :: selector
  cm_requested_at :: system_time
  cm_received_at :: system_time
  cm_limit :: nat

record recording =
  rc_inner :: "frame list"
  rc_buffered :: string
  rc_commit :: "commit option"

record draining =
  dr_inner :: "frame list option"
  dr_stored :: "string option"

datatype cache_body = Passed "frame list" "nat option" | FixedBody string
  | RecordedBody recording "nat option" | DrainedBody draining nat

record cache_response =
  cr_status :: nat
  cr_version :: string
  cr_headers :: header_map
  cr_body :: cache_body
  cr_mark :: "cache_status option"

section \<open>Helpers\<close>

definition is_safe :: "string \<Rightarrow> bool" where
  "is_safe meth \<longleftrightarrow> meth \<in> set [''GET'', ''HEAD'', ''OPTIONS'', ''TRACE'']"

definition pending_aside :: "string \<Rightarrow> pending" where
  "pending_aside meth = (if is_safe meth then Aside else Invalidate)"

definition opaque_tag :: "header_value \<Rightarrow> string" where
  "opaque_tag v = (case strip_prefix ''W/'' v of Some r \<Rightarrow> r | None \<Rightarrow> v)"

definition validators_agree :: "header_map \<Rightarrow> header_map \<Rightarrow> bool" where
  "validators_agree stored not_modified =
     (case (hm_get stored ''etag'', hm_get not_modified ''etag'') of
        (Some s, Some confirmed) \<Rightarrow> opaque_tag s = opaque_tag confirmed
      | _ \<Rightarrow> True)"

definition selects_the_same_way :: "cache_ext \<Rightarrow> header_map \<Rightarrow> header_map \<Rightarrow> bool" where
  "selects_the_same_way X stored not_modified =
     (if \<not> hm_contains not_modified ''vary'' then True
      else case vary_names X stored of
             Some names \<Rightarrow> vary_names X not_modified = Some names
           | None \<Rightarrow> False)"

definition declares_its_length :: "cache_ext \<Rightarrow> header_map \<Rightarrow> nat \<Rightarrow> bool" where
  "declares_its_length X h len =
     (case hm_get h ''content-length'' of
        None \<Rightarrow> True
      | Some declared \<Rightarrow>
          (case Option.bind (cx_to_str X declared) (\<lambda>text. parse_unsigned 64 (trim text)) of
             Some n \<Rightarrow> n = len
           | None \<Rightarrow> False))"

definition stamp :: "duration \<Rightarrow> cache_status \<Rightarrow> cache_response \<Rightarrow> cache_response" where
  "stamp age status r =
     r\<lparr>cr_headers := hm_insert ''age'' (show_nat (as_secs age)) (cr_headers r), cr_mark := Some status\<rparr>"

definition to_response :: "cache_entry \<Rightarrow> duration \<Rightarrow> cache_status \<Rightarrow> cache_response" where
  "to_response e age status =
     stamp age status
       \<lparr>cr_status = ce_status e, cr_version = ce_version e, cr_headers = ce_headers e,
        cr_body = FixedBody (ce_body e), cr_mark = None\<rparr>"

definition revalidated :: "cache_entry \<Rightarrow> duration \<Rightarrow> frame list \<Rightarrow> cache_response" where
  "revalidated e age not_modified =
     stamp age Revalidated
       \<lparr>cr_status = ce_status e, cr_version = ce_version e, cr_headers = ce_headers e,
        cr_body = DrainedBody \<lparr>dr_inner = Some not_modified, dr_stored = Some (ce_body e)\<rparr>
          (length (ce_body e)), cr_mark = None\<rparr>"

definition passed :: "origin_response \<Rightarrow> cache_response" where
  "passed r =
     \<lparr>cr_status = or_status r, cr_version = or_version r, cr_headers = or_headers r,
      cr_body = Passed (or_frames r) (or_hint r), cr_mark = None\<rparr>"

section \<open>The cache\<close>

definition cache_select ::
  "'s storage_ops \<Rightarrow> cache_key \<Rightarrow> header_map \<Rightarrow> 's \<Rightarrow> cache_entry option \<times> 's" where
  "cache_select ops k request s =
     (case so_get ops k s of
        (Inr variants, s') \<Rightarrow> (find (\<lambda>e. selector_matches (ce_selector e) request) variants, s')
      | (Inl _, s') \<Rightarrow> (None, s'))"

definition cache_store :: "'s storage_ops \<Rightarrow> cache_key \<Rightarrow> cache_entry \<Rightarrow> 's \<Rightarrow> 's" where
  "cache_store ops k e s = snd (so_put ops k e s)"

definition cache_remove :: "'s storage_ops \<Rightarrow> cache_key \<Rightarrow> 's \<Rightarrow> 's" where
  "cache_remove ops k s = snd (so_remove ops k s)"

definition cache_invalidate :: "cache_ext \<Rightarrow> 's storage_ops \<Rightarrow> url \<Rightarrow> 's \<Rightarrow> 's" where
  "cache_invalidate X ops u s = cache_remove ops (cache_key_new X ''GET'' u) s"

definition referenced_target :: "cache_ext \<Rightarrow> url \<Rightarrow> header_map \<Rightarrow> header_name \<Rightarrow> url option" where
  "referenced_target X u headers name =
     do { v \<leftarrow> hm_get headers name; text \<leftarrow> cx_to_str X v; cx_join X u text }"

definition invalidate_referenced :: "cache_ext \<Rightarrow> 's storage_ops \<Rightarrow> url \<Rightarrow> header_map \<Rightarrow> 's \<Rightarrow> 's" where
  "invalidate_referenced X ops u headers s =
     fold (\<lambda>name s. case referenced_target X u headers name of
             None \<Rightarrow> s
           | Some target \<Rightarrow> if cx_same_origin X target u then cache_invalidate X ops target s else s)
       [''location'', ''content-location''] s"

definition add_validators :: "cache_entry \<Rightarrow> cache_request \<Rightarrow> cache_request" where
  "add_validators e request =
     (let h1 = (case hm_get (ce_headers e) ''etag'' of
                  Some etag \<Rightarrow> hm_insert ''if-none-match'' etag (rq_headers request)
                | None \<Rightarrow> rq_headers request);
          h2 = (case hm_get (ce_headers e) ''last-modified'' of
                  Some modified \<Rightarrow> hm_insert ''if-modified-since'' modified h1
                | None \<Rightarrow> h1)
      in request\<lparr>rq_headers := h2\<rparr>)"

definition before :: "cache_ext \<Rightarrow> 's storage_ops \<Rightarrow> cache_config \<Rightarrow> system_time \<Rightarrow> cache_request \<Rightarrow> url \<Rightarrow> 's
    \<Rightarrow> pending \<times> cache_response option \<times> cache_request \<times> 's" where
  "before X ops config now request u s =
     (let caller_owns_it = hm_contains (rq_headers request) ''if-none-match''
            \<or> hm_contains (rq_headers request) ''if-modified-since''
            \<or> hm_contains (rq_headers request) ''range'';
          request_cc = cc_of_request X (rq_headers request)
      in if caller_owns_it \<or> rq_method request \<noteq> ''GET'' \<or> cc_no_store request_cc
         then (pending_aside (rq_method request), None, request, s)
         else
           let state = \<lparr>pi_key = cache_key_new X (rq_method request) u,
                 pi_request_headers = rq_headers request, pi_request_cc = request_cc,
                 pi_requested_at = now, pi_revalidating = None\<rparr>
           in case cache_select ops (pi_key state) (rq_headers request) s of
                (None, s') \<Rightarrow> (Store state, None, request, s')
              | (Some e, s') \<Rightarrow>
                  if is_fresh X e (cc_of X (ce_headers e)) config now
                     \<and> \<not> request_forces_revalidation (pi_request_cc state)
                  then (Store state, Some (to_response e (current_age X e now) Hit), request, s')
                  else if \<not> has_validator (ce_headers e) then (Store state, None, request, s')
                  else (Store (state\<lparr>pi_revalidating := Some e\<rparr>), None, add_validators e request, s'))"

definition confirms :: "cache_ext \<Rightarrow> pending_inner \<Rightarrow> origin_response \<Rightarrow> cache_entry option" where
  "confirms X state response =
     (case pi_revalidating state of
        None \<Rightarrow> None
      | Some e \<Rightarrow>
          if or_status response = 304
             \<and> validators_agree (ce_headers e) (or_headers response)
             \<and> selects_the_same_way X (ce_headers e) (or_headers response)
          then Some e else None)"

definition after_store :: "cache_ext \<Rightarrow> 's storage_ops \<Rightarrow> cache_config \<Rightarrow> system_time \<Rightarrow> pending_inner \<Rightarrow>
    origin_response \<Rightarrow> 's \<Rightarrow> cache_response \<times> 's" where
  "after_store X ops config received_at state response s =
     (case confirms X state response of
        Some e \<Rightarrow>
          (let r = refreshed e (or_headers response) (pi_requested_at state) received_at;
               merged_cc = cc_of X (ce_headers r);
               s' = (case storable X config ''GET'' (pi_request_headers state) (pi_request_cc state)
                            (ce_status r) (ce_headers r) merged_cc of
                       Inr _ \<Rightarrow> cache_store ops (pi_key state) r s
                     | Inl _ \<Rightarrow> cache_remove ops (pi_key state) s)
           in (revalidated r (current_age X r received_at) (or_frames response), s'))
      | None \<Rightarrow>
          (let response_cc = cc_of X (or_headers response)
           in case storable X config ''GET'' (pi_request_headers state) (pi_request_cc state)
                     (or_status response) (or_headers response) response_cc of
                Inl _ \<Rightarrow>
                  (passed response,
                   if cc_no_store response_cc \<or> pi_revalidating state \<noteq> None
                   then cache_remove ops (pi_key state) s else s)
              | Inr names \<Rightarrow>
                  if (case or_hint response of Some n \<Rightarrow> cfg_max_body_bytes config < n | None \<Rightarrow> False)
                  then (passed response, s)
                  else
                    (let recording = \<lparr>rc_inner = or_frames response, rc_buffered = [],
                           rc_commit = Some \<lparr>cm_key = pi_key state, cm_status = or_status response,
                             cm_version = or_version response,
                             cm_headers = strip_hop_by_hop X (or_headers response),
                             cm_selector = selector_of names (pi_request_headers state),
                             cm_requested_at = pi_requested_at state, cm_received_at = received_at,
                             cm_limit = cfg_max_body_bytes config\<rparr>\<rparr>
                     in (\<lparr>cr_status = or_status response, cr_version = or_version response,
                          cr_headers = or_headers response,
                          cr_body = RecordedBody recording (or_hint response), cr_mark = None\<rparr>, s))))"

definition after :: "cache_ext \<Rightarrow> 's storage_ops \<Rightarrow> cache_config \<Rightarrow> system_time \<Rightarrow> pending \<Rightarrow> url \<Rightarrow>
    origin_response \<Rightarrow> 's \<Rightarrow> cache_response \<times> 's" where
  "after X ops config received_at pending u response s =
     (case pending of
        Aside \<Rightarrow> (passed response, s)
      | Invalidate \<Rightarrow>
          (passed response,
           if or_status response < 400
           then invalidate_referenced X ops u (or_headers response) (cache_invalidate X ops u s)
           else s)
      | Store state \<Rightarrow> after_store X ops config received_at state response s)"

section \<open>The two bodies\<close>

datatype polled = PollPending | PollEnd | PollChunk string | PollError

definition commit_entry :: "commit \<Rightarrow> string \<Rightarrow> cache_entry" where
  "commit_entry c body =
     entry_new (cm_status c) (cm_version c) (cm_headers c) body (cm_selector c) (cm_requested_at c)
       (cm_received_at c)"

definition finish_recording ::
  "cache_ext \<Rightarrow> 's storage_ops \<Rightarrow> string \<Rightarrow> commit option \<Rightarrow> 's \<Rightarrow> 's" where
  "finish_recording X ops buffered commit s =
     (case commit of
        None \<Rightarrow> s
      | Some c \<Rightarrow>
          if \<not> declares_its_length X (cm_headers c) (length buffered) then s
          else snd (so_put ops (cm_key c) (commit_entry c buffered) s))"

definition record_chunk :: "string \<Rightarrow> string \<times> commit option \<Rightarrow> string \<times> commit option" where
  "record_chunk chunk bc =
     (case bc of (buffered, commit) \<Rightarrow>
        case commit of
          None \<Rightarrow> (buffered, None)
        | Some c \<Rightarrow>
            if cm_limit c < length buffered + length chunk then ([], None)
            else (buffered @ chunk, Some c))"

fun poll_recording :: "cache_ext \<Rightarrow> 's storage_ops \<Rightarrow> frame list \<Rightarrow> string \<Rightarrow> commit option \<Rightarrow> 's
    \<Rightarrow> polled \<times> recording \<times> 's" where
  "poll_recording X ops [] buffered commit s =
     (PollEnd,
      \<lparr>rc_inner = [], rc_buffered = (if commit = None then buffered else []), rc_commit = None\<rparr>,
      finish_recording X ops buffered commit s)"
| "poll_recording X ops (TrailersFrame # rest) buffered commit s =
     poll_recording X ops rest buffered commit s"
| "poll_recording X ops (DataFrame chunk # rest) buffered commit s =
     (case record_chunk chunk (buffered, commit) of (buffered', commit') \<Rightarrow>
        (PollChunk chunk, \<lparr>rc_inner = rest, rc_buffered = buffered', rc_commit = commit'\<rparr>, s))"
| "poll_recording X ops (FrameError # rest) buffered commit s =
     (PollError, \<lparr>rc_inner = rest, rc_buffered = buffered, rc_commit = None\<rparr>, s)"
| "poll_recording X ops (FramePending # rest) buffered commit s =
     (PollPending, \<lparr>rc_inner = rest, rc_buffered = buffered, rc_commit = commit\<rparr>, s)"

definition recording_poll_next ::
  "cache_ext \<Rightarrow> 's storage_ops \<Rightarrow> recording \<Rightarrow> 's \<Rightarrow> polled \<times> recording \<times> 's" where
  "recording_poll_next X ops r s = poll_recording X ops (rc_inner r) (rc_buffered r) (rc_commit r) s"

fun drain_inner :: "frame list \<Rightarrow> frame list option" where
  "drain_inner [] = None"
| "drain_inner (DataFrame _ # rest) = drain_inner rest"
| "drain_inner (TrailersFrame # rest) = drain_inner rest"
| "drain_inner (FrameError # rest) = None"
| "drain_inner (FramePending # rest) = Some rest"

definition draining_poll_next :: "draining \<Rightarrow> polled \<times> draining" where
  "draining_poll_next d =
     (case Option.bind (dr_inner d) drain_inner of
        Some rest \<Rightarrow> (PollPending, d\<lparr>dr_inner := Some rest\<rparr>)
      | None \<Rightarrow>
          (case dr_stored d of
             Some body \<Rightarrow> (PollChunk body, \<lparr>dr_inner = None, dr_stored = None\<rparr>)
           | None \<Rightarrow> (PollEnd, \<lparr>dr_inner = None, dr_stored = None\<rparr>)))"

end
