(* ===== verification/Cache_Laws.thy ===== *)
theory Cache_Laws
  imports Http_Cache Memory_Laws
begin

text \<open>
  What the cache guarantees on top of any store that keeps the contract of the storage trait (the lemmas
  of the locale \<open>cache_storage\<close>), and on the in-memory store for every interleaving of lookups, answers
  and body reads.
\<close>

section \<open>What every stored entry satisfies\<close>

definition entry_sound :: "cache_ext \<Rightarrow> cache_config \<Rightarrow> cache_entry \<Rightarrow> bool" where
  "entry_sound X config e \<longleftrightarrow>
     is_cacheable_status (ce_status e)
     \<and> \<not> hm_contains (ce_headers e) ''set-cookie''
     \<and> \<not> cc_no_store (cc_of X (ce_headers e))
     \<and> (cc_private (cc_of X (ce_headers e)) \<longrightarrow> cfg_store_private config)
     \<and> (\<forall>n. is_hop_by_hop n \<longrightarrow> \<not> hm_contains (ce_headers e) n)
     \<and> length (ce_body e) \<le> cfg_max_body_bytes config
     \<and> declares_its_length X (ce_headers e) (length (ce_body e))"

lemma declares_cong:
  "hm_get_all h ''content-length'' = hm_get_all g ''content-length'' \<Longrightarrow>
    declares_its_length X h n = declares_its_length X g n"
  by (simp add: declares_its_length_def hm_get_def)

lemma content_length_end_to_end: "\<not> is_hop_by_hop ''content-length''" "\<not> is_hop_by_hop ''set-cookie''"
  by code_simp+

lemma entry_sound_refreshed:
  assumes e: "entry_sound X config e"
    and ok: "storable X config meth rqh rqcc (ce_status (refreshed e nm rq rc))
      (ce_headers (refreshed e nm rq rc)) (cc_of X (ce_headers (refreshed e nm rq rc))) = Inr names"
  shows "entry_sound X config (refreshed e nm rq rc)"
proof -
  let ?r = "refreshed e nm rq rc"
  have same: "ce_body ?r = ce_body e" "ce_status ?r = ce_status e" by (simp_all add: refreshed_def)
  have "hm_contains (ce_headers ?r) n \<longleftrightarrow> hm_contains (ce_headers e) n" if "is_hop_by_hop n" for n
    using that by (simp add: hm_contains_def refreshed_get mergeable_def)
  moreover have "declares_its_length X (ce_headers ?r) n = declares_its_length X (ce_headers e) n" for n
    by (rule declares_cong) (simp add: refreshed_get mergeable_def)
  ultimately show ?thesis using e ok unfolding entry_sound_def storable_Inr same by blast
qed

lemma cc_of_stripped:
  "cc_of X (strip_hop_by_hop X h) = cc_of X h \<or> cc_of X (strip_hop_by_hop X h) = cc_default"
  by (simp add: cc_of_def strip_hop_by_hop_get)

lemma entry_sound_commit:
  assumes ok: "storable X config meth rqh rqcc status h (cc_of X h) = Inr names"
    and "cm_status c = status" and h: "cm_headers c = strip_hop_by_hop X h"
    and "length body \<le> cfg_max_body_bytes config"
    and "declares_its_length X (cm_headers c) (length body)"
  shows "entry_sound X config (commit_entry c body)"
proof -
  have "cc_default = cc_of X []" by (simp add: cc_of_def hm_get_all_def)
  have "\<not> cc_no_store (cc_of X (cm_headers c))"
    and "cc_private (cc_of X (cm_headers c)) \<longrightarrow> cfg_store_private config"
    using ok cc_of_stripped [of X h] unfolding storable_Inr h by (auto simp: cc_default_def)
  moreover have "\<not> hm_contains (cm_headers c) ''set-cookie''"
    using ok unfolding storable_Inr h by (simp add: hm_contains_def strip_hop_by_hop_get)
  moreover have "\<not> hm_contains (cm_headers c) n" if "is_hop_by_hop n" for n
    using that unfolding h by (simp add: hm_contains_def strip_hop_by_hop_get)
  ultimately show ?thesis
    using assms by (simp add: entry_sound_def commit_entry_def entry_new_def storable_Inr)
qed

text \<open>A recording will only ever commit a sound entry.\<close>

definition recording_sound :: "cache_ext \<Rightarrow> cache_config \<Rightarrow> recording \<Rightarrow> bool" where
  "recording_sound X config r \<longleftrightarrow>
     (\<forall>c. rc_commit r = Some c \<longrightarrow>
        length (rc_buffered r) \<le> cm_limit c
        \<and> (\<forall>body. length body \<le> cm_limit c \<and> declares_its_length X (cm_headers c) (length body)
             \<longrightarrow> entry_sound X config (commit_entry c body)))"

definition pending_sound :: "cache_ext \<Rightarrow> cache_config \<Rightarrow> pending \<Rightarrow> bool" where
  "pending_sound X config p \<longleftrightarrow>
     (\<forall>st e. p = Store st \<and> pi_revalidating st = Some e \<longrightarrow> entry_sound X config e)"

definition body_sound :: "cache_ext \<Rightarrow> cache_config \<Rightarrow> cache_body \<Rightarrow> bool" where
  "body_sound X config b = (case b of RecordedBody r _ \<Rightarrow> recording_sound X config r | _ \<Rightarrow> True)"

section \<open>On any store that keeps its contract\<close>

context cache_storage
begin

definition all_stored :: "(cache_key \<Rightarrow> cache_entry \<Rightarrow> bool) \<Rightarrow> 's \<Rightarrow> bool" where
  "all_stored P s \<longleftrightarrow> (\<forall>k. \<forall>e \<in> set (lookup s k). P k e)"

lemma all_stored_get: "inv s \<Longrightarrow> all_stored P s \<Longrightarrow> so_get ops k s = (r, s') \<Longrightarrow> inv s' \<and> all_stored P s'"
  using get_contract [of s k r s'] unfolding all_stored_def by (metis empty_iff list.set(1))

lemma all_stored_put:
  assumes "inv s" and "all_stored P s" and "P k e" and put: "so_put ops k e s = (r, s')"
  shows "inv s' \<and> all_stored P s'"
proof -
  note c = put_contract [OF assms(1) put]
  have "P j x" if "x \<in> set (lookup s' j)" for j x
  proof (cases "j = k")
    case True
    then show ?thesis
      using c that assms(2,3) merge_variants_mem [of x "lookup s k" e] by (auto simp: all_stored_def)
  next
    case False
    then have "lookup s' j = lookup s j \<or> lookup s' j = []" using c by blast
    with that assms(2) show ?thesis by (auto simp: all_stored_def)
  qed
  with c show ?thesis by (auto simp: all_stored_def)
qed

lemma all_stored_remove:
  assumes "inv s" and "all_stored P s" and remove: "so_remove ops k s = (r, s')"
  shows "inv s' \<and> all_stored P s'"
proof -
  note c = remove_contract [OF assms(1) remove]
  have "P j x" if "x \<in> set (lookup s' j)" for j x
  proof -
    have "lookup s' j = lookup s j \<or> lookup s' j = []" using c by (cases "j = k") auto
    with that assms(2) show ?thesis by (auto simp: all_stored_def)
  qed
  with c show ?thesis by (auto simp: all_stored_def)
qed

lemma cache_select_some:
  assumes "inv s" and "cache_select ops k h s = (Some e, s')"
  shows "e \<in> set (lookup s k) \<and> selector_matches (ce_selector e) h"
proof -
  obtain r s'' where g: "so_get ops k s = (r, s'')" by force
  with assms(2) obtain vs where "r = Inr vs" "find (\<lambda>e. selector_matches (ce_selector e) h) vs = Some e"
    by (auto simp: cache_select_def split: sum.splits)
  then have "r = Inr vs" "e \<in> set vs" "selector_matches (ce_selector e) h"
    by (auto simp: find_Some_iff)
  with get_contract [OF assms(1) g] show ?thesis by blast
qed

lemma cache_select_keeps:
  assumes "inv s" and "all_stored P s" and "cache_select ops k h s = (r, s')"
  shows "inv s' \<and> all_stored P s'"
  using assms(3) all_stored_get [OF assms(1,2), of k]
  by (auto simp: cache_select_def split: prod.splits sum.splits)

lemma cache_store_keeps: "inv s \<Longrightarrow> all_stored P s \<Longrightarrow> P k e \<Longrightarrow>
    inv (cache_store ops k e s) \<and> all_stored P (cache_store ops k e s)"
  using all_stored_put [of s P k e "fst (so_put ops k e s)" "snd (so_put ops k e s)"]
  by (simp add: cache_store_def)

lemma cache_remove_keeps: "inv s \<Longrightarrow> all_stored P s \<Longrightarrow>
    inv (cache_remove ops k s) \<and> all_stored P (cache_remove ops k s)"
  using all_stored_remove [of s P k "fst (so_remove ops k s)" "snd (so_remove ops k s)"]
  by (simp add: cache_remove_def)

lemma fold_keeps:
  assumes "\<And>n s. inv s \<Longrightarrow> all_stored P s \<Longrightarrow> inv (f n s) \<and> all_stored P (f n s)"
  shows "inv s \<Longrightarrow> all_stored P s \<Longrightarrow> inv (fold f ns s) \<and> all_stored P (fold f ns s)"
  using assms by (induction ns arbitrary: s) auto

lemma invalidate_referenced_keeps:
  assumes "inv s" and "all_stored P s"
  shows "inv (invalidate_referenced X ops u h s) \<and> all_stored P (invalidate_referenced X ops u h s)"
  unfolding invalidate_referenced_def
  by (rule fold_keeps [OF _ assms])
    (auto simp: cache_invalidate_def cache_remove_keeps split: option.splits)

text \<open>A response is served only from a matching, fresh entry.\<close>

lemma before_hit:
  assumes "inv s" and b: "before X ops config now request u s = (p, Some r, request', s')"
  obtains e where "e \<in> set (lookup s (cache_key_new X ''GET'' u))"
    and "selector_matches (ce_selector e) (rq_headers request)"
    and "is_fresh X e (cc_of X (ce_headers e)) config now"
    and "r = to_response e (current_age X e now) Hit"
    and "rq_method request = ''GET''" and "\<not> cc_no_store (cc_of_request X (rq_headers request))"
    and "\<not> request_forces_revalidation (cc_of_request X (rq_headers request))" and "request' = request"
proof -
  obtain x s1 where sel: "cache_select ops (cache_key_new X (rq_method request) u) (rq_headers request) s = (x, s1)"
    by force
  with b obtain e where "x = Some e" "rq_method request = ''GET''" "r = to_response e (current_age X e now) Hit"
    "is_fresh X e (cc_of X (ce_headers e)) config now" "request' = request"
    "\<not> cc_no_store (cc_of_request X (rq_headers request))"
    "\<not> request_forces_revalidation (cc_of_request X (rq_headers request))"
    by (auto simp: before_def Let_def split: if_splits option.splits)
  with cache_select_some [OF assms(1), of "cache_key_new X ''GET'' u" "rq_headers request" e s1] sel
  show ?thesis by (intro that [of e]) auto
qed

lemma before_keeps:
  assumes "inv s" and "all_stored P s" and b: "before X ops config now request u s = (p, r, request', s')"
  shows "inv s' \<and> all_stored P s'"
    and "\<And>st e. p = Store st \<Longrightarrow> pi_revalidating st = Some e \<Longrightarrow> P (pi_key st) e"
proof -
  obtain x s1 where sel: "cache_select ops (cache_key_new X (rq_method request) u) (rq_headers request) s = (x, s1)"
    by force
  note keep = cache_select_keeps [OF assms(1,2) sel]
  show "inv s' \<and> all_stored P s'"
    using b sel keep assms(1,2) by (auto simp: before_def Let_def split: if_splits option.splits)
  fix st e assume p: "p = Store st" "pi_revalidating st = Some e"
  with b sel have "x = Some e" and k: "pi_key st = cache_key_new X (rq_method request) u"
    by (auto simp: before_def Let_def pending_aside_def split: if_splits option.splits)
  with sel cache_select_some [OF assms(1)] have "e \<in> set (lookup s (pi_key st))" by metis
  with assms(2) show "P (pi_key st) e" by (auto simp: all_stored_def)
qed


lemma after_store_keeps:
  assumes "inv s" and "all_stored (\<lambda>_. entry_sound X config) s"
    and p: "pending_sound X config (Store st)" and a: "after_store X ops config now st response s = (r, s')"
  shows "inv s' \<and> all_stored (\<lambda>_. entry_sound X config) s'" and "body_sound X config (cr_body r)"
proof -
  note keep = cache_store_keeps [OF assms(1,2)] cache_remove_keeps [OF assms(1,2)] assms(1,2)
  have "(inv s' \<and> all_stored (\<lambda>_. entry_sound X config) s') \<and> body_sound X config (cr_body r)"
  proof (cases "confirms X st response")
    case (Some e)
    let ?r = "refreshed e (or_headers response) (pi_requested_at st) now"
    have "entry_sound X config e"
      using Some p by (auto simp: confirms_def pending_sound_def split: option.splits if_splits)
    note sound = entry_sound_refreshed [OF this]
    show ?thesis
      using a Some keep sound
      by (cases "storable X config ''GET'' (pi_request_headers st) (pi_request_cc st) (ce_status ?r)
          (ce_headers ?r) (cc_of X (ce_headers ?r))")
        (auto simp: after_store_def Let_def body_sound_def revalidated_def stamp_def)
  next
    case None
    show ?thesis
    proof (cases "storable X config ''GET'' (pi_request_headers st) (pi_request_cc st)
        (or_status response) (or_headers response) (cc_of X (or_headers response))")
      case (Inl x)
      with a None keep show ?thesis
        by (auto simp: after_store_def Let_def body_sound_def passed_def split: if_splits)
    next
      case (Inr names)
      note sound = entry_sound_commit [OF Inr]
      from a None Inr keep show ?thesis
        by (auto simp: after_store_def Let_def body_sound_def passed_def recording_sound_def
            intro!: sound split: if_splits option.splits)
    qed
  qed
  then show "inv s' \<and> all_stored (\<lambda>_. entry_sound X config) s'" "body_sound X config (cr_body r)" by auto
qed

lemma after_keeps:
  assumes "inv s" and "all_stored (\<lambda>_. entry_sound X config) s" and "pending_sound X config p"
    and "after X ops config now p u response s = (r, s')"
  shows "inv s' \<and> all_stored (\<lambda>_. entry_sound X config) s' \<and> body_sound X config (cr_body r)"
proof (cases p)
  case (Store st)
  then show ?thesis using assms after_store_keeps [OF assms(1,2), of st now response r s'] by (simp add: after_def)
next
  case Invalidate
  have "inv (cache_invalidate X ops u s)" "all_stored (\<lambda>_. entry_sound X config) (cache_invalidate X ops u s)"
    using cache_remove_keeps [OF assms(1,2)] by (simp_all add: cache_invalidate_def)
  from invalidate_referenced_keeps [OF this] Invalidate assms show ?thesis
    by (auto simp: after_def body_sound_def passed_def split: if_splits)
qed (use assms in \<open>auto simp: after_def body_sound_def passed_def\<close>)

lemma finish_recording_keeps:
  assumes "inv s" and "all_stored (\<lambda>_. entry_sound X config) s"
    and "recording_sound X config \<lparr>rc_inner = fs, rc_buffered = b, rc_commit = c\<rparr>"
  shows "inv (finish_recording X ops b c s) \<and> all_stored (\<lambda>_. entry_sound X config) (finish_recording X ops b c s)"
proof (cases c)
  case (Some cm)
  show ?thesis
  proof (cases "declares_its_length X (cm_headers cm) (length b)")
    case True
    then have "entry_sound X config (commit_entry cm b)" using assms(3) Some by (simp add: recording_sound_def)
    from cache_store_keeps [OF assms(1,2) this] True Some show ?thesis
      by (simp add: finish_recording_def cache_store_def)
  qed (use assms Some in \<open>simp add: finish_recording_def\<close>)
qed (use assms in \<open>simp add: finish_recording_def\<close>)

lemma poll_keeps:
  assumes "inv s" and "all_stored (\<lambda>_. entry_sound X config) s"
    and "recording_sound X config \<lparr>rc_inner = fs, rc_buffered = b, rc_commit = c\<rparr>"
    and "poll_recording X ops fs b c s = (out, r', s')"
  shows "(inv s' \<and> all_stored (\<lambda>_. entry_sound X config) s') \<and> recording_sound X config r'"
  using assms
proof (induction fs)
  case Nil
  then show ?case using finish_recording_keeps [OF Nil(1,2,3)] by (auto simp: recording_sound_def)
next
  case (Cons f fs)
  have rest: "recording_sound X config \<lparr>rc_inner = fs, rc_buffered = b, rc_commit = c\<rparr>"
    using Cons.prems(3) by (simp add: recording_sound_def)
  show ?case
  proof (cases f)
    case (DataFrame chunk)
    with Cons.prems show ?thesis
      by (auto simp: recording_sound_def record_chunk_def split: option.splits if_splits)
  next
    case TrailersFrame
    with Cons.IH [OF Cons.prems(1,2) rest] Cons.prems(4) show ?thesis by simp
  qed (use Cons.prems in \<open>auto simp: recording_sound_def\<close>)
qed

end

section \<open>Reading a recorded body\<close>

primrec read_body ::
  "cache_ext \<Rightarrow> 's storage_ops \<Rightarrow> nat \<Rightarrow> recording \<Rightarrow> 's \<Rightarrow> polled list \<times> recording \<times> 's" where
  "read_body X ops 0 r s = ([], r, s)"
| "read_body X ops (Suc n) r s =
     (case recording_poll_next X ops r s of (out, r1, s1) \<Rightarrow>
        case read_body X ops n r1 s1 of (outs, r2, s2) \<Rightarrow> (out # outs, r2, s2))"

fun polls :: "frame list \<Rightarrow> polled list" where
  "polls [] = []"
| "polls (DataFrame c # fs) = PollChunk c # polls fs"
| "polls (TrailersFrame # fs) = polls fs"
| "polls (FrameError # fs) = PollError # polls fs"
| "polls (FramePending # fs) = PollPending # polls fs"

fun data_of :: "frame list \<Rightarrow> string" where
  "data_of [] = []"
| "data_of (DataFrame c # fs) = c @ data_of fs"
| "data_of (_ # fs) = data_of fs"

text \<open>The buffer and the commit after all frames have passed.\<close>

fun recorded :: "frame list \<Rightarrow> string \<times> commit option \<Rightarrow> string \<times> commit option" where
  "recorded [] bc = bc"
| "recorded (DataFrame c # fs) bc = recorded fs (record_chunk c bc)"
| "recorded (FrameError # fs) bc = recorded fs (fst bc, None)"
| "recorded (_ # fs) bc = recorded fs bc"

lemma read_body_all:
  "\<exists>r'. read_body X ops (Suc (length (polls fs))) \<lparr>rc_inner = fs, rc_buffered = b, rc_commit = c\<rparr> s
    = (polls fs @ [PollEnd], r', finish_recording X ops (fst (recorded fs (b, c))) (snd (recorded fs (b, c))) s)"
proof (induction fs arbitrary: b c)
  case (Cons f fs)
  show ?case
  proof (cases f)
    case (DataFrame chunk)
    obtain b' c' where bc: "record_chunk chunk (b, c) = (b', c')" by force
    with DataFrame Cons [of b' c'] show ?thesis by (auto simp: recording_poll_next_def)
  next
    case TrailersFrame
    with Cons [of b c] show ?thesis by (simp add: recording_poll_next_def)
  next
    case FrameError
    with Cons [of b None] show ?thesis by (auto simp: recording_poll_next_def)
  next
    case FramePending
    with Cons [of b c] show ?thesis by (auto simp: recording_poll_next_def)
  qed
qed (simp add: recording_poll_next_def)

lemma read_body_part:
  "n \<le> length (polls fs) \<Longrightarrow>
    \<exists>r'. read_body X ops n \<lparr>rc_inner = fs, rc_buffered = b, rc_commit = c\<rparr> s = (take n (polls fs), r', s)"
proof (induction fs arbitrary: b c n)
  case (Cons f fs)
  show ?case
  proof (cases n)
    case (Suc m)
    show ?thesis
    proof (cases f)
      case (DataFrame chunk)
      obtain b' c' where bc: "record_chunk chunk (b, c) = (b', c')" by force
      with DataFrame Suc Cons.IH [of m b' c'] Cons.prems show ?thesis
        by (auto simp: recording_poll_next_def)
    next
      case TrailersFrame
      with Suc Cons.IH [of n b c] Cons.prems show ?thesis by (simp add: recording_poll_next_def)
    next
      case FrameError
      with Suc Cons.IH [of m b None] Cons.prems show ?thesis by (auto simp: recording_poll_next_def)
    next
      case FramePending
      with Suc Cons.IH [of m b c] Cons.prems show ?thesis by (auto simp: recording_poll_next_def)
    qed
  qed simp
qed simp

lemma recorded_None: "snd (recorded fs (b, None)) = None"
  by (induction fs "(b, None :: commit option)" arbitrary: b rule: recorded.induct)
    (auto simp: record_chunk_def)

lemma recorded_some:
  "length b \<le> cm_limit c \<Longrightarrow>
   (FrameError \<notin> set fs \<and> length b + length (data_of fs) \<le> cm_limit c \<longrightarrow>
      recorded fs (b, Some c) = (b @ data_of fs, Some c))
   \<and> (FrameError \<in> set fs \<or> cm_limit c < length b + length (data_of fs) \<longrightarrow>
      snd (recorded fs (b, Some c)) = None)"
proof (induction fs arbitrary: b)
  case (Cons f fs)
  show ?case
  proof (cases f)
    case (DataFrame chunk)
    show ?thesis
    proof (cases "cm_limit c < length b + length chunk")
      case True
      with DataFrame recorded_None [of fs "[]"] show ?thesis by (auto simp: record_chunk_def)
    next
      case False
      with DataFrame Cons.IH [of "b @ chunk"] show ?thesis by (auto simp: record_chunk_def)
    qed
  qed (use Cons recorded_None [of fs b] in auto)
qed simp

section \<open>Draining a 304\<close>

primrec read_drained :: "nat \<Rightarrow> draining \<Rightarrow> polled list \<times> draining" where
  "read_drained 0 d = ([], d)"
| "read_drained (Suc n) d =
     (case draining_poll_next d of (out, d1) \<Rightarrow>
        case read_drained n d1 of (outs, d2) \<Rightarrow> (out # outs, d2))"

fun waits :: "frame list \<Rightarrow> nat" where
  "waits [] = 0"
| "waits (FrameError # fs) = 0"
| "waits (FramePending # fs) = Suc (waits fs)"
| "waits (_ # fs) = waits fs"

lemma drain_inner_waits:
  "case drain_inner fs of None \<Rightarrow> waits fs = 0
   | Some rest \<Rightarrow> waits fs = Suc (waits rest) \<and> length rest < length fs"
  by (induction fs rule: drain_inner.induct) (auto split: option.splits)

lemma read_drained_all:
  "fst (read_drained (waits fs + 2) \<lparr>dr_inner = Some fs, dr_stored = Some body\<rparr>)
    = replicate (waits fs) PollPending @ [PollChunk body, PollEnd]"
proof (induction "length fs" arbitrary: fs rule: less_induct)
  case less
  show ?case
  proof (cases "drain_inner fs")
    case None
    with drain_inner_waits [of fs] show ?thesis
      by (simp add: draining_poll_next_def numeral_2_eq_2)
  next
    case (Some rest)
    with drain_inner_waits [of fs] have w: "waits fs = Suc (waits rest)" "length rest < length fs" by auto
    with less.hyps [OF w(2)] Some show ?thesis
      by (simp add: draining_poll_next_def split: prod.splits)
  qed
qed

end
