(* ===== verification/Cache_Run.thy ===== *)
theory Cache_Run
  imports Cache_Laws
begin

text \<open>
  The cache over the in-memory store as a transition system: requests, answers and body reads of
  concurrent exchanges in any order. The properties of the cache as a whole.
\<close>

section \<open>Interleaved exchanges\<close>

record cache_state =
  cs_store :: memory_store
  cs_pending :: "pending list"
  cs_recordings :: "recording list"

definition in_flight :: "cache_body \<Rightarrow> recording list" where
  "in_flight b = (case b of RecordedBody r _ \<Rightarrow> [r] | _ \<Rightarrow> [])"

inductive cache_run :: "cache_ext \<Rightarrow> cache_config \<Rightarrow> cache_state \<Rightarrow> bool" for X config where
  start: "cache_run X config \<lparr>cs_store = store_with_limits l, cs_pending = [], cs_recordings = []\<rparr>"
| asked: "cache_run X config c \<Longrightarrow>
    before X (memory_ops X) config now request u (cs_store c) = (p, hit, request', s') \<Longrightarrow>
    cache_run X config (c\<lparr>cs_store := s', cs_pending := p # cs_pending c\<rparr>)"
| answered: "cache_run X config c \<Longrightarrow> p \<in> set (cs_pending c) \<Longrightarrow>
    after X (memory_ops X) config now p u response (cs_store c) = (r, s') \<Longrightarrow>
    cache_run X config (c\<lparr>cs_store := s', cs_pending := remove1 p (cs_pending c),
      cs_recordings := in_flight (cr_body r) @ cs_recordings c\<rparr>)"
| polled: "cache_run X config c \<Longrightarrow> r \<in> set (cs_recordings c) \<Longrightarrow>
    recording_poll_next X (memory_ops X) r (cs_store c) = (out, r', s') \<Longrightarrow>
    cache_run X config (c\<lparr>cs_store := s', cs_recordings := r' # remove1 r (cs_recordings c)\<rparr>)"
| dropped: "cache_run X config c \<Longrightarrow> cache_run X config
    (c\<lparr>cs_pending := remove1 p (cs_pending c), cs_recordings := remove1 r (cs_recordings c)\<rparr>)"

definition run_sound :: "cache_ext \<Rightarrow> cache_config \<Rightarrow> cache_state \<Rightarrow> bool" where
  "run_sound X config c \<longleftrightarrow>
     mem_inv X (cs_store c) \<and> mem.all_stored X (\<lambda>_. entry_sound X config) (cs_store c)
     \<and> (\<forall>p \<in> set (cs_pending c). pending_sound X config p)
     \<and> (\<forall>r \<in> set (cs_recordings c). recording_sound X config r)"

lemma cache_run_sound: "cache_run X config c \<Longrightarrow> run_sound X config c"
proof (induction rule: cache_run.induct)
  case (start l)
  show ?case
    by (simp add: run_sound_def with_limits_mem_inv mem.all_stored_def variants_of_with_limits)
next
  case (asked c now request u p hit request' s')
  then have inv: "mem_inv X (cs_store c)" "mem.all_stored X (\<lambda>_. entry_sound X config) (cs_store c)"
    by (simp_all add: run_sound_def)
  note k = mem.before_keeps [OF inv asked.hyps(2)]
  from k(2) have "pending_sound X config p" by (auto simp: pending_sound_def)
  with k(1) asked.IH show ?case by (auto simp: run_sound_def)
next
  case (answered c p now u response r s')
  then have inv: "mem_inv X (cs_store c)" "mem.all_stored X (\<lambda>_. entry_sound X config) (cs_store c)"
    "pending_sound X config p"
    by (simp_all add: run_sound_def)
  have "recording_sound X config x" if "x \<in> set (in_flight (cr_body r))" for x
    using mem.after_keeps [OF inv answered.hyps(3)] that
    by (auto simp: body_sound_def in_flight_def split: cache_body.splits)
  with mem.after_keeps [OF inv answered.hyps(3)] answered.IH show ?case
    by (auto simp: run_sound_def dest: notin_set_remove1)
next
  case (polled c r out r' s')
  then have inv: "mem_inv X (cs_store c)" "mem.all_stored X (\<lambda>_. entry_sound X config) (cs_store c)"
    and r: "recording_sound X config \<lparr>rc_inner = rc_inner r, rc_buffered = rc_buffered r, rc_commit = rc_commit r\<rparr>"
    by (simp_all add: run_sound_def recording_sound_def)
  have "poll_recording X (memory_ops X) (rc_inner r) (rc_buffered r) (rc_commit r) (cs_store c) = (out, r', s')"
    using polled.hyps(3) by (simp add: recording_poll_next_def)
  from mem.poll_keeps [OF inv r this] polled.IH show ?case
    by (auto simp: run_sound_def dest: notin_set_remove1)
next
  case (dropped c p r)
  then show ?case by (auto simp: run_sound_def dest: notin_set_remove1)
qed

section \<open>Invalidation\<close>

definition invalidated_keys :: "cache_ext \<Rightarrow> url \<Rightarrow> header_map \<Rightarrow> cache_key set" where
  "invalidated_keys X u h =
     insert (cache_key_new X ''GET'' u)
       {cache_key_new X ''GET'' t |n t. n \<in> {''location'', ''content-location''}
          \<and> referenced_target X u h n = Some t \<and> cx_same_origin X t u}"

lemma cache_invalidate_mem:
  assumes "mem_inv X s"
  shows "mem_inv X (cache_invalidate X (memory_ops X) u s)"
    and "variants_of X (cache_invalidate X (memory_ops X) u s) k
      = (if k = cache_key_new X ''GET'' u then [] else variants_of X s k)"
  using store_remove_ok [OF assms] by (simp_all add: cache_invalidate_def cache_remove_def memory_ops_def)

lemma invalidate_referenced_mem:
  assumes "mem_inv X s"
  shows "variants_of X (invalidate_referenced X (memory_ops X) u h s) k =
    (if \<exists>n \<in> {''location'', ''content-location''}. \<exists>t. referenced_target X u h n = Some t
        \<and> cx_same_origin X t u \<and> k = cache_key_new X ''GET'' t
     then [] else variants_of X s k)"
  using assms cache_invalidate_mem
  by (auto simp: invalidate_referenced_def split: option.splits)

lemma after_invalidates:
  assumes "mem_inv X s" and "or_status response < 400"
  shows "variants_of X (snd (after X (memory_ops X) config now Invalidate u response s)) k =
    (if k \<in> invalidated_keys X u (or_headers response) then [] else variants_of X s k)"
  using assms(2) invalidate_referenced_mem [OF cache_invalidate_mem(1) [OF assms(1)]]
    cache_invalidate_mem(2) [OF assms(1)]
  by (auto simp: after_def invalidated_keys_def)

section \<open>A complete exchange\<close>

definition fetch :: "cache_ext \<Rightarrow> 's storage_ops \<Rightarrow> cache_config \<Rightarrow> system_time \<Rightarrow> system_time \<Rightarrow> cache_request \<Rightarrow>
    url \<Rightarrow> origin_response \<Rightarrow> 's \<Rightarrow> 's" where
  "fetch X ops config sent received request u response s =
     (case before X ops config sent request u s of (p, hit, request', s1) \<Rightarrow>
        case after X ops config received p u response s1 of (r, s2) \<Rightarrow>
          case cr_body r of
            RecordedBody rec _ \<Rightarrow> snd (snd (read_body X ops (Suc (length (polls (rc_inner rec)))) rec s2))
          | _ \<Rightarrow> s2)"

definition cacheable_request :: "cache_ext \<Rightarrow> cache_request \<Rightarrow> bool" where
  "cacheable_request X request \<longleftrightarrow>
     rq_method request = ''GET'' \<and> \<not> hm_contains (rq_headers request) ''if-none-match''
     \<and> \<not> hm_contains (rq_headers request) ''if-modified-since'' \<and> \<not> hm_contains (rq_headers request) ''range''
     \<and> \<not> cc_no_store (cc_of_request X (rq_headers request))"

definition fetched_entry :: "cache_ext \<Rightarrow> system_time \<Rightarrow> system_time \<Rightarrow> header_name list \<Rightarrow> cache_request \<Rightarrow>
    origin_response \<Rightarrow> cache_entry" where
  "fetched_entry X sent received names request response =
     entry_new (or_status response) (or_version response) (strip_hop_by_hop X (or_headers response))
       (data_of (or_frames response)) (selector_of names (rq_headers request)) sent received"

lemma before_miss:
  assumes "mem_inv X s" and "cacheable_request X request"
    and "variants_of X s (cache_key_new X ''GET'' u) = []"
  shows "before X (memory_ops X) config now request u s =
    (Store \<lparr>pi_key = cache_key_new X ''GET'' u, pi_request_headers = rq_headers request,
       pi_request_cc = cc_of_request X (rq_headers request), pi_requested_at = now, pi_revalidating = None\<rparr>,
     None, request, s\<lparr>ms_tick := saturating_incr (ms_tick s)\<rparr>)"
proof -
  have "store_get X (cache_key_new X ''GET'' u) s = (Inr [], s\<lparr>ms_tick := saturating_incr (ms_tick s)\<rparr>)"
    using not_stored [OF assms(1,3)] by (simp add: store_get_def next_tick_def Let_def shard_of_def)
  then show ?thesis
    using assms(2) by (simp add: before_def cacheable_request_def cache_select_def memory_ops_def Let_def)
qed

lemma memory_ops_sel: "so_put (memory_ops X) = store_put X" "so_get (memory_ops X) = store_get X"
    "so_remove (memory_ops X) = store_remove X"
  by (simp_all add: memory_ops_def)

lemma fetch_stores:
  assumes inv: "mem_inv X s" and rq: "cacheable_request X request"
    and new: "variants_of X s (cache_key_new X ''GET'' u) = []"
    and ok: "storable X config ''GET'' (rq_headers request) (cc_of_request X (rq_headers request))
      (or_status response) (or_headers response) (cc_of X (or_headers response)) = Inr names"
    and hint: "or_hint response = None \<or> or_hint response = Some (length (data_of (or_frames response)))" and err: "FrameError \<notin> set (or_frames response)"
    and len: "length (data_of (or_frames response)) \<le> cfg_max_body_bytes config"
    and decl: "declares_its_length X (strip_hop_by_hop X (or_headers response))
      (length (data_of (or_frames response)))"
  shows "fetch X (memory_ops X) config sent received request u response s =
    snd (store_put X (cache_key_new X ''GET'' u) (fetched_entry X sent received names request response)
      (s\<lparr>ms_tick := saturating_incr (ms_tick s)\<rparr>))"
proof -
  let ?c = "\<lparr>cm_key = cache_key_new X ''GET'' u, cm_status = or_status response,
    cm_version = or_version response, cm_headers = strip_hop_by_hop X (or_headers response),
    cm_selector = selector_of names (rq_headers request), cm_requested_at = sent,
    cm_received_at = received, cm_limit = cfg_max_body_bytes config\<rparr>"
  let ?s1 = "s\<lparr>ms_tick := saturating_incr (ms_tick s)\<rparr>"
  have rec: "recorded (or_frames response) ([], Some ?c) = (data_of (or_frames response), Some ?c)"
    using recorded_some [of "[]" ?c "or_frames response"] err len by simp
  obtain r' where "read_body X (memory_ops X) (Suc (length (polls (or_frames response))))
      \<lparr>rc_inner = or_frames response, rc_buffered = [], rc_commit = Some ?c\<rparr> ?s1
    = (polls (or_frames response) @ [PollEnd], r',
       finish_recording X (memory_ops X) (data_of (or_frames response)) (Some ?c) ?s1)"
    using read_body_all [of X "memory_ops X" "or_frames response" "[]" "Some ?c" ?s1] unfolding rec by auto
  moreover have "\<not> (case or_hint response of Some n \<Rightarrow> cfg_max_body_bytes config < n | None \<Rightarrow> False)"
    using hint len by auto
  ultimately show ?thesis using decl ok
    by (simp add: fetch_def before_miss [OF inv rq new] after_def after_store_def confirms_def Let_def
        finish_recording_def memory_ops_sel commit_entry_def fetched_entry_def del: read_body.simps)
qed

lemma served_again:
  assumes inv: "mem_inv X s" and rq: "cacheable_request X request"
    and v: "variants_of X s (cache_key_new X ''GET'' u) = [fetched_entry X sent received names request response]"
    and fresh: "is_fresh X (fetched_entry X sent received names request response)
      (cc_of X (strip_hop_by_hop X (or_headers response))) config now"
    and "\<not> request_forces_revalidation (cc_of_request X (rq_headers request))"
  shows "fst (snd (before X (memory_ops X) config now request u s))
    = Some (to_response (fetched_entry X sent received names request response)
        (current_age X (fetched_entry X sent received names request response) now) Hit)"
proof -
  let ?e = "fetched_entry X sent received names request response"
  obtain s' where g: "store_get X (cache_key_new X ''GET'' u) s = (Inr [?e], s')"
    using store_get_ok(1) [OF inv, of "cache_key_new X ''GET'' u"] v by (metis prod.collapse)
  have m: "selector_matches (ce_selector ?e) (rq_headers request)"
    by (simp add: fetched_entry_def entry_new_def selector_matches_of)
  have h: "ce_headers ?e = strip_hop_by_hop X (or_headers response)"
    by (simp add: fetched_entry_def entry_new_def)
  from assms(4,5) g m h rq show ?thesis
    by (simp add: before_def cacheable_request_def cache_select_def memory_ops_def Let_def)
qed

section \<open>Concrete exchanges\<close>

definition page_url :: url where
  "page_url = \<lparr>url_scheme = ''https'', url_username = [], url_password = None,
     url_host_str = Some ''shop.example'', url_port_or_known_default = Some 443, url_path = ''/list'',
     url_query = None, url_fragment = None\<rparr>"

definition page_request :: cache_request where
  "page_request = \<lparr>rq_method = ''GET'', rq_headers = [(''accept-language'', ''de'')]\<rparr>"

definition page_answer :: "header_map \<Rightarrow> string \<Rightarrow> origin_response" where
  "page_answer h body =
     \<lparr>or_status = 200, or_version = ''HTTP/1.1'', or_headers = h,
      or_frames = [DataFrame (take 2 body), FramePending, DataFrame (drop 2 body), TrailersFrame],
      or_hint = None\<rparr>"

abbreviation sample_ops :: "memory_store storage_ops" where
  "sample_ops \<equiv> memory_ops sample_cache_ext"

section \<open>Properties\<close>

text \<open>C11: Whatever requests, answers, body reads and abandoned exchanges are interleaved, every response
  the cache holds has a cacheable status, no \<open>Set-Cookie\<close>, no \<open>no-store\<close> directive, no \<open>private\<close>
  directive unless configured, no connection-specific field, and a body within the limit whose length is
  the one its \<open>Content-Length\<close> declares.\<close>
theorem held_responses_are_sound:
  assumes "cache_run X config c" and "e \<in> set (variants_of X (cs_store c) k)"
  shows "is_cacheable_status (ce_status e) \<and> \<not> hm_contains (ce_headers e) ''set-cookie''
    \<and> \<not> cc_no_store (cc_of X (ce_headers e))
    \<and> (cc_private (cc_of X (ce_headers e)) \<longrightarrow> cfg_store_private config)
    \<and> (\<forall>n. is_hop_by_hop n \<longrightarrow> \<not> hm_contains (ce_headers e) n)
    \<and> length (ce_body e) \<le> cfg_max_body_bytes config
    \<and> declares_its_length X (ce_headers e) (length (ce_body e))"
  using cache_run_sound [OF assms(1)] assms(2)
  by (simp add: run_sound_def mem.all_stored_def entry_sound_def)

definition run_start :: cache_state where
  "run_start = \<lparr>cs_store = small_store, cs_pending = [], cs_recordings = []\<rparr>"

definition run_asked :: cache_state where
  "run_asked =
     (case before sample_cache_ext sample_ops default_cache_config 0 page_request page_url (cs_store run_start) of
        (p, hit, request', s') \<Rightarrow> run_start\<lparr>cs_store := s', cs_pending := p # cs_pending run_start\<rparr>)"

definition run_answered :: cache_state where
  "run_answered =
     (case after sample_cache_ext sample_ops default_cache_config 0 (hd (cs_pending run_asked)) page_url
         \<lparr>or_status = 200, or_version = [], or_headers = [(''cache-control'', ''max-age=60'')],
          or_frames = [], or_hint = None\<rparr> (cs_store run_asked) of
        (r, s') \<Rightarrow> run_asked\<lparr>cs_store := s',
          cs_pending := remove1 (hd (cs_pending run_asked)) (cs_pending run_asked),
          cs_recordings := in_flight (cr_body r) @ cs_recordings run_asked\<rparr>)"

definition run_polled :: cache_state where
  "run_polled =
     (case recording_poll_next sample_cache_ext sample_ops (hd (cs_recordings run_answered))
         (cs_store run_answered) of
        (out, r', s') \<Rightarrow> run_answered\<lparr>cs_store := s',
          cs_recordings := r' # remove1 (hd (cs_recordings run_answered)) (cs_recordings run_answered)\<rparr>)"

lemma run_polled_reachable: "cache_run sample_cache_ext default_cache_config run_polled"
proof -
  have "cache_run sample_cache_ext default_cache_config run_start"
    unfolding run_start_def small_store_def by (rule cache_run.start)
  then have asked: "cache_run sample_cache_ext default_cache_config run_asked"
    unfolding run_asked_def
    by (auto split: prod.splits intro: cache_run.asked)
  have "hd (cs_pending run_asked) \<in> set (cs_pending run_asked)" by code_simp
  with asked have answered: "cache_run sample_cache_ext default_cache_config run_answered"
    unfolding run_answered_def by (auto split: prod.splits intro: cache_run.answered)
  have "hd (cs_recordings run_answered) \<in> set (cs_recordings run_answered)" by code_simp
  with answered show ?thesis
    unfolding run_polled_def by (auto split: prod.splits intro: cache_run.polled)
qed

theorem held_responses_are_sound_witness:
  "\<exists>e \<in> set (variants_of sample_cache_ext (cs_store run_polled) (cache_key_new sample_cache_ext ''GET'' page_url)).
     is_cacheable_status (ce_status e) \<and> \<not> hm_contains (ce_headers e) ''set-cookie''"
proof -
  have "variants_of sample_cache_ext (cs_store run_polled) (cache_key_new sample_cache_ext ''GET'' page_url) \<noteq> []"
    by code_simp
  then obtain e where
    e: "e \<in> set (variants_of sample_cache_ext (cs_store run_polled) (cache_key_new sample_cache_ext ''GET'' page_url))"
    by (meson last_in_set)
  from held_responses_are_sound [OF run_polled_reachable e] e show ?thesis by blast
qed

text \<open>C12: The cache never serves a stale or mismatched response. When a lookup answers from the store,
  the request is a \<open>GET\<close> that asks for neither \<open>no-store\<close> nor revalidation, and the answer is the status and
  body of an entry held under its key whose selector matches the request and which is fresh now, with
  the entry's current age in its \<open>Age\<close> field; the request is sent on unchanged.\<close>
theorem hits_are_fresh_and_match:
  assumes "mem_reachable X s" and "before X (memory_ops X) config now request u s = (p, Some r, request', s')"
  shows "\<exists>e \<in> set (variants_of X s (cache_key_new X ''GET'' u)).
    selector_matches (ce_selector e) (rq_headers request)
    \<and> is_fresh X e (cc_of X (ce_headers e)) config now
    \<and> cr_status r = ce_status e \<and> cr_body r = FixedBody (ce_body e) \<and> cr_mark r = Some Hit
    \<and> hm_get_all (cr_headers r) ''age'' = [show_nat (as_secs (current_age X e now))]
    \<and> rq_method request = ''GET'' \<and> \<not> cc_no_store (cc_of_request X (rq_headers request))
    \<and> \<not> request_forces_revalidation (cc_of_request X (rq_headers request)) \<and> request' = request"
proof -
  obtain e where "e \<in> set (variants_of X s (cache_key_new X ''GET'' u))"
    and "selector_matches (ce_selector e) (rq_headers request)"
    and "is_fresh X e (cc_of X (ce_headers e)) config now"
    and "r = to_response e (current_age X e now) Hit"
    and "rq_method request = ''GET''" and "\<not> cc_no_store (cc_of_request X (rq_headers request))"
    and "\<not> request_forces_revalidation (cc_of_request X (rq_headers request))" and "request' = request"
    by (rule mem.before_hit [OF mem_reachable_inv [OF assms(1)] assms(2)])
  then show ?thesis by (intro bexI [of _ e]) (simp_all add: to_response_def stamp_def hm_simps)
qed

definition page_entry :: cache_entry where
  "page_entry = entry_new 200 ''HTTP/1.1'' [(''cache-control'', ''max-age=60'')] ''hello''
     [(''accept-language'', [''de''])] 0 0"

definition page_store :: memory_store where
  "page_store = snd (store_put sample_cache_ext (cache_key_new sample_cache_ext ''GET'' page_url) page_entry small_store)"

lemma page_store_reachable: "mem_reachable sample_cache_ext page_store"
  unfolding page_store_def small_store_def by (intro mem_reachable.put mem_reachable.with_limits)

theorem hits_are_fresh_and_match_witness:
  "\<exists>r. fst (snd (before sample_cache_ext sample_ops default_cache_config 5000000000 page_request page_url page_store))
       = Some r \<and> cr_status r = 200 \<and> cr_mark r = Some Hit"
proof -
  have "fst (snd (before sample_cache_ext sample_ops default_cache_config 5000000000 page_request page_url page_store))
      \<noteq> None" by code_simp
  then obtain p r request' s' where
    b: "before sample_cache_ext sample_ops default_cache_config 5000000000 page_request page_url page_store
      = (p, Some r, request', s')"
    by (metis not_None_eq prod.collapse)
  have "list_all (\<lambda>e. ce_status e = 200)
      (variants_of sample_cache_ext page_store (cache_key_new sample_cache_ext ''GET'' page_url))" by code_simp
  with hits_are_fresh_and_match [OF page_store_reachable b] b show ?thesis
    by (auto simp: list_all_iff)
qed

text \<open>C14: A complete exchange is served again. After a cacheable request for which nothing is stored, and a
  storable answer whose body, of unknown length or of a length announced in advance, is read to the end
  without failing, is within the body limit, has the length its header declares and fits its shard, the same
  request is answered from the store as long as the entry is fresh and the request does not force
  revalidation, with exactly the bytes that were streamed to the first caller.\<close>
theorem completed_exchange_is_served_again:
  assumes "mem_reachable X s" and "cacheable_request X request"
    and "variants_of X s (cache_key_new X ''GET'' u) = []"
    and "storable X config ''GET'' (rq_headers request) (cc_of_request X (rq_headers request))
      (or_status response) (or_headers response) (cc_of X (or_headers response)) = Inr names"
    and "or_hint response = None \<or> or_hint response = Some (length (data_of (or_frames response)))"
    and "FrameError \<notin> set (or_frames response)"
    and "length (data_of (or_frames response)) \<le> cfg_max_body_bytes config"
    and "declares_its_length X (strip_hop_by_hop X (or_headers response))
      (length (data_of (or_frames response)))"
    and "sh_bytes (ms_shards s ! shard_of X s (cache_key_new X ''GET'' u))
      + record_size X (cache_key_new X ''GET'' u) [fetched_entry X sent received names request response]
      \<le> per_shard (ms_limits s)"
    and "is_fresh X (fetched_entry X sent received names request response)
      (cc_of X (strip_hop_by_hop X (or_headers response))) config now"
    and "\<not> request_forces_revalidation (cc_of_request X (rq_headers request))"
  shows "\<exists>r. fst (snd (before X (memory_ops X) config now request u
      (fetch X (memory_ops X) config sent received request u response s))) = Some r
    \<and> cr_status r = or_status response \<and> cr_body r = FixedBody (data_of (or_frames response))"
proof -
  let ?k = "cache_key_new X ''GET'' u" and ?s1 = "s\<lparr>ms_tick := saturating_incr (ms_tick s)\<rparr>"
  let ?e = "fetched_entry X sent received names request response"
  note inv = mem_reachable_inv [OF assms(1)] and inv1 = mem_inv_tick [OF mem_reachable_inv [OF assms(1)]]
  note stored = fetch_stores [OF inv assms(2-8), of sent received]
  have same: "variants_of X ?s1 ?k = []" "shard_of X ?s1 ?k = shard_of X s ?k"
    using assms(3) by (simp_all add: variants_of_def shard_of_def)
  have v: "variants_of X (fetch X (memory_ops X) config sent received request u response s) ?k = [?e]"
    unfolding stored using store_put_fits [OF inv1 same(1), of ?e ?k] assms(9) same(2) by simp
  have i: "mem_inv X (fetch X (memory_ops X) config sent received request u response s)"
    unfolding stored by (rule store_put_ok(2) [OF inv1])
  from served_again [OF i assms(2) v assms(10,11)] show ?thesis
    by (simp add: to_response_def stamp_def fetched_entry_def entry_new_def)
qed

theorem completed_exchange_is_served_again_witness:
  "\<exists>r. fst (snd (before sample_cache_ext sample_ops default_cache_config 59000000000 page_request page_url
      (fetch sample_cache_ext sample_ops default_cache_config 0 0 page_request page_url
        ((page_answer [(''cache-control'', ''max-age=60''), (''content-length'', ''5'')] ''hello'')\<lparr>or_hint := Some 5\<rparr>)
        small_store))) = Some r
    \<and> cr_status r = 200 \<and> cr_body r = FixedBody ''hello''"
proof -
  let ?X = sample_cache_ext and ?c = default_cache_config
  let ?a = "(page_answer [(''cache-control'', ''max-age=60''), (''content-length'', ''5'')] ''hello'')\<lparr>or_hint := Some 5\<rparr>"
  have reach: "mem_reachable ?X small_store" unfolding small_store_def by (rule mem_reachable.with_limits)
  have h: "cacheable_request ?X page_request"
    "variants_of ?X small_store (cache_key_new ?X ''GET'' page_url) = []"
    "storable ?X ?c ''GET'' (rq_headers page_request) (cc_of_request ?X (rq_headers page_request))
      (or_status ?a) (or_headers ?a) (cc_of ?X (or_headers ?a)) = Inr []"
    "or_hint ?a = None \<or> or_hint ?a = Some (length (data_of (or_frames ?a)))" "FrameError \<notin> set (or_frames ?a)"
    "length (data_of (or_frames ?a)) \<le> cfg_max_body_bytes ?c"
    "declares_its_length ?X (strip_hop_by_hop ?X (or_headers ?a)) (length (data_of (or_frames ?a)))"
    "sh_bytes (ms_shards small_store ! shard_of ?X small_store (cache_key_new ?X ''GET'' page_url))
      + record_size ?X (cache_key_new ?X ''GET'' page_url) [fetched_entry ?X 0 0 [] page_request ?a]
      \<le> per_shard (ms_limits small_store)"
    "is_fresh ?X (fetched_entry ?X 0 0 [] page_request ?a) (cc_of ?X (strip_hop_by_hop ?X (or_headers ?a)))
      ?c 59000000000"
    "\<not> request_forces_revalidation (cc_of_request ?X (rq_headers page_request))"
    and out: "or_status ?a = 200" "data_of (or_frames ?a) = ''hello''"
    by code_simp+
  from completed_exchange_is_served_again [OF reach h] show ?thesis unfolding out .
qed

definition new_recording :: "frame list \<Rightarrow> commit \<Rightarrow> recording" where
  "new_recording fs c = \<lparr>rc_inner = fs, rc_buffered = [], rc_commit = Some c\<rparr>"

text \<open>C16: Recording a body is invisible to its reader and stores all of it or nothing. The reader receives
  every frame but trailers in order and then the end; nothing is stored before the end has been read; at
  the end the concatenated data is stored when no frame failed, it is within the limit and it has the
  declared length, and otherwise the store is untouched.\<close>
theorem recording_is_invisible_and_atomic:
  "(\<forall>n \<le> length (polls fs).
      fst (read_body X ops n (new_recording fs c) s) = take n (polls fs) \<and> snd (snd (read_body X ops n (new_recording fs c) s)) = s)
    \<and> fst (read_body X ops (Suc (length (polls fs))) (new_recording fs c) s) = polls fs @ [PollEnd]
    \<and> snd (snd (read_body X ops (Suc (length (polls fs))) (new_recording fs c) s)) =
        (if FrameError \<notin> set fs \<and> length (data_of fs) \<le> cm_limit c
            \<and> declares_its_length X (cm_headers c) (length (data_of fs))
         then snd (so_put ops (cm_key c) (commit_entry c (data_of fs)) s) else s)"
proof (intro conjI allI impI)
  fix n assume "n \<le> length (polls fs)"
  from read_body_part [OF this, of X ops "[]" "Some c" s]
  show "fst (read_body X ops n (new_recording fs c) s) = take n (polls fs)" "snd (snd (read_body X ops n (new_recording fs c) s)) = s"
    by (auto simp: new_recording_def)
next
  obtain r' where all: "read_body X ops (Suc (length (polls fs))) (new_recording fs c) s = (polls fs @ [PollEnd], r',
      finish_recording X ops (fst (recorded fs ([], Some c))) (snd (recorded fs ([], Some c))) s)"
    unfolding new_recording_def using read_body_all [of X ops fs "[]" "Some c" s] by (elim exE)
  then show "fst (read_body X ops (Suc (length (polls fs))) (new_recording fs c) s) = polls fs @ [PollEnd]" by simp
  show "snd (snd (read_body X ops (Suc (length (polls fs))) (new_recording fs c) s)) =
        (if FrameError \<notin> set fs \<and> length (data_of fs) \<le> cm_limit c
            \<and> declares_its_length X (cm_headers c) (length (data_of fs))
         then snd (so_put ops (cm_key c) (commit_entry c (data_of fs)) s) else s)"
    unfolding all using recorded_some [of "[]" c fs]
    by (cases "FrameError \<notin> set fs \<and> length (data_of fs) \<le> cm_limit c")
      (auto simp: finish_recording_def)
qed

theorem recording_is_invisible_and_atomic_witness:
  "fst (read_body sample_cache_ext sample_ops 1
      (new_recording [DataFrame ''ab'', FrameError]
        \<lparr>cm_key = sample_key ''a'', cm_status = 200, cm_version = [], cm_headers = [],
         cm_selector = [], cm_requested_at = 0, cm_received_at = 0, cm_limit = 9\<rparr>) small_store) = [PollChunk ''ab'']"
  using recording_is_invisible_and_atomic [of "[DataFrame ''ab'', FrameError]" sample_cache_ext sample_ops
      "\<lparr>cm_key = sample_key ''a'', cm_status = 200, cm_version = [], cm_headers = [],
         cm_selector = [], cm_requested_at = 0, cm_received_at = 0, cm_limit = 9\<rparr>" small_store,
      THEN conjunct1, rule_format, of 1]
  by simp

text \<open>C28: A revalidated response always arrives. Whatever the \<open>304\<close> body does before it ends or fails,
  after one poll per time it was not ready the reader receives the stored body and then the end.\<close>
theorem drained_body_arrives:
  "fst (read_drained (waits fs + 2) \<lparr>dr_inner = Some fs, dr_stored = Some body\<rparr>)
    = replicate (waits fs) PollPending @ [PollChunk body, PollEnd]"
  by (rule read_drained_all)

text \<open>C27: A successful unsafe request drops the stored responses of its target and of the same-origin
  targets its \<open>Location\<close> and \<open>Content-Location\<close> name, and nothing else; a failed one drops nothing.\<close>
theorem unsafe_success_invalidates:
  assumes "mem_reachable X s"
  shows "variants_of X (snd (after X (memory_ops X) config now Invalidate u response s)) k =
    (if or_status response < 400 \<and> k \<in> invalidated_keys X u (or_headers response)
     then [] else variants_of X s k)"
proof (cases "or_status response < 400")
  case True
  then show ?thesis using after_invalidates [OF mem_reachable_inv [OF assms] True] by simp
qed (simp add: after_def)

theorem unsafe_success_invalidates_witness:
  "variants_of sample_cache_ext page_store (cache_key_new sample_cache_ext ''GET'' page_url) \<noteq> []
   \<and> variants_of sample_cache_ext (snd (after sample_cache_ext sample_ops default_cache_config 0 Invalidate
       page_url (page_answer [] []) page_store)) (cache_key_new sample_cache_ext ''GET'' page_url) = []"
proof -
  have "variants_of sample_cache_ext page_store (cache_key_new sample_cache_ext ''GET'' page_url) \<noteq> []"
    and "or_status (page_answer [] []) < 400" by code_simp+
  moreover have "cache_key_new sample_cache_ext ''GET'' page_url
      \<in> invalidated_keys sample_cache_ext page_url (or_headers (page_answer [] []))"
    by (simp add: invalidated_keys_def)
  ultimately show ?thesis using unsafe_success_invalidates [OF page_store_reachable] by simp
qed

text \<open>The manual clock does not saturate. Advancing it by the largest duration leaves it where it is,
  from every instant but the earliest.\<close>
theorem manual_clock_does_not_saturate:
  assumes "min_time < now"
  shows "clock_advance max_duration now = now"
  using assms
  by (simp add: clock_advance_def checked_add_def max_duration_def max_time_def min_time_def nanos_per_sec_def)

end
