(* ===== verification/Http_Core.thy ===== *)
theory Http_Core
  imports Core Header_Map
begin

text \<open>
  The rest of \<open>chromulate-core\<close> the HTTP engine is written in: the error hierarchy (\<open>src/error.rs\<close>), the
  body type (\<open>src/body.rs\<close>) and requests and responses (\<open>http::Request\<close>, \<open>http::Response\<close>).

  An error's \<open>source\<close> is the text it displays. A streaming body is the list of results its stream will
  yield; awaiting it is reading the list. \<open>url_ext\<close> collects what the engine calls of the \<open>url\<close> and
  \<open>http\<close> crates.
\<close>

section \<open>Errors\<close>

datatype phase = PhaseBuild | PhaseResolve | PhaseConnect | PhaseHandshake | PhaseSend
  | PhaseAwaitResponse | PhaseReceiveBody

definition phase_str :: "phase \<Rightarrow> string" where
  "phase_str p =
     (case p of PhaseBuild \<Rightarrow> ''build'' | PhaseResolve \<Rightarrow> ''resolve'' | PhaseConnect \<Rightarrow> ''connect''
      | PhaseHandshake \<Rightarrow> ''handshake'' | PhaseSend \<Rightarrow> ''send''
      | PhaseAwaitResponse \<Rightarrow> ''await_response'' | PhaseReceiveBody \<Rightarrow> ''receive_body'')"

datatype error =
    BuilderError string
  | UrlError string
  | UnsupportedScheme string
  | ResolveError string "string option"
  | ConnectError string "string option"
  | ProxyError string string
  | TlsError string "string option"
  | ProtocolError string
  | Timeout phase
  | TooManyRedirects nat
  | RedirectError string
  | BodyError phase "string option"
  | DecodeError string "string option"
  | BodyTooLarge nat
  | MiddlewareError string string
  | Shutdown
  | ConfigError string

fun is_retryable :: "error \<Rightarrow> bool" where
  "is_retryable (ResolveError _ _) = True"
| "is_retryable (ConnectError _ _) = True"
| "is_retryable (TlsError _ _) = False"
| "is_retryable (Timeout p) = (p \<in> {PhaseResolve, PhaseConnect, PhaseHandshake, PhaseAwaitResponse})"
| "is_retryable (ProxyError _ _) = True"
| "is_retryable (ProtocolError _) = False"
| "is_retryable (BodyError _ _) = False"
| "is_retryable _ = False"

fun is_timeout :: "error \<Rightarrow> bool" where
  "is_timeout (Timeout _) = True"
| "is_timeout _ = False"

fun is_tls :: "error \<Rightarrow> bool" where
  "is_tls (TlsError _ _) = True"
| "is_tls _ = False"

fun is_user_error :: "error \<Rightarrow> bool" where
  "is_user_error (BuilderError _) = True"
| "is_user_error (UrlError _) = True"
| "is_user_error (UnsupportedScheme _) = True"
| "is_user_error (ConfigError _) = True"
| "is_user_error _ = False"

fun error_phase :: "error \<Rightarrow> phase option" where
  "error_phase (BuilderError _) = Some PhaseBuild"
| "error_phase (UrlError _) = Some PhaseBuild"
| "error_phase (UnsupportedScheme _) = Some PhaseBuild"
| "error_phase (ConfigError _) = Some PhaseBuild"
| "error_phase (ResolveError _ _) = Some PhaseResolve"
| "error_phase (ConnectError _ _) = Some PhaseConnect"
| "error_phase (ProxyError _ _) = Some PhaseConnect"
| "error_phase (TlsError _ _) = Some PhaseHandshake"
| "error_phase (Timeout p) = Some p"
| "error_phase (BodyError p _) = Some p"
| "error_phase (DecodeError _ _) = Some PhaseReceiveBody"
| "error_phase (BodyTooLarge _) = Some PhaseReceiveBody"
| "error_phase _ = None"

section \<open>Bodies\<close>

datatype body =
    BodyEmpty
  | BodyFixed "string option"
  | BodyStream "(error + string) list" "nat option"

definition body_fixed :: "string \<Rightarrow> body" where
  "body_fixed bytes = (if bytes = [] then BodyEmpty else BodyFixed (Some bytes))"

fun body_is_empty :: "body \<Rightarrow> bool" where
  "body_is_empty BodyEmpty = True"
| "body_is_empty (BodyFixed chunk) = (case chunk of None \<Rightarrow> True | Some b \<Rightarrow> b = [])"
| "body_is_empty (BodyStream _ _) = False"

fun content_length :: "body \<Rightarrow> nat option" where
  "content_length BodyEmpty = Some 0"
| "content_length (BodyFixed chunk) = Some (case chunk of None \<Rightarrow> 0 | Some b \<Rightarrow> length b)"
| "content_length (BodyStream _ len) = len"

fun try_clone :: "body \<Rightarrow> body option" where
  "try_clone BodyEmpty = Some BodyEmpty"
| "try_clone (BodyFixed chunk) = map_option (\<lambda>b. BodyFixed (Some b)) chunk"
| "try_clone (BodyStream _ _) = None"

text \<open>The loop of \<open>Body::collect\<close>: the bytes buffered so far and how many they are.\<close>

fun collect_stream :: "nat \<Rightarrow> (error + string) list \<Rightarrow> nat \<Rightarrow> string \<Rightarrow> error + string" where
  "collect_stream limit [] read buf = Inr buf"
| "collect_stream limit (Inl e # chunks) read buf = Inl e"
| "collect_stream limit (Inr chunk # chunks) read buf =
     (let read = read + length chunk
      in if read > limit then Inl (BodyTooLarge limit)
         else collect_stream limit chunks read (buf @ chunk))"

fun body_collect :: "body \<Rightarrow> nat \<Rightarrow> error + string" where
  "body_collect BodyEmpty limit = Inr []"
| "body_collect (BodyFixed chunk) limit =
     (let bytes = (case chunk of None \<Rightarrow> [] | Some b \<Rightarrow> b)
      in if length bytes > limit then Inl (BodyTooLarge limit) else Inr bytes)"
| "body_collect (BodyStream chunks len) limit = collect_stream limit chunks 0 []"

text \<open>\<open>Body::poll_frame\<close>: the next frame, if any, and the body that is left.\<close>

fun poll_frame :: "body \<Rightarrow> (error + string) option \<times> body" where
  "poll_frame BodyEmpty = (None, BodyEmpty)"
| "poll_frame (BodyFixed chunk) = (map_option Inr chunk, BodyFixed None)"
| "poll_frame (BodyStream [] len) = (None, BodyStream [] len)"
| "poll_frame (BodyStream (c # cs) len) = (Some c, BodyStream cs len)"

fun is_end_stream :: "body \<Rightarrow> bool" where
  "is_end_stream BodyEmpty = True"
| "is_end_stream (BodyFixed chunk) = (chunk = None)"
| "is_end_stream (BodyStream _ _) = False"

section \<open>Requests, responses and what lies outside the repository\<close>

datatype version = Http09 | Http10 | Http11 | Http2 | Http3

record request =
  rq_method :: string
  rq_uri :: string
  rq_version :: version
  rq_headers :: header_map
  rq_user_activated :: bool
  rq_options :: "request_options option"
  rq_url :: "url option"
  rq_body :: body

record response =
  rs_status :: nat
  rs_headers :: header_map
  rs_body :: body

record url_ext =
  ux_text :: "url \<Rightarrow> string"
  ux_port :: "url \<Rightarrow> nat option"
  ux_set_scheme :: "url \<Rightarrow> string \<Rightarrow> url option"
  ux_set_port :: "url \<Rightarrow> nat option \<Rightarrow> url"
  ux_join :: "url \<Rightarrow> string \<Rightarrow> string + url"
  ux_uri :: "string \<Rightarrow> string + string"
  ux_parse :: "string \<Rightarrow> string + url"
  ux_uri_absolute :: "string \<Rightarrow> bool"
  ux_value :: "string \<Rightarrow> header_value option"
  ux_to_str :: "header_value \<Rightarrow> string option"
  ux_key :: "url \<Rightarrow> string"
  ux_name :: "string \<Rightarrow> header_name option"
  ux_bytes_value :: "string \<Rightarrow> header_value option"
  ux_debug :: "string \<Rightarrow> string"
  ux_path_and_query :: "string \<Rightarrow> string option"
  ux_from_path :: "string \<Rightarrow> string + string"

definition origin_result :: "url_ext \<Rightarrow> url \<Rightarrow> error + origin" where
  "origin_result U u =
     (case origin_of u of
        Inr g \<Rightarrow> Inr g
      | Inl UrlHasNoHost \<Rightarrow> Inl (UrlError (''`'' @ ux_text U u @ ''` has no host''))
      | Inl SchemeHasNoDefaultPort \<Rightarrow>
          Inl (UrlError (''scheme `'' @ url_scheme u @ ''` has no default port'')))"

section \<open>A concrete instance of what lies outside\<close>

definition visible_text :: "string \<Rightarrow> bool" where
  "visible_text v \<longleftrightarrow> list_all (\<lambda>c. byte c = 9 \<or> (32 \<le> byte c \<and> byte c \<le> 126)) v"

definition token_char :: "char \<Rightarrow> bool" where
  "token_char c \<longleftrightarrow> (48 \<le> byte c \<and> byte c \<le> 57) \<or> (65 \<le> byte c \<and> byte c \<le> 90) \<or> (97 \<le> byte c \<and> byte c \<le> 122)
     \<or> byte c = 45 \<or> byte c = 95"

definition sample_port :: "url \<Rightarrow> nat option" where
  "sample_port u =
     (case url_port_or_known_default u of
        None \<Rightarrow> None | Some p \<Rightarrow> (if p = default_port (url_scheme u) then None else Some p))"

definition sample_key :: "url \<Rightarrow> string" where
  "sample_key u = url_scheme u @ ''://'' @ (case url_host_str u of Some h \<Rightarrow> h | None \<Rightarrow> [])
     @ (case sample_port u of Some p \<Rightarrow> CHR '':'' # show_nat p | None \<Rightarrow> []) @ url_path u
     @ (case url_query u of Some q \<Rightarrow> CHR ''?'' # q | None \<Rightarrow> [])"

definition sample_absolute :: "string \<Rightarrow> string \<Rightarrow> url" where
  "sample_absolute scheme rest =
     \<lparr>url_scheme = scheme, url_username = [], url_password = None,
      url_host_str = Some (takeWhile (\<lambda>c. c \<noteq> CHR ''/'') rest), url_port_or_known_default = Some (default_port scheme),
      url_path = CHR ''/'' # drop 1 (dropWhile (\<lambda>c. c \<noteq> CHR ''/'') rest), url_query = None, url_fragment = None\<rparr>"

definition sample_join :: "url \<Rightarrow> string \<Rightarrow> string + url" where
  "sample_join u s =
     (case strip_prefix ''https://'' s of
        Some rest \<Rightarrow> Inr (sample_absolute ''https'' rest)
      | None \<Rightarrow>
          (case strip_prefix ''http://'' s of
             Some rest \<Rightarrow> Inr (sample_absolute ''http'' rest)
           | None \<Rightarrow> (if starts_with s ''/'' then Inr (u\<lparr>url_path := s, url_query := None, url_fragment := None\<rparr>)
                      else Inl ''relative URL'')))"

definition sample_url_ext :: url_ext where
  "sample_url_ext =
     \<lparr>ux_text = sample_key, ux_port = sample_port,
      ux_set_scheme = (\<lambda>u s. Some (u\<lparr>url_scheme := s, url_port_or_known_default :=
          Some (case sample_port u of None \<Rightarrow> default_port s | Some p \<Rightarrow> p)\<rparr>)),
      ux_set_port = (\<lambda>u p. u\<lparr>url_port_or_known_default :=
          Some (case p of None \<Rightarrow> default_port (url_scheme u) | Some p \<Rightarrow> p)\<rparr>),
      ux_join = sample_join, ux_uri = Inr,
      ux_parse = (\<lambda>s. sample_join (sample_absolute ''http'' []) s),
      ux_uri_absolute = (\<lambda>s. starts_with s ''http''),
      ux_value = (\<lambda>v. if visible_text v then Some v else None),
      ux_to_str = (\<lambda>v. if visible_text v then Some v else None),
      ux_key = sample_key,
      ux_name = (\<lambda>n. if n \<noteq> [] \<and> list_all token_char n then Some (to_ascii_lowercase n) else None),
      ux_bytes_value = (\<lambda>v. if list_all (\<lambda>c. byte c = 9 \<or> (32 \<le> byte c \<and> byte c \<noteq> 127)) v then Some v else None),
      ux_debug = (\<lambda>s. [CHR 34] @ s @ [CHR 34]),
      ux_path_and_query = (\<lambda>s. case sample_join (sample_absolute ''http'' []) s of Inr u \<Rightarrow> Some (url_path u) | Inl _ \<Rightarrow> None),
      ux_from_path = Inr\<rparr>"

definition sample_page :: url where
  "sample_page = \<lparr>url_scheme = ''https'', url_username = [], url_password = None, url_host_str = Some ''a.test'',
     url_port_or_known_default = Some 443, url_path = ''/p'', url_query = None, url_fragment = None\<rparr>"

definition sample_get :: request where
  "sample_get = \<lparr>rq_method = ''GET'', rq_uri = ''https://a.test/p'', rq_version = Http11, rq_headers = [],
     rq_user_activated = False, rq_options = None, rq_url = None, rq_body = BodyEmpty\<rparr>"

end
