(* ===== verification/Hsts_Preload.thy ===== *)
theory Hsts_Preload
  imports Http_Core Ip_Addr
begin

unbundle bit_operations_syntax

text \<open>
  The compiled-in preload list of \<open>chromulate-http\<close>: host canonicalisation (\<open>src/hsts.rs\<close>), the lookup
  in the encoded blob (\<open>src/hsts/preload.rs\<close>) and the script that encodes it
  (\<open>data/hsts-preload/generate.py\<close>). A blob is its list of bytes; reading outside it panics, which is the
  value \<^const>\<open>None\<close>. The script's \<open>SystemExit\<close> is \<^const>\<open>None\<close> as well.
\<close>

section \<open>Canonical names and their parents\<close>

definition canonical_name :: "string \<Rightarrow> string option" where
  "canonical_name host =
     (let host = (case strip_suffix ''.'' host of Some h \<Rightarrow> h | None \<Rightarrow> host)
      in if host = [] \<or> list_ex (\<lambda>label. label = []) (split_by (\<lambda>c. c = CHR ''.'') host) then None
         else Some host)"

definition hsts_is_ip_literal :: "string \<Rightarrow> bool" where
  "hsts_is_ip_literal host =
     (let unbracketed = (case Option.bind (strip_prefix ''['' host) (strip_suffix '']'') of
                           Some inner \<Rightarrow> inner | None \<Rightarrow> host)
      in is_ipv4 unbracketed \<or> is_ipv6 unbracketed)"

lemma split_once_shorter: "split_once c s = Some (a, b) \<Longrightarrow> length b < length s"
  by (drule split_once_Some(1)) simp

text \<open>The walk over the parents of a name: drop one leading label at a time.\<close>

function any_parent :: "(string \<Rightarrow> bool) \<Rightarrow> string \<Rightarrow> bool" where
  "any_parent found rest =
     (case split_once (CHR ''.'') rest of
        None \<Rightarrow> False
      | Some (_, parent) \<Rightarrow> (if found parent then True else any_parent found parent))"
  by pat_completeness auto
termination
  by (relation "measure (\<lambda>(found, rest). length rest)") (auto dest: split_once_shorter)

declare any_parent.simps [simp del]

section \<open>The encoded list\<close>

type_synonym blob = string

definition word_at :: "blob \<Rightarrow> nat \<Rightarrow> 32 word option" where
  "word_at blob at =
     (if at + 3 < length blob
      then Some (of_nat (byte (blob ! at) + 2 ^ 8 * byte (blob ! (at + 1))
                 + 2 ^ 16 * byte (blob ! (at + 2)) + 2 ^ 24 * byte (blob ! (at + 3))))
      else None)"

definition header_len :: nat where
  "header_len = 16"

definition flag_include_subdomains :: "32 word" where
  "flag_include_subdomains = push_bit 31 1"

definition offset_mask :: "32 word" where
  "offset_mask = flag_include_subdomains - 1"

definition entry_count :: "blob \<Rightarrow> nat" where
  "entry_count blob = (case word_at blob 8 of Some w \<Rightarrow> unat w | None \<Rightarrow> 0)"

definition names_len :: "blob \<Rightarrow> nat" where
  "names_len blob = (case word_at blob 12 of Some w \<Rightarrow> unat w | None \<Rightarrow> 0)"

definition names_start :: "blob \<Rightarrow> nat" where
  "names_start blob = header_len + 4 * (entry_count blob + 1)"

text \<open>The assertions the build makes of the blob.\<close>

definition blob_checked :: "blob \<Rightarrow> bool" where
  "blob_checked blob \<longleftrightarrow>
     header_len < length blob
     \<and> take 8 blob = ''CHROMHS1''
     \<and> 0 < entry_count blob
     \<and> names_start blob + names_len blob = length blob
     \<and> map_option unat (word_at blob (header_len + 4 * entry_count blob)) = Some (names_len blob)"

definition name_at :: "blob \<Rightarrow> nat \<Rightarrow> string option" where
  "name_at blob index = do {
     start \<leftarrow> word_at blob (header_len + 4 * index);
     finish \<leftarrow> word_at blob (header_len + 4 * (index + 1));
     (let start = names_start blob + unat (start AND offset_mask);
          finish = names_start blob + unat (finish AND offset_mask)
      in if start \<le> finish \<and> finish \<le> length blob then Some (take (finish - start) (drop start blob))
         else None)
   }"

definition includes_subdomains :: "blob \<Rightarrow> nat \<Rightarrow> bool option" where
  "includes_subdomains blob index =
     map_option (\<lambda>w. w AND flag_include_subdomains \<noteq> 0) (word_at blob (header_len + 4 * index))"

datatype ordering = Less | Equal | Greater

fun compare_name :: "string \<Rightarrow> string \<Rightarrow> ordering" where
  "compare_name [] [] = Equal"
| "compare_name [] (_ # _) = Less"
| "compare_name (_ # _) [] = Greater"
| "compare_name (t # ts) (q # qs) =
     (if byte t < byte (lower_char q) then Less
      else if byte t > byte (lower_char q) then Greater
      else compare_name ts qs)"

text \<open>The binary search; the outer option is the panic.\<close>

function lookup_between :: "blob \<Rightarrow> string \<Rightarrow> nat \<Rightarrow> nat \<Rightarrow> bool option option" where
  "lookup_between blob query low high =
     (if low < high then
        (let middle = low + (high - low) div 2
         in (case name_at blob middle of
               None \<Rightarrow> None
             | Some name \<Rightarrow>
                 (case compare_name name query of
                    Less \<Rightarrow> lookup_between blob query (middle + 1) high
                  | Greater \<Rightarrow> lookup_between blob query low middle
                  | Equal \<Rightarrow> map_option Some (includes_subdomains blob middle))))
      else Some None)"
  by pat_completeness auto
termination
  by (relation "measure (\<lambda>(blob, query, low, high). high - low)") auto

declare lookup_between.simps [simp del]

definition lookup :: "blob \<Rightarrow> string \<Rightarrow> bool option option" where
  "lookup blob name = lookup_between blob name 0 (entry_count blob)"

definition covers :: "blob \<Rightarrow> string \<Rightarrow> bool" where
  "covers blob host =
     (case canonical_name host of
        None \<Rightarrow> False
      | Some host \<Rightarrow>
          (if Option.bind (lookup blob host) id \<noteq> None then True
           else any_parent (\<lambda>parent. lookup blob parent = Some (Some True)) host))"

section \<open>The encoder\<close>

record source_entry =
  se_name :: string
  se_mode :: "string option"
  se_include_subdomains :: bool

definition to_bytes4 :: "nat \<Rightarrow> string" where
  "to_bytes4 n = [char_of n, char_of (n div 2 ^ 8), char_of (n div 2 ^ 16), char_of (n div 2 ^ 24)]"

definition is_ascii :: "string \<Rightarrow> bool" where
  "is_ascii s \<longleftrightarrow> list_all (\<lambda>c. byte c < 128) s"

definition force_https :: "source_entry list \<Rightarrow> (string \<times> bool) list option" where
  "force_https entries =
     (let kept = filter (\<lambda>e. se_mode e = Some ''force-https'') entries
      in if list_all (\<lambda>e. is_ascii (se_name e)) kept
         then Some (map (\<lambda>e. (to_ascii_lowercase (se_name e), se_include_subdomains e)) kept)
         else None)"

fun adjacent_distinct :: "'a list \<Rightarrow> bool" where
  "adjacent_distinct (x # y # ys) = (x \<noteq> y \<and> adjacent_distinct (y # ys))"
| "adjacent_distinct _ = True"

fun encode_index :: "(string \<times> bool) list \<Rightarrow> nat \<Rightarrow> string option" where
  "encode_index [] start = Some []"
| "encode_index ((name, include_subdomains) # names) start =
     (if start > 2 ^ 31 - 1 then None
      else map_option
             (\<lambda>index. to_bytes4 (start OR (if include_subdomains then 2 ^ 31 else 0)) @ index)
             (encode_index names (start + length name)))"

text \<open>\<open>int.to_bytes(4)\<close> raises on a number of more than 32 bits.\<close>

definition encode :: "source_entry list \<Rightarrow> (blob \<times> (string \<times> bool) list) option" where
  "encode entries = do {
     names \<leftarrow> force_https entries;
     (let names = sort_key fst names
      in if \<not> adjacent_distinct (map fst names) then None
         else do {
           index \<leftarrow> encode_index names 0;
           (let blob = concat (map fst names)
            in if 2 ^ 32 \<le> length names \<or> 2 ^ 32 \<le> length blob then None
               else Some (''CHROMHS1'' @ to_bytes4 (length names) @ to_bytes4 (length blob)
                          @ index @ to_bytes4 (length blob) @ blob, names))
         })
   }"

section \<open>Facts on the walk and the search\<close>

lemma split_at_dot:
  assumes "a @ c # p = a' @ c # p'" and "c \<notin> set a"
  shows "a = a' \<and> p = p' \<or> (\<exists>b. a' = a @ c # b \<and> p = b @ c # p')"
  using assms by (auto simp: append_eq_append_conv2 append_eq_Cons_conv Cons_eq_append_conv)

lemma ex_split_at:
  assumes "c \<notin> set a"
  shows "(\<exists>b q. a @ c # p = b @ c # q \<and> P q) \<longleftrightarrow> P p \<or> (\<exists>b q. p = b @ c # q \<and> P q)" (is "?L \<longleftrightarrow> ?R")
proof
  assume ?L
  then obtain b q where "a @ c # p = b @ c # q" and "P q" by blast
  then show ?R using split_at_dot [OF _ assms, of p b q] by blast
next
  assume ?R
  then show ?L
  proof
    assume "\<exists>b q. p = b @ c # q \<and> P q"
    then obtain b q where "a @ c # p = (a @ c # b) @ c # q" and "P q" by auto
    then show ?L by blast
  qed blast
qed

lemma split_once_NoneD: "split_once c s = None \<Longrightarrow> c \<notin> set s"
  using split_once_append by (metis option.distinct(1) split_list_first)

lemma any_parent_step:
  "any_parent found (a @ CHR ''.'' # p) \<longleftrightarrow> found p \<or> any_parent found p" if "CHR ''.'' \<notin> set a"
  using split_once_append [OF that, of p] by (subst any_parent.simps) simp

lemma any_parent_no_dot: "CHR ''.'' \<notin> set s \<Longrightarrow> \<not> any_parent found s"
  by (subst any_parent.simps) (auto split: option.splits dest!: split_once_Some(1))

lemma any_parent_iff: "any_parent found s \<longleftrightarrow> (\<exists>a p. s = a @ CHR ''.'' # p \<and> found p)"
proof (induction "length s" arbitrary: s rule: less_induct)
  case less
  show ?case
  proof (cases "CHR ''.'' \<in> set s")
    case False
    then show ?thesis by (auto simp: any_parent_no_dot)
  next
    case True
    then obtain a p where s: "s = a @ CHR ''.'' # p" and a: "CHR ''.'' \<notin> set a"
      by (metis split_list_first)
    have "any_parent found s \<longleftrightarrow> found p \<or> (\<exists>b q. p = b @ CHR ''.'' # q \<and> found q)"
      using less [of p] by (simp add: s any_parent_step [OF a])
    then show ?thesis by (simp only: s ex_split_at [OF a])
  qed
qed

lemma byte_less_iff: "byte c < byte d \<longleftrightarrow> c < d"
  by (simp add: byte_def less_char_def)

lemma compare_name_iff:
  "compare_name t q = Less \<longleftrightarrow> t < to_ascii_lowercase q"
  "compare_name t q = Equal \<longleftrightarrow> t = to_ascii_lowercase q"
  "compare_name t q = Greater \<longleftrightarrow> to_ascii_lowercase q < t"
  by (induction t q rule: compare_name.induct) (auto simp: to_ascii_lowercase_def byte_less_iff)

text \<open>What a blob decodes to.\<close>

definition decodes :: "blob \<Rightarrow> (string \<times> bool) list \<Rightarrow> bool" where
  "decodes blob T \<longleftrightarrow> entry_count blob = length T
     \<and> (\<forall>i < length T. name_at blob i = Some (fst (T ! i)) \<and> includes_subdomains blob i = Some (snd (T ! i)))"

lemma sorted_distinct: "sorted_wrt (<) (xs :: 'a :: linorder list) \<Longrightarrow> distinct xs"
  by (simp add: strict_sorted_iff)

lemma sorted_map_of_nth:
  fixes T :: "('a :: linorder \<times> 'b) list"
  assumes "sorted_wrt (<) (map fst T)" and "i < length T"
  shows "map_of T (fst (T ! i)) = Some (snd (T ! i))"
  using sorted_distinct [OF assms(1)] assms(2) by (simp add: map_of_eq_Some_iff)

lemma lookup_between_spec:
  assumes "decodes blob T" and "sorted_wrt (<) (map fst T)" and "high \<le> length T"
    and "\<forall>i < low. fst (T ! i) < to_ascii_lowercase q"
    and "\<forall>i. high \<le> i \<and> i < length T \<longrightarrow> to_ascii_lowercase q < fst (T ! i)"
  shows "lookup_between blob q low high = Some (map_of T (to_ascii_lowercase q))"
  using assms
proof (induction blob q low high rule: lookup_between.induct)
  case (1 blob q low high)
  let ?q = "to_ascii_lowercase q"
  let ?mid = "low + (high - low) div 2"
  have mono: "fst (T ! i) < fst (T ! j)" if "i < j" "j < length T" for i j
    using "1.prems"(2) that by (simp add: sorted_wrt_iff_nth_less)
  show ?case
  proof (cases "low < high")
    case False
    have "?q \<noteq> fst (T ! i)" if "i < length T" for i
    proof (cases "i < low")
      case True
      with "1.prems"(4) have "fst (T ! i) < ?q" by simp
      then show ?thesis by auto
    next
      case False
      with "1.prems"(5) that \<open>\<not> low < high\<close> have "?q < fst (T ! i)" by simp
      then show ?thesis by auto
    qed
    then have "?q \<notin> fst ` set T" by (metis imageE in_set_conv_nth)
    then have "map_of T ?q = None" by (simp add: map_of_eq_None_iff)
    with False show ?thesis by (simp add: lookup_between.simps [of blob q low high])
  next
    case True
    then have mid: "?mid < high" "low \<le> ?mid" by auto
    then have name: "name_at blob ?mid = Some (fst (T ! ?mid))"
      and flag: "includes_subdomains blob ?mid = Some (snd (T ! ?mid))"
      using "1.prems"(1, 3) by (auto simp: decodes_def)
    note step = lookup_between.simps [of blob q low high, unfolded name Let_def]
    note IH = "1.IH" [OF True refl name]
    show ?thesis
    proof (cases "compare_name (fst (T ! ?mid)) q")
      case Less
      then have "fst (T ! i) < ?q" if "i < ?mid + 1" for i
        using that mid mono [of i ?mid] "1.prems"(3) by (cases "i = ?mid") (auto simp: compare_name_iff)
      then show ?thesis using True Less step IH(1) "1.prems" by simp
    next
      case Greater
      then have "?q < fst (T ! i)" if "?mid \<le> i" "i < length T" for i
        using that mono [of ?mid i] by (cases "i = ?mid") (auto simp: compare_name_iff)
      then show ?thesis using True Greater step IH(2) "1.prems" mid by simp
    next
      case Equal
      then have "fst (T ! ?mid) = ?q" by (simp add: compare_name_iff)
      then have "map_of T ?q = Some (snd (T ! ?mid))"
        using sorted_map_of_nth [OF "1.prems"(2), of ?mid] mid "1.prems"(3) by simp
      then show ?thesis using True Equal step flag by simp
    qed
  qed
qed

lemma lookup_decodes:
  assumes "decodes blob T" and "sorted_wrt (<) (map fst T)"
  shows "lookup blob q = Some (map_of T (to_ascii_lowercase q))"
  unfolding lookup_def using assms
  by (intro lookup_between_spec) (auto simp: decodes_def)

lemma lower_char_dot: "lower_char c = CHR ''.'' \<longleftrightarrow> c = CHR ''.''"
proof -
  have "byte (char_of (byte c + 32) :: char) = byte c + 32" if "byte c \<le> 90"
    using that by (simp add: byte_def)
  moreover have "byte (CHR ''.'') = 46" by (simp add: byte_def)
  ultimately show ?thesis by (force simp: lower_char_def)
qed

lemma to_ascii_lowercase_dot:
  "to_ascii_lowercase s = a @ CHR ''.'' # p
    \<longleftrightarrow> (\<exists>a' p'. s = a' @ CHR ''.'' # p' \<and> a = to_ascii_lowercase a' \<and> p = to_ascii_lowercase p')"
  (is "?L \<longleftrightarrow> ?R")
proof
  assume ?L
  then obtain a' r where "s = a' @ r" and a': "a = to_ascii_lowercase a'"
    and r: "map lower_char r = CHR ''.'' # p"
    unfolding to_ascii_lowercase_def map_eq_append_conv by metis
  moreover from r obtain d p' where "r = d # p'" and "lower_char d = CHR ''.''" and "p = to_ascii_lowercase p'"
    unfolding to_ascii_lowercase_def map_eq_Cons_conv by metis
  ultimately show ?R unfolding lower_char_dot by blast
next
  assume ?R
  then show ?L by (auto simp: to_ascii_lowercase_def lower_char_dot)
qed

lemma covers_decodes:
  assumes "decodes blob T" and "sorted_wrt (<) (map fst T)" and "canonical_name host = Some c"
  shows "covers blob host \<longleftrightarrow>
    (\<exists>f. (to_ascii_lowercase c, f) \<in> set T)
    \<or> (\<exists>a d. to_ascii_lowercase c = a @ CHR ''.'' # d \<and> (d, True) \<in> set T)"
proof -
  have mem: "map_of T n = Some f \<longleftrightarrow> (n, f) \<in> set T" for n f
    using sorted_distinct [OF assms(2)] by (simp add: map_of_eq_Some_iff)
  have "covers blob host \<longleftrightarrow> map_of T (to_ascii_lowercase c) \<noteq> None
      \<or> (\<exists>a p. c = a @ CHR ''.'' # p \<and> map_of T (to_ascii_lowercase p) = Some True)"
    using assms(3) by (simp add: covers_def lookup_decodes [OF assms(1, 2)] any_parent_iff)
  moreover have "map_of T (to_ascii_lowercase c) \<noteq> None \<longleftrightarrow> (\<exists>f. (to_ascii_lowercase c, f) \<in> set T)"
    by (simp add: mem [symmetric])
  moreover have "(\<exists>a p. c = a @ CHR ''.'' # p \<and> map_of T (to_ascii_lowercase p) = Some True)
      \<longleftrightarrow> (\<exists>a d. to_ascii_lowercase c = a @ CHR ''.'' # d \<and> (d, True) \<in> set T)"
    unfolding to_ascii_lowercase_dot mem by blast
  ultimately show ?thesis by simp
qed

section \<open>What the encoder writes is what the lookup reads\<close>

lemma to_bytes4_length [simp]: "length (to_bytes4 n) = 4"
  by (simp add: to_bytes4_def)

lemma four_bytes:
  assumes "n < 4294967296"
  shows "n mod 256 + 256 * (n div 256 mod 256) + 65536 * (n div 65536 mod 256)
      + 16777216 * (n div 16777216 mod 256) = (n :: nat)"
proof -
  have "n div 16777216 mod 256 = n div 16777216" using assms by simp
  moreover have "n div 256 = n div 256 mod 256 + 256 * (n div 65536)"
    using div_mult2_eq [of n 256 256] by simp
  moreover have "n div 65536 = n div 65536 mod 256 + 256 * (n div 16777216)"
    using div_mult2_eq [of n 65536 256] by simp
  ultimately show ?thesis using mod_mult_div_eq [of n 256] by linarith
qed

lemma word_at_bytes:
  assumes "n < 2 ^ 32" and "k = length pre"
  shows "word_at (pre @ to_bytes4 n @ post) k = Some (of_nat n)"
proof -
  let ?b = "pre @ to_bytes4 n @ post"
  have "?b ! k = char_of n" "?b ! (k + 1) = char_of (n div 2 ^ 8)" "?b ! (k + 2) = char_of (n div 2 ^ 16)"
    "?b ! (k + 3) = char_of (n div 2 ^ 24)"
    by (simp_all add: assms(2) to_bytes4_def nth_append)
  then have "word_at ?b k = Some (of_nat (n mod 256 + 256 * (n div 256 mod 256)
      + 65536 * (n div 65536 mod 256) + 16777216 * (n div 16777216 mod 256)))"
    using assms(2) by (simp add: word_at_def byte_def del: of_nat_add of_nat_mult)
  moreover have "n < 4294967296" using assms(1) by simp
  ultimately show ?thesis by (simp only: four_bytes)
qed

definition index_word :: "nat \<Rightarrow> bool \<Rightarrow> nat" where
  "index_word start f = (start OR (if f then 2 ^ 31 else 0))"

lemma index_word_bits:
  assumes "start < 2 ^ 31"
  shows "index_word start f < 2 ^ 32" and "take_bit 31 (index_word start f) = start"
    and "bit (index_word start f) 31 \<longleftrightarrow> f"
proof -
  have "take_bit 32 (index_word start f) = index_word start f"
    using assms by (simp add: index_word_def take_bit_nat_eq_self take_bit_of_exp)
  then show "index_word start f < 2 ^ 32" by (metis take_bit_nat_less_exp)
  show "take_bit 31 (index_word start f) = start"
    using assms by (simp add: index_word_def take_bit_nat_eq_self take_bit_of_exp)
  have "\<not> bit start 31" using assms by (metis bit_take_bit_iff less_irrefl take_bit_nat_eq_self)
  then show "bit (index_word start f) 31 \<longleftrightarrow> f" by (auto simp: index_word_def bit_or_iff bit_exp_iff bit_0)
qed

lemma masked_offset: "unat ((of_nat n :: 32 word) AND offset_mask) = take_bit 31 n"
proof -
  have "offset_mask = (mask 31 :: 32 word)" by (simp add: offset_mask_def flag_include_subdomains_def mask_eq_exp_minus_1)
  then have "unat ((of_nat n :: 32 word) AND offset_mask) = unat (take_bit 31 (of_nat n :: 32 word))"
    by (metis take_bit_eq_mask)
  also have "\<dots> = take_bit 31 (unat (of_nat n :: 32 word))" by (simp add: unsigned_take_bit_eq)
  finally have "unat ((of_nat n :: 32 word) AND offset_mask) = take_bit 31 (unat (of_nat n :: 32 word))" .
  then show ?thesis by (simp add: unat_of_nat take_bit_eq_mod mod_mod_cancel)
qed

lemma masked_flag: "(of_nat n :: 32 word) AND flag_include_subdomains \<noteq> 0 \<longleftrightarrow> bit n 31"
  unfolding flag_include_subdomains_def push_bit_of_1 and_exp_eq_0_iff_not_bit by (simp add: bit_of_nat_iff)

text \<open>Where each name starts.\<close>

definition offset_of :: "(string \<times> bool) list \<Rightarrow> nat \<Rightarrow> nat" where
  "offset_of names i = length (concat (map fst (take i names)))"

lemma encode_index_reads:
  assumes "encode_index names start = Some idx"
  shows "length idx = 4 * length names"
    and "i < length names \<Longrightarrow> start + offset_of names i < 2 ^ 31 \<and>
      word_at (pre @ idx @ post) (length pre + 4 * i)
        = Some (of_nat (index_word (start + offset_of names i) (snd (names ! i))))"
  using assms
proof (induction names start arbitrary: idx i pre rule: encode_index.induct)
  case (2 name f names start)
  {
    case 1
    with "2.IH"(1) show ?case by (auto split: if_splits)
  next
    case 2
    then obtain rest where start: "start < 2 ^ 31" and rest: "encode_index names (start + length name) = Some rest"
      and idx: "idx = to_bytes4 (index_word start f) @ rest"
      by (auto simp: index_word_def split: if_splits)
    show ?case
    proof (cases i)
      case 0
      then show ?thesis
        using word_at_bytes [OF index_word_bits(1) [OF start, of f], of "length pre" pre "rest @ post"] start
        by (simp add: idx offset_of_def)
    next
      case (Suc j)
      then show ?thesis
        using "2.IH"(2) [of j rest "pre @ to_bytes4 (index_word start f)"] start rest "2"(1)
        by (simp add: idx offset_of_def add.assoc)
    qed
  }
qed auto

lemma offset_of_Suc: "i < length names \<Longrightarrow> offset_of names (Suc i) = offset_of names i + length (fst (names ! i))"
  by (simp add: offset_of_def take_Suc_conv_app_nth)

lemma name_slice:
  assumes "i < length names"
  shows "take (length (fst (names ! i))) (drop (offset_of names i) (concat (map fst names))) = fst (names ! i)"
proof -
  have "concat (map fst names) = concat (map fst (take i names)) @ fst (names ! i) @ concat (map fst (drop (Suc i) names))"
    using assms by (subst id_take_nth_drop [OF assms]) simp
  then show ?thesis by (simp add: offset_of_def)
qed

lemma offset_of_le: "i \<le> length names \<Longrightarrow> offset_of names i \<le> length (concat (map fst names))"
  unfolding offset_of_def by (metis append_take_drop_id concat_append length_append le_add1 map_append)

lemma encode_shape:
  assumes "encode entries = Some (blob, names)"
  obtains idx where "encode_index names 0 = Some idx" and "length names < 2 ^ 32"
    and "length (concat (map fst names)) < 2 ^ 32"
    and "blob = ''CHROMHS1'' @ to_bytes4 (length names) @ to_bytes4 (length (concat (map fst names)))
           @ idx @ to_bytes4 (length (concat (map fst names))) @ concat (map fst names)"
    and "adjacent_distinct (map fst names)" and "sorted (map fst names)"
    and "force_https entries \<noteq> None" and "mset names = mset (the (force_https entries))"
  using assms by (auto simp: encode_def Let_def not_le split: bind_splits if_splits)

lemma sorted_adjacent:
  fixes xs :: "'a :: linorder list"
  shows "sorted xs \<Longrightarrow> adjacent_distinct xs \<Longrightarrow> sorted_wrt (<) xs"
  by (induction xs rule: adjacent_distinct.induct) auto

text \<open>The layout of an encoded blob: the words of its index, and the names behind it.\<close>

lemma encode_layout:
  assumes enc: "encode entries = Some (blob, names)"
  defines "n \<equiv> length names" and "c \<equiv> concat (map fst names)"
  shows "entry_count blob = n" and "names_len blob = length c" and "take 8 blob = ''CHROMHS1''"
    and "length blob = 20 + 4 * n + length c" and "drop (20 + 4 * n + k) blob = drop k c"
    and "word_at blob (16 + 4 * n) = Some (of_nat (length c))"
    and "i < n \<Longrightarrow> word_at blob (16 + 4 * i) = Some (of_nat (index_word (offset_of names i) (snd (names ! i))))
      \<and> offset_of names i < 2 ^ 31"
proof -
  obtain idx where idx: "encode_index names 0 = Some idx" and n: "n < 2 ^ 32" and c: "length c < 2 ^ 32"
    and blob: "blob = ''CHROMHS1'' @ to_bytes4 n @ to_bytes4 (length c) @ idx @ to_bytes4 (length c) @ c"
    using encode_shape [OF enc] unfolding n_def c_def by metis
  have len: "length idx = 4 * n" using encode_index_reads(1) [OF idx] by (simp add: n_def)
  show "entry_count blob = n"
    using word_at_bytes [OF n, of 8 "''CHROMHS1''" "to_bytes4 (length c) @ idx @ to_bytes4 (length c) @ c"] n
    by (simp add: entry_count_def blob unat_of_nat)
  show "names_len blob = length c"
    using word_at_bytes [OF c, of 12 "''CHROMHS1'' @ to_bytes4 n" "idx @ to_bytes4 (length c) @ c"] c
    by (simp add: names_len_def blob unat_of_nat)
  show "take 8 blob = ''CHROMHS1''" by (simp add: blob)
  show "word_at blob (16 + 4 * n) = Some (of_nat (length c))"
    using word_at_bytes [OF c, of "16 + 4 * n" "''CHROMHS1'' @ to_bytes4 n @ to_bytes4 (length c) @ idx" c] len
    by (simp add: blob)
  show "length blob = 20 + 4 * n + length c" using len by (simp add: blob)
  have "drop (20 + 4 * n) blob = c"
    using append_eq_conv_conj [THEN iffD1, OF blob [unfolded append_assoc [symmetric], symmetric], THEN conjunct2] len
    by simp
  then show "drop (20 + 4 * n + k) blob = drop k c" by (metis add.commute drop_drop)
  show "word_at blob (16 + 4 * i) = Some (of_nat (index_word (offset_of names i) (snd (names ! i))))
      \<and> offset_of names i < 2 ^ 31" if "i < n"
    using encode_index_reads(2) [OF idx that [unfolded n_def], of "''CHROMHS1'' @ to_bytes4 n @ to_bytes4 (length c)"
        "to_bytes4 (length c) @ c"] by (simp add: blob)
qed

lemma encode_decodes:
  assumes enc: "encode entries = Some (blob, names)" and small: "length (concat (map fst names)) < 2 ^ 31"
  shows "decodes blob names" and "names \<noteq> [] \<Longrightarrow> blob_checked blob"
proof -
  let ?n = "length names" and ?c = "concat (map fst names)"
  note layout = encode_layout [OF enc]
  have start: "names_start blob = 20 + 4 * ?n" by (simp add: names_start_def layout header_len_def)
  have off: "\<exists>w. word_at blob (16 + 4 * i) = Some w \<and> unat (w AND offset_mask) = offset_of names i"
    if "i \<le> ?n" for i
  proof (cases "i = ?n")
    case True
    then show ?thesis using layout(6) small by (simp add: masked_offset offset_of_def take_bit_nat_eq_self)
  next
    case False
    then show ?thesis using layout(7) [of i] that by (simp add: masked_offset index_word_bits)
  qed
  have "name_at blob i = Some (fst (names ! i))" if i: "i < ?n" for i
  proof -
    obtain w w' where w: "word_at blob (16 + 4 * i) = Some w" "unat (w AND offset_mask) = offset_of names i"
      and w': "word_at blob (20 + 4 * i) = Some w'" "unat (w' AND offset_mask) = offset_of names (Suc i)"
      using off [of i] off [of "Suc i"] i by auto
    have "offset_of names (Suc i) \<le> length ?c" using i by (intro offset_of_le) simp
    then show ?thesis
      using w w' offset_of_Suc [OF i] name_slice [OF i]
      by (simp add: name_at_def header_len_def start layout(4, 5))
  qed
  moreover have "includes_subdomains blob i = Some (snd (names ! i))" if "i < ?n" for i
    using layout(7) [OF that] by (simp add: includes_subdomains_def header_len_def masked_flag index_word_bits)
  ultimately show "decodes blob names" by (simp add: decodes_def layout(1))
  show "blob_checked blob" if "names \<noteq> []"
    using that layout(6) small
    by (simp add: blob_checked_def header_len_def layout(1-4) start unat_of_nat)
qed

lemma encode_names:
  assumes "encode entries = Some (blob, names)"
  shows "sorted_wrt (<) (map fst names)"
    and "set names = (\<lambda>e. (to_ascii_lowercase (se_name e), se_include_subdomains e))
      ` {e \<in> set entries. se_mode e = Some ''force-https''}"
proof -
  show "sorted_wrt (<) (map fst names)" using encode_shape [OF assms] sorted_adjacent by metis
  have "set names = set (the (force_https entries))" and "force_https entries \<noteq> None"
    using encode_shape [OF assms] by (metis mset_eq_setD)+
  then show "set names = (\<lambda>e. (to_ascii_lowercase (se_name e), se_include_subdomains e))
      ` {e \<in> set entries. se_mode e = Some ''force-https''}"
    by (auto simp: force_https_def Let_def split: if_splits)
qed

section \<open>Properties\<close>

text \<open>C15: The compiled-in preload list answers exactly what its source says. When the encoder accepts the
  source and the names take less than 2 GiB, the blob of a non-empty list passes the assertions of the build,
  no lookup reads outside it, and a host is covered exactly when, after dropping a root label and folding
  case, the \<open>force-https\<close> entries of the source contain it, or contain a parent of it with
  \<open>include_subdomains\<close>.\<close>
theorem preload_list_round_trip:
  assumes "encode entries = Some (blob, names)" and "length (concat (map fst names)) < 2 ^ 31"
  defines "listed d f \<equiv> \<exists>e \<in> set entries. se_mode e = Some ''force-https''
    \<and> to_ascii_lowercase (se_name e) = d \<and> se_include_subdomains e = f"
  shows "(names \<noteq> [] \<longrightarrow> blob_checked blob)
    \<and> (\<forall>q. \<exists>r. lookup blob q = Some r \<and> (\<forall>f. r = Some f \<longleftrightarrow> listed (to_ascii_lowercase q) f))
    \<and> (\<forall>host. covers blob host \<longleftrightarrow> (\<exists>c. canonical_name host = Some c
        \<and> ((\<exists>f. listed (to_ascii_lowercase c) f)
           \<or> (\<exists>a d. to_ascii_lowercase c = a @ CHR ''.'' # d \<and> listed d True))))"
proof -
  note dec = encode_decodes [OF assms(1, 2)] and names = encode_names [OF assms(1)]
  have listed: "(d, f) \<in> set names \<longleftrightarrow> listed d f" for d f by (auto simp: names(2) listed_def)
  have "map_of names d = Some f \<longleftrightarrow> listed d f" for d f
    using sorted_distinct [OF names(1)] by (simp add: map_of_eq_Some_iff listed)
  moreover have "covers blob host \<longleftrightarrow> (\<exists>c. canonical_name host = Some c
        \<and> ((\<exists>f. listed (to_ascii_lowercase c) f)
           \<or> (\<exists>a d. to_ascii_lowercase c = a @ CHR ''.'' # d \<and> listed d True)))" for host
  proof (cases "canonical_name host")
    case None
    then show ?thesis by (simp add: covers_def)
  next
    case (Some c)
    then show ?thesis using covers_decodes [OF dec(1) names(1) Some] by (simp add: listed)
  qed
  ultimately show ?thesis using dec(2) by (simp add: lookup_decodes [OF dec(1) names(1)])
qed

definition sample_source :: "source_entry list" where
  "sample_source =
     [\<lparr>se_name = ''gmail.com'', se_mode = Some ''force-https'', se_include_subdomains = False\<rparr>,
      \<lparr>se_name = ''pinned.test'', se_mode = None, se_include_subdomains = True\<rparr>,
      \<lparr>se_name = ''App'', se_mode = Some ''force-https'', se_include_subdomains = True\<rparr>]"

definition sample_blob :: blob where
  "sample_blob = fst (the (encode sample_source))"

theorem preload_list_round_trip_witness:
  "encode sample_source = Some (sample_blob, [(''app'', True), (''gmail.com'', False)])
   \<and> blob_checked sample_blob \<and> covers sample_blob ''Mail.app.'' \<and> \<not> covers sample_blob ''a..app''"
proof -
  have enc: "encode sample_source = Some (sample_blob, [(''app'', True), (''gmail.com'', False)])"
    unfolding sample_blob_def by code_simp
  have small: "length (concat (map fst [(''app'', True), (''gmail.com'', False)])) < 2 ^ 31" by simp
  have "canonical_name ''Mail.app.'' = Some ''Mail.app''" "canonical_name ''a..app'' = None"
    "to_ascii_lowercase ''Mail.app'' = ''mail'' @ CHR ''.'' # ''app''" "to_ascii_lowercase ''App'' = ''app''"
    by code_simp+
  then show ?thesis using enc preload_list_round_trip [OF enc small]
    by (simp add: sample_source_def)
qed

end
