(* ===== verification/Hsts.thy ===== *)
theory Hsts
  imports Hsts_Preload
begin

text \<open>
  HTTP Strict Transport Security (\<open>chromulate-http/src/hsts.rs\<close>): parsing the header, the bounded store of
  policies, and the upgrade of a URL. The hash map is an association list; the order of its entries, which
  decides between policies that expire at the same instant, is left open by every statement. The optional
  preload list is a parameter: \<^const>\<open>None\<close> is the default build, \<open>Some blob\<close> the build with the
  \<open>hsts-preload\<close> feature.
\<close>

section \<open>The header\<close>

record directive =
  di_max_age :: nat
  di_include_subdomains :: bool

definition trim_quotes :: "string \<Rightarrow> string" where
  "trim_quotes s = rev (dropWhile (\<lambda>c. byte c = 34) (rev (dropWhile (\<lambda>c. byte c = 34) s)))"

definition hsts_token :: "string \<Rightarrow> nat option \<times> bool \<Rightarrow> (nat option \<times> bool) option" where
  "hsts_token token st =
     (case st of (max_age, include_subdomains) \<Rightarrow>
       (let token = trim token;
            (name, argument) = (case split_once (CHR ''='') token of
                                  Some (name, argument) \<Rightarrow> (trim name, Some (trim argument))
                                | None \<Rightarrow> (token, None))
        in if eq_ignore_ascii_case name ''max-age'' then
             map_option (\<lambda>argument. (parse_unsigned 64 (trim_quotes argument), include_subdomains)) argument
           else if eq_ignore_ascii_case name ''includeSubDomains'' then Some (max_age, True)
           else Some (max_age, include_subdomains)))"

definition hsts_parse :: "string \<Rightarrow> directive option" where
  "hsts_parse value =
     (case for_each hsts_token (split_by (\<lambda>c. c = CHR '';'') value) (None, False) of
        None \<Rightarrow> None
      | Some (max_age, include_subdomains) \<Rightarrow>
          map_option (\<lambda>age. \<lparr>di_max_age = age, di_include_subdomains = include_subdomains\<rparr>) max_age)"

section \<open>The store\<close>

definition far_future_secs :: nat where
  "far_future_secs = 64000000000"

definition far_future :: system_time where
  "far_future = (case checked_add 0 (from_secs far_future_secs) of Some t \<Rightarrow> t | None \<Rightarrow> 0)"

record hsts_policy =
  hp_expires :: system_time
  hp_include_subdomains :: bool

record hsts_store =
  hs_hosts :: "(string \<times> hsts_policy) list"
  hs_capacity :: nat

definition hsts_with_capacity :: "nat \<Rightarrow> hsts_store" where
  "hsts_with_capacity capacity = \<lparr>hs_hosts = [], hs_capacity = max capacity 1\<rparr>"

definition default_host_capacity :: nat where
  "default_host_capacity = 10000"

definition hsts_new :: hsts_store where
  "hsts_new = hsts_with_capacity default_host_capacity"

definition hsts_len :: "hsts_store \<Rightarrow> nat" where
  "hsts_len S = length (hs_hosts S)"

definition hsts_evict :: "system_time \<Rightarrow> hsts_store \<Rightarrow> hsts_store" where
  "hsts_evict now S =
     (if length (hs_hosts S) \<le> hs_capacity S then S
      else S\<lparr>hs_hosts := drop_least hp_expires (hs_capacity S)
                           (filter (\<lambda>e. now < hp_expires (snd e)) (hs_hosts S))\<rparr>)"

definition policy_expiry :: "system_time \<Rightarrow> nat \<Rightarrow> system_time" where
  "policy_expiry now max_age =
     (case checked_add now (from_secs max_age) of Some t \<Rightarrow> t | None \<Rightarrow> far_future)"

definition hsts_record :: "string \<Rightarrow> string \<Rightarrow> bool \<Rightarrow> system_time \<Rightarrow> hsts_store \<Rightarrow> hsts_store" where
  "hsts_record host value over_tls now S =
     (if \<not> over_tls then S
      else (case canonical_name host of
              None \<Rightarrow> S
            | Some host \<Rightarrow>
                (if hsts_is_ip_literal host then S
                 else (case hsts_parse value of
                         None \<Rightarrow> S
                       | Some directive \<Rightarrow>
                           (let host = to_ascii_lowercase host
                            in if di_max_age directive = 0
                               then S\<lparr>hs_hosts := AList.delete host (hs_hosts S)\<rparr>
                               else hsts_evict now
                                      (S\<lparr>hs_hosts := AList.update host
                                           \<lparr>hp_expires = policy_expiry now (di_max_age directive),
                                            hp_include_subdomains = di_include_subdomains directive\<rparr>
                                           (hs_hosts S)\<rparr>))))))"

definition preload_covers :: "blob option \<Rightarrow> string \<Rightarrow> bool" where
  "preload_covers preload host = (case preload of None \<Rightarrow> False | Some blob \<Rightarrow> covers blob host)"

definition hsts_applies_to :: "blob option \<Rightarrow> hsts_store \<Rightarrow> string \<Rightarrow> system_time \<Rightarrow> bool" where
  "hsts_applies_to preload S host now =
     (case canonical_name host of
        None \<Rightarrow> False
      | Some host \<Rightarrow>
          (if hsts_is_ip_literal host then False
           else (let host = to_ascii_lowercase host
                 in if (case map_of (hs_hosts S) host of
                          Some policy \<Rightarrow> now < hp_expires policy | None \<Rightarrow> False) then True
                    else if any_parent (\<lambda>parent. case map_of (hs_hosts S) parent of
                           Some policy \<Rightarrow> hp_include_subdomains policy \<and> now < hp_expires policy
                         | None \<Rightarrow> False) host then True
                    else preload_covers preload host)))"

text \<open>\<open>HstsStore::upgrade\<close>: the URL afterwards, and whether it changed.\<close>

definition hsts_upgrade ::
  "url_ext \<Rightarrow> blob option \<Rightarrow> hsts_store \<Rightarrow> url \<Rightarrow> system_time \<Rightarrow> url \<times> bool" where
  "hsts_upgrade U preload S u now =
     (if url_scheme u \<noteq> ''http'' then (u, False)
      else (case url_host_str u of
              None \<Rightarrow> (u, False)
            | Some host \<Rightarrow>
                (if \<not> hsts_applies_to preload S host now then (u, False)
                 else (let explicit_port = ux_port U u
                       in (case ux_set_scheme U u ''https'' of
                             None \<Rightarrow> (u, False)
                           | Some v \<Rightarrow>
                               (if explicit_port = Some 80 then (ux_set_port U v None, True)
                                else (v, True)))))))"

section \<open>What the headers announced\<close>

record hsts_event =
  he_host :: string
  he_value :: string
  he_over_tls :: bool
  he_now :: system_time

text \<open>The policy a response announces for a name, if it may announce one at all; \<open>max-age=0\<close> announces that
  there is none.\<close>

definition announces :: "string \<Rightarrow> hsts_event \<Rightarrow> hsts_policy option option" where
  "announces name ev =
     (if he_over_tls ev \<and> map_option to_ascii_lowercase (canonical_name (he_host ev)) = Some name
         \<and> \<not> hsts_is_ip_literal (the (canonical_name (he_host ev)))
      then map_option (\<lambda>d. if di_max_age d = 0 then None
                           else Some \<lparr>hp_expires = policy_expiry (he_now ev) (di_max_age d),
                                      hp_include_subdomains = di_include_subdomains d\<rparr>)
             (hsts_parse (he_value ev))
      else None)"

text \<open>The last announcement for a name counts.\<close>

definition learned :: "hsts_event list \<Rightarrow> string \<Rightarrow> hsts_policy option" where
  "learned history name =
     (case filter (\<lambda>a. a \<noteq> None) (map (announces name) (rev history)) of
        Some policy # _ \<Rightarrow> policy | _ \<Rightarrow> None)"

definition hsts_observe :: "hsts_event \<Rightarrow> hsts_store \<Rightarrow> hsts_store" where
  "hsts_observe ev S = hsts_record (he_host ev) (he_value ev) (he_over_tls ev) (he_now ev) S"

lemma learned_snoc:
  "learned (history @ [ev]) name = (case announces name ev of Some p \<Rightarrow> p | None \<Rightarrow> learned history name)"
  by (simp add: learned_def split: option.splits)

lemma announces_unique: "announces n ev \<noteq> None \<Longrightarrow> announces n' ev \<noteq> None \<Longrightarrow> n = n'"
  by (auto simp: announces_def split: if_splits)

lemma observe_cases:
  obtains (ignored) "hsts_observe ev S = S" and "\<And>n. announces n ev = None"
  | (removed) n where "announces n ev = Some None"
      and "hsts_observe ev S = S\<lparr>hs_hosts := AList.delete n (hs_hosts S)\<rparr>"
  | (stored) n p where "announces n ev = Some (Some p)"
      and "hsts_observe ev S = hsts_evict (he_now ev) (S\<lparr>hs_hosts := AList.update n p (hs_hosts S)\<rparr>)"
proof (cases "he_over_tls ev \<and> canonical_name (he_host ev) \<noteq> None
    \<and> \<not> hsts_is_ip_literal (the (canonical_name (he_host ev))) \<and> hsts_parse (he_value ev) \<noteq> None")
  case True
  then obtain c d where "canonical_name (he_host ev) = Some c" "hsts_parse (he_value ev) = Some d"
    "\<not> hsts_is_ip_literal c" "he_over_tls ev" by auto
  with removed [of "to_ascii_lowercase c"] stored [of "to_ascii_lowercase c"] show ?thesis
    by (cases "di_max_age d = 0") (simp_all add: hsts_observe_def hsts_record_def announces_def Let_def)
next
  case False
  then have "hsts_observe ev S = S" and "announces n ev = None" for n
    by (auto simp: hsts_observe_def hsts_record_def announces_def split: option.splits)
  then show ?thesis by (rule ignored)
qed

section \<open>The invariant\<close>

definition hsts_inv :: "hsts_store \<Rightarrow> bool" where
  "hsts_inv S \<longleftrightarrow> distinct (map fst (hs_hosts S)) \<and> length (hs_hosts S) \<le> hs_capacity S"

lemma hsts_evict_inv:
  assumes "distinct (map fst (hs_hosts S))"
  shows "hsts_inv (hsts_evict now S)"
    and "set (hs_hosts (hsts_evict now S)) \<subseteq> set (hs_hosts S)"
    and "hs_capacity (hsts_evict now S) = hs_capacity S"
proof -
  let ?live = "filter (\<lambda>e. now < hp_expires (snd e)) (hs_hosts S)"
  have d: "distinct (map fst ?live)" by (rule distinct_keys_filter [OF assms])
  have "length (drop_least hp_expires (hs_capacity S) ?live) \<le> hs_capacity S"
    by (simp add: drop_least_length [OF d])
  then show "hsts_inv (hsts_evict now S)"
    using assms drop_least_keeps [OF d, where f = hp_expires] by (auto simp: hsts_inv_def hsts_evict_def)
  show "set (hs_hosts (hsts_evict now S)) \<subseteq> set (hs_hosts S)"
    using drop_least_keeps [OF d, where f = hp_expires and cap = "hs_capacity S"]
    by (auto simp: hsts_evict_def)
qed (simp add: hsts_evict_def)

lemma hsts_observe_inv:
  assumes "hsts_inv S"
  shows "hsts_inv (hsts_observe ev S) \<and> hs_capacity (hsts_observe ev S) = hs_capacity S"
proof (cases rule: observe_cases [of ev S])
  case (removed n)
  have "length (AList.delete n (hs_hosts S)) \<le> length (hs_hosts S)" by (rule length_delete_le)
  with removed assms show ?thesis by (simp add: hsts_inv_def distinct_delete)
next
  case (stored n p)
  then show ?thesis using assms hsts_evict_inv [of "S\<lparr>hs_hosts := AList.update n p (hs_hosts S)\<rparr>"]
    by (simp add: hsts_inv_def distinct_update)
qed (use assms in simp)

lemma observe_sound:
  assumes "hsts_inv S" and "map_of (hs_hosts S) \<subseteq>\<^sub>m learned history"
  shows "map_of (hs_hosts (hsts_observe ev S)) \<subseteq>\<^sub>m learned (history @ [ev])"
proof (cases rule: observe_cases [of ev S])
  case ignored
  with assms show ?thesis by (simp add: map_le_def learned_snoc)
next
  case (removed n)
  then have "announces m ev = None" if "m \<noteq> n" for m
    using announces_unique [of m ev n] that by fastforce
  with removed assms show ?thesis by (auto simp: map_le_def learned_snoc delete_conv' dom_def)
next
  case (stored n p)
  then have other: "announces m ev = None" if "m \<noteq> n" for m
    using announces_unique [of m ev n] that by fastforce
  let ?S = "S\<lparr>hs_hosts := AList.update n p (hs_hosts S)\<rparr>"
  have d: "distinct (map fst (hs_hosts ?S))" using assms(1) by (simp add: hsts_inv_def distinct_update)
  have "map_of (hs_hosts (hsts_evict (he_now ev) ?S)) \<subseteq>\<^sub>m map_of (hs_hosts ?S)"
    by (rule map_of_subset [OF d hsts_evict_inv(2) [OF d]])
  moreover have "map_of (hs_hosts ?S) \<subseteq>\<^sub>m learned (history @ [ev])"
    using assms(2) stored(1) other by (auto simp: map_le_def learned_snoc update_conv' dom_def)
  ultimately show ?thesis unfolding stored(2) by (rule map_le_trans)
qed

text \<open>The names a history announces anything for. While they fit, nothing is ever evicted.\<close>

definition named :: "hsts_event list \<Rightarrow> string set" where
  "named history = {n. \<exists>ev \<in> set history. announces n ev \<noteq> None}"

lemma finite_named: "finite (named history)"
proof -
  have "finite {n. announces n ev \<noteq> None}" for ev
    using announces_unique [of _ ev] by (metis (mono_tags, lifting) finite_subset
        finite.emptyI finite.insertI insertCI mem_Collect_eq subsetI)
  moreover have "named history = (\<Union>ev \<in> set history. {n. announces n ev \<noteq> None})"
    by (auto simp: named_def)
  ultimately show ?thesis by simp
qed

lemma learned_named: "learned history n = Some p \<Longrightarrow> n \<in> named history"
proof (induction history rule: rev_induct)
  case (snoc ev history)
  then show ?case by (cases "announces n ev") (auto simp: learned_snoc named_def)
qed (simp add: learned_def)

lemma observe_complete:
  assumes "hsts_inv S" and "map_of (hs_hosts S) = learned history"
    and "card (named (history @ [ev])) \<le> hs_capacity S"
  shows "map_of (hs_hosts (hsts_observe ev S)) = learned (history @ [ev])"
proof (cases rule: observe_cases [of ev S])
  case ignored
  with assms show ?thesis by (auto simp: learned_snoc)
next
  case (removed n)
  then have "announces m ev = None" if "m \<noteq> n" for m
    using announces_unique [of m ev n] that by fastforce
  with removed assms show ?thesis by (auto simp: learned_snoc delete_conv')
next
  case (stored n p)
  then have other: "announces m ev = None" if "m \<noteq> n" for m
    using announces_unique [of m ev n] that by fastforce
  let ?hosts = "AList.update n p (hs_hosts S)"
  have new: "map_of ?hosts = learned (history @ [ev])"
    using assms(2) stored(1) other by (auto simp: learned_snoc update_conv')
  have "distinct (map fst ?hosts)" using assms(1) by (simp add: hsts_inv_def distinct_update)
  then have "length ?hosts = card (fst ` set ?hosts)" by (metis distinct_card length_map list.set_map)
  also have "fst ` set ?hosts \<subseteq> named (history @ [ev])"
    using learned_named [of "history @ [ev]"] by (auto simp: dom_map_of_conv_image_fst [symmetric] new dom_def)
  then have "card (fst ` set ?hosts) \<le> card (named (history @ [ev]))" by (rule card_mono [OF finite_named])
  finally show ?thesis using assms(3) new by (simp add: stored(2) hsts_evict_def)
qed

lemma named_mono: "card (named history) \<le> card (named (history @ [ev]))"
  by (rule card_mono [OF finite_named]) (auto simp: named_def)

lemma history_store:
  assumes "S = fold hsts_observe history (hsts_with_capacity capacity)"
  shows "hsts_inv S \<and> hs_capacity S = max capacity 1 \<and> map_of (hs_hosts S) \<subseteq>\<^sub>m learned history
    \<and> (card (named history) \<le> max capacity 1 \<longrightarrow> map_of (hs_hosts S) = learned history)"
  using assms
proof (induction history arbitrary: S rule: rev_induct)
  case Nil
  then show ?case by (simp add: hsts_with_capacity_def hsts_inv_def learned_def fun_eq_iff)
next
  case (snoc ev history)
  let ?S = "fold hsts_observe history (hsts_with_capacity capacity)"
  note IH = snoc.IH [OF refl]
  have S: "S = hsts_observe ev ?S" using snoc.prems by simp
  show ?case
    using IH hsts_observe_inv [of ?S ev] observe_sound [of ?S history ev] observe_complete [of ?S history ev]
      named_mono [of history ev] by (simp add: S)
qed

text \<open>What the policies in force demand for a host.\<close>

definition demanded :: "blob option \<Rightarrow> (string \<Rightarrow> hsts_policy option) \<Rightarrow> string \<Rightarrow> system_time \<Rightarrow> bool" where
  "demanded preload policies host now \<longleftrightarrow>
    (\<exists>c. canonical_name host = Some c \<and> \<not> hsts_is_ip_literal c
       \<and> ((\<exists>p. policies (to_ascii_lowercase c) = Some p \<and> now < hp_expires p)
          \<or> (\<exists>a d p. to_ascii_lowercase c = a @ CHR ''.'' # d \<and> policies d = Some p
                \<and> hp_include_subdomains p \<and> now < hp_expires p)
          \<or> preload_covers preload (to_ascii_lowercase c)))"

lemma applies_to_iff: "hsts_applies_to preload S host now \<longleftrightarrow> demanded preload (map_of (hs_hosts S)) host now"
  by (cases "canonical_name host")
    (auto simp: hsts_applies_to_def demanded_def Let_def any_parent_iff split: option.splits if_splits)

lemma demanded_mono:
  assumes "demanded preload m host now" and "m \<subseteq>\<^sub>m m'"
  shows "demanded preload m' host now"
proof -
  have "m' k = Some v" if "m k = Some v" for k v using assms(2) that by (auto simp: map_le_def dom_def)
  then show ?thesis using assms(1) unfolding demanded_def by blast
qed

text \<open>An eviction drops what has expired and then what expires soonest.\<close>

lemma evict_drops_soonest:
  assumes "distinct (map fst (hs_hosts S))" and "e \<in> set (hs_hosts S)" and "e \<notin> set (hs_hosts (hsts_evict now S))"
    and "now < hp_expires (snd e)" and "k \<in> set (hs_hosts (hsts_evict now S))"
  shows "hp_expires (snd e) \<le> hp_expires (snd k)"
proof -
  let ?live = "filter (\<lambda>e. now < hp_expires (snd e)) (hs_hosts S)"
  have "least_dropped hp_expires ?live (drop_least hp_expires (hs_capacity S) ?live)"
    by (rule drop_least_worst [OF distinct_keys_filter [OF assms(1)]])
  then show ?thesis using assms(2-) by (auto simp: hsts_evict_def least_dropped_def split: if_splits)
qed

section \<open>The url crate\<close>

text \<open>What the upgrade relies on: an \<open>http\<close> URL with a host may become an \<open>https\<close> one; only the scheme
  changes, an explicit port stays and a missing one now means 443; clearing the port means 443 too.\<close>

definition url_upgrade_law :: "url_ext \<Rightarrow> bool" where
  "url_upgrade_law U \<longleftrightarrow>
     (\<forall>u. url_scheme u = ''http'' \<and> url_host_str u \<noteq> None \<longrightarrow>
        ux_set_scheme U u ''https'' = Some (u\<lparr>url_scheme := ''https'',
          url_port_or_known_default := Some (case ux_port U u of None \<Rightarrow> 443 | Some p \<Rightarrow> p)\<rparr>))
     \<and> (\<forall>u. url_scheme u = ''https'' \<longrightarrow> ux_set_port U u None = u\<lparr>url_port_or_known_default := Some 443\<rparr>)"

lemma upgrade_result:
  assumes "url_upgrade_law U"
  shows "hsts_upgrade U preload S u now =
    (if url_scheme u = ''http'' \<and> (\<exists>h. url_host_str u = Some h \<and> hsts_applies_to preload S h now)
     then (u\<lparr>url_scheme := ''https'', url_port_or_known_default :=
              Some (if ux_port U u = None \<or> ux_port U u = Some 80 then 443 else the (ux_port U u))\<rparr>, True)
     else (u, False))"
  using assms by (auto simp: hsts_upgrade_def url_upgrade_law_def Let_def split: option.splits)

section \<open>Properties\<close>

text \<open>C13: After any history of responses, the store holds at most its capacity of hosts, and a host is forced
  to HTTPS only when the last \<open>Strict-Transport-Security\<close> field received over TLS for it, or for a parent
  that said \<open>includeSubDomains\<close>, demands it and has not expired, or the preload list does: a field over
  plaintext, an IP literal, an unreadable field and \<open>max-age=0\<close> never force anything. While the hosts that
  announced a policy fit the capacity, the demand is also honoured every time. Upgrading a URL changes exactly
  the \<open>http\<close> URLs of forced hosts: the scheme becomes \<open>https\<close>, a port that is missing or 80 becomes 443, any
  other explicit port and every other part of the URL stays.\<close>
theorem hsts_honours_announcements:
  assumes "S = fold hsts_observe history (hsts_with_capacity capacity)" and "url_upgrade_law U"
  shows "hsts_len S \<le> max capacity 1
    \<and> (\<forall>host. hsts_applies_to preload S host now \<longrightarrow> demanded preload (learned history) host now)
    \<and> (card (named history) \<le> max capacity 1 \<longrightarrow>
        (\<forall>host. hsts_applies_to preload S host now \<longleftrightarrow> demanded preload (learned history) host now))
    \<and> (\<forall>u. hsts_upgrade U preload S u now =
        (if url_scheme u = ''http'' \<and> (\<exists>h. url_host_str u = Some h \<and> hsts_applies_to preload S h now)
         then (u\<lparr>url_scheme := ''https'', url_port_or_known_default :=
                  Some (if ux_port U u = None \<or> ux_port U u = Some 80 then 443 else the (ux_port U u))\<rparr>, True)
         else (u, False)))"
  using history_store [OF assms(1)] demanded_mono [of preload "map_of (hs_hosts S)" _ now "learned history"]
    upgrade_result [OF assms(2)]
  by (auto simp: applies_to_iff hsts_len_def hsts_inv_def)

definition sample_history :: "hsts_event list" where
  "sample_history =
     [\<lparr>he_host = ''Example.com.'', he_value = ''max-age=\"60\"; includeSubDomains'', he_over_tls = True, he_now = 0\<rparr>,
      \<lparr>he_host = ''plain.test'', he_value = ''max-age=60'', he_over_tls = False, he_now = 0\<rparr>,
      \<lparr>he_host = ''huge.test'', he_value = ''max-age=18446744073709551615'', he_over_tls = True, he_now = 0\<rparr>]"

definition plain_url :: "nat \<Rightarrow> url" where
  "plain_url port = sample_page\<lparr>url_scheme := ''http'', url_host_str := Some ''www.example.com'',
     url_port_or_known_default := Some port\<rparr>"

lemma sample_upgrade_law: "url_upgrade_law sample_url_ext"
  by (auto simp: url_upgrade_law_def sample_url_ext_def default_port_def split: option.splits)

theorem hsts_honours_announcements_witness:
  "(let S = fold hsts_observe sample_history (hsts_with_capacity 2)
    in hsts_len S \<le> 2 \<and> hsts_applies_to None S ''www.example.com'' 59000000000
       \<and> hsts_applies_to None S ''huge.test'' 60000000000 \<and> \<not> hsts_applies_to None S ''plain.test'' 0
       \<and> demanded None (learned sample_history) ''www.example.com'' 59000000000
       \<and> hsts_upgrade sample_url_ext None S (plain_url 8080) 59000000000
         = ((plain_url 8080)\<lparr>url_scheme := ''https''\<rparr>, True)
       \<and> hsts_upgrade sample_url_ext None S (plain_url 80) 59000000000
         = ((plain_url 80)\<lparr>url_scheme := ''https'', url_port_or_known_default := Some 443\<rparr>, True))"
proof -
  let ?S = "fold hsts_observe sample_history (hsts_with_capacity 2)"
  have "hsts_applies_to None ?S ''www.example.com'' 59000000000"
    "hsts_applies_to None ?S ''huge.test'' 60000000000" "\<not> hsts_applies_to None ?S ''plain.test'' 0"
    and port: "ux_port sample_url_ext (plain_url 8080) = Some 8080" "ux_port sample_url_ext (plain_url 80) = None"
    by code_simp+
  moreover have host: "url_scheme (plain_url p) = ''http''" "url_host_str (plain_url p) = Some ''www.example.com''"
    and same: "(plain_url 8080)\<lparr>url_scheme := ''https'', url_port_or_known_default := Some 8080\<rparr>
      = (plain_url 8080)\<lparr>url_scheme := ''https''\<rparr>" for p
    by (simp_all add: plain_url_def)
  moreover note t = hsts_honours_announcements [OF refl sample_upgrade_law, of sample_history 2 None 59000000000]
  moreover have "hsts_upgrade sample_url_ext None ?S (plain_url 8080) 59000000000
      = ((plain_url 8080)\<lparr>url_scheme := ''https''\<rparr>, True)"
    "hsts_upgrade sample_url_ext None ?S (plain_url 80) 59000000000
      = ((plain_url 80)\<lparr>url_scheme := ''https'', url_port_or_known_default := Some 443\<rparr>, True)"
    using t port host same calculation(1) by simp_all
  ultimately show ?thesis by (simp add: Let_def)
qed

end
