(* ===== verification/Client_Hints.thy ===== *)
theory Client_Hints
  imports Http_Core Lru
begin

text \<open>
  \<open>chromulate-header/src/client_hints.rs\<close>: parsing \<open>Accept-CH\<close> and the bounded per-origin memory of granted
  hints. A hash set of hints is a set, the grants are an association list, and the eviction index (a
  \<open>BTreeMap\<close> from access sequence to origin) is the association list of its entries, whose first entry is
  the one with the least key.
\<close>

section \<open>Hints\<close>

datatype hint = PlatformVersion | Arch | Bitness | FullVersionList | Model

definition all_in_emit_order :: "hint list" where
  "all_in_emit_order = [PlatformVersion, Arch, Bitness, Model, FullVersionList]"

definition hint_header_name :: "hint \<Rightarrow> string" where
  "hint_header_name h =
     (case h of PlatformVersion \<Rightarrow> ''sec-ch-ua-platform-version'' | Arch \<Rightarrow> ''sec-ch-ua-arch''
      | Bitness \<Rightarrow> ''sec-ch-ua-bitness'' | FullVersionList \<Rightarrow> ''sec-ch-ua-full-version-list''
      | Model \<Rightarrow> ''sec-ch-ua-model'')"

definition hint_from_token :: "string \<Rightarrow> hint option" where
  "hint_from_token token =
     (let t = to_ascii_lowercase (trim token)
      in if t = ''sec-ch-ua-platform-version'' then Some PlatformVersion
         else if t = ''sec-ch-ua-arch'' then Some Arch
         else if t = ''sec-ch-ua-bitness'' then Some Bitness
         else if t = ''sec-ch-ua-full-version-list'' then Some FullVersionList
         else if t = ''sec-ch-ua-model'' then Some Model
         else None)"

definition parse_accept_ch :: "string \<Rightarrow> hint set" where
  "parse_accept_ch value = set (List.map_filter hint_from_token (split_by (\<lambda>c. c = CHR '','') value))"

record high_entropy_hints =
  he_platform_version :: "string option"
  he_arch :: "string option"
  he_bitness :: "string option"
  he_full_version_list :: "string option"
  he_model :: "string option"

definition hints_value_for :: "high_entropy_hints \<Rightarrow> hint \<Rightarrow> string option" where
  "hints_value_for H h =
     (case h of PlatformVersion \<Rightarrow> he_platform_version H | Arch \<Rightarrow> he_arch H | Bitness \<Rightarrow> he_bitness H
      | FullVersionList \<Rightarrow> he_full_version_list H | Model \<Rightarrow> he_model H)"

section \<open>The store of grants\<close>

definition default_origin_capacity :: nat where
  "default_origin_capacity = 10000"

record grant =
  gr_hints :: "hint set"
  gr_filed_seq :: u64
  gr_last_access_seq :: u64

record accept_ch_store =
  ac_granted :: "(origin \<times> grant) list"
  ac_by_access :: "(u64 \<times> origin) list"
  ac_next_seq :: u64
  ac_limit :: nat

definition ac_with_limits :: "nat \<Rightarrow> accept_ch_store" where
  "ac_with_limits origins = \<lparr>ac_granted = [], ac_by_access = [], ac_next_seq = 0, ac_limit = origins\<rparr>"

definition ac_new :: accept_ch_store where
  "ac_new = ac_with_limits default_origin_capacity"

definition ac_len :: "accept_ch_store \<Rightarrow> nat" where
  "ac_len S = length (ac_granted S)"

definition ac_clear :: "accept_ch_store \<Rightarrow> accept_ch_store" where
  "ac_clear S = S\<lparr>ac_granted := [], ac_by_access := []\<rparr>"

definition ac_forget :: "origin \<Rightarrow> accept_ch_store \<Rightarrow> accept_ch_store \<times> bool" where
  "ac_forget origin S =
     (case map_of (ac_granted S) origin of
        Some grant \<Rightarrow> (S\<lparr>ac_granted := AList.delete origin (ac_granted S),
                          ac_by_access := AList.delete (gr_filed_seq grant) (ac_by_access S)\<rparr>, True)
      | None \<Rightarrow> (S, False))"

definition pop_first :: "('k::linorder \<times> 'v) list \<Rightarrow> (('k \<times> 'v) \<times> ('k \<times> 'v) list) option" where
  "pop_first xs = map_option (\<lambda>e. (e, AList.delete (fst e) xs)) (min_by_key fst xs)"

text \<open>An index entry is stale when its grant was read after it was filed.\<close>

definition stale_entry :: "(origin \<times> grant) list \<Rightarrow> u64 \<times> origin \<Rightarrow> bool" where
  "stale_entry granted e =
     (case map_of granted (snd e) of Some g \<Rightarrow> fst e < gr_last_access_seq g | None \<Rightarrow> False)"

definition index_work :: "accept_ch_store \<Rightarrow> nat" where
  "index_work S = length (ac_by_access S) + length (filter (stale_entry (ac_granted S)) (ac_by_access S))"

lemma pop_firstD:
  assumes "pop_first xs = Some (e, ys)"
  shows "e \<in> set xs" and "\<forall>x \<in> set xs. fst e \<le> fst x" and "ys = AList.delete (fst e) xs"
  using assms min_by_keyD [of fst xs e] by (auto simp: pop_first_def)

lemma pop_first_smaller:
  assumes "pop_first xs = Some (e, ys)"
  shows "length ys < length xs" and "length (filter P ys) + (if P e then 1 else 0) \<le> length (filter P xs)"
proof -
  note D = pop_firstD [OF assms]
  show "length ys < length xs" unfolding D(3) using D(1) by (intro length_delete_less) simp
  have "filter P ys = filter (\<lambda>x. fst x \<noteq> fst e) (filter P xs)"
    by (simp add: D(3) AList.delete_eq case_prod_beta' conj_commute eq_commute)
  moreover have "length (filter (\<lambda>x. fst x \<noteq> fst e) (filter P xs)) < length (filter P xs)" if "P e"
    using D(1) that by (intro length_filter_less [of e]) auto
  moreover have "length (filter Q (filter P xs)) \<le> length (filter P xs)" for Q by (rule length_filter_le)
  ultimately show "length (filter P ys) + (if P e then 1 else 0) \<le> length (filter P xs)"
    by (metis Suc_eq_plus1 Suc_leI add.right_neutral)
qed

lemma length_update_le: "length (AList.update k v xs) \<le> length xs + 1"
  by (induction xs) auto

lemma filter_update_le:
  "\<not> P (k, v) \<Longrightarrow> length (filter P (AList.update k v xs)) \<le> length (filter P xs)"
  by (induction xs) auto

lemma refile_work:
  assumes "pop_first (ac_by_access S) = Some ((filed, origin), rest)"
    and "map_of (ac_granted S) origin = Some g" and "filed < gr_last_access_seq g"
  shows "index_work (S\<lparr>ac_granted := AList.update origin (g\<lparr>gr_filed_seq := gr_last_access_seq g\<rparr>) (ac_granted S),
           ac_by_access := AList.update (gr_last_access_seq g) origin rest\<rparr>) < index_work S"
proof -
  let ?granted = "AList.update origin (g\<lparr>gr_filed_seq := gr_last_access_seq g\<rparr>) (ac_granted S)"
  have same: "stale_entry ?granted = stale_entry (ac_granted S)"
    using assms(2) by (auto simp: stale_entry_def update_conv' fun_eq_iff split: option.splits)
  have "\<not> stale_entry (ac_granted S) (gr_last_access_seq g, origin)" using assms(2) by (simp add: stale_entry_def)
  note counts = length_update_le [of "gr_last_access_seq g" origin rest]
    filter_update_le [of "stale_entry (ac_granted S)", OF this, of rest]
  have "stale_entry (ac_granted S) (filed, origin)" using assms(2, 3) by (simp add: stale_entry_def)
  then show ?thesis
    using counts pop_first_smaller(1) [OF assms(1)] pop_first_smaller(2) [OF assms(1), of "stale_entry (ac_granted S)"]
    by (simp add: index_work_def same)
qed

lemma pop_work:
  assumes "pop_first (ac_by_access S) = Some (e, rest)" and "\<And>x. stale_entry granted x \<Longrightarrow> stale_entry (ac_granted S) x"
  shows "index_work (S\<lparr>ac_granted := granted, ac_by_access := rest\<rparr>) < index_work S"
proof -
  have "length (filter (stale_entry granted) rest) \<le> length (filter (stale_entry (ac_granted S)) rest)"
    using assms(2) by (induction rest) auto
  then show ?thesis using pop_first_smaller(1) [OF assms(1)] pop_first_smaller(2) [OF assms(1), of "stale_entry (ac_granted S)"]
    by (auto simp: index_work_def split: if_splits)
qed

lemma drop_work:
  "pop_first (ac_by_access S) = Some (e, rest) \<Longrightarrow> index_work (S\<lparr>ac_by_access := rest\<rparr>) < index_work S"
  using pop_work [of S e rest "ac_granted S"] by simp

lemma stale_delete: "stale_entry (AList.delete origin granted) x \<Longrightarrow> stale_entry granted x"
  by (auto simp: stale_entry_def delete_conv' split: option.splits if_splits)

function ac_evict :: "accept_ch_store \<Rightarrow> accept_ch_store" where
  "ac_evict S =
     (if length (ac_granted S) \<le> ac_limit S then S
      else (case pop_first (ac_by_access S) of
              None \<Rightarrow> S
            | Some ((filed_seq, origin), rest) \<Rightarrow>
                (case map_of (ac_granted S) origin of
                   None \<Rightarrow> ac_evict (S\<lparr>ac_by_access := rest\<rparr>)
                 | Some grant \<Rightarrow>
                     (if filed_seq < gr_last_access_seq grant
                      then ac_evict (S\<lparr>ac_granted := AList.update origin
                               (grant\<lparr>gr_filed_seq := gr_last_access_seq grant\<rparr>) (ac_granted S),
                             ac_by_access := AList.update (gr_last_access_seq grant) origin rest\<rparr>)
                      else ac_evict (S\<lparr>ac_granted := AList.delete origin (ac_granted S),
                             ac_by_access := rest\<rparr>)))))"
  by pat_completeness auto
termination
  by (relation "measure index_work") (auto intro: refile_work pop_work drop_work stale_delete)

declare ac_evict.simps [simp del]

definition ac_record :: "origin \<Rightarrow> string \<Rightarrow> accept_ch_store \<Rightarrow> accept_ch_store" where
  "ac_record origin accept_ch_value S =
     (let hints = parse_accept_ch accept_ch_value
      in if hints = {} then fst (ac_forget origin S)
         else (let seq = ac_next_seq S;
                   S = S\<lparr>ac_next_seq := seq + 1\<rparr>;
                   S = fst (ac_forget origin S)
               in ac_evict (S\<lparr>ac_by_access := AList.update seq origin (ac_by_access S),
                     ac_granted := AList.update origin
                       \<lparr>gr_hints = hints, gr_filed_seq = seq, gr_last_access_seq = seq\<rparr> (ac_granted S)\<rparr>)))"

definition ac_granted_for :: "origin \<Rightarrow> accept_ch_store \<Rightarrow> hint set \<times> accept_ch_store" where
  "ac_granted_for origin S =
     (case map_of (ac_granted S) origin of
        Some grant \<Rightarrow>
          (gr_hints grant,
           S\<lparr>ac_granted := AList.update origin (grant\<lparr>gr_last_access_seq := ac_next_seq S\<rparr>) (ac_granted S),
             ac_next_seq := ac_next_seq S + 1\<rparr>)
      | None \<Rightarrow> ({}, S))"

section \<open>The index is exact\<close>

text \<open>The index files every grant once, under a sequence not later than its last read, and no sequence serves
  two origins.\<close>

definition index_ok :: "(origin \<Rightarrow> grant option) \<Rightarrow> (u64 \<Rightarrow> origin option) \<Rightarrow> bool" where
  "index_ok M B \<longleftrightarrow>
     (\<forall>k n. B k = Some n \<longleftrightarrow> (\<exists>g. M n = Some g \<and> gr_filed_seq g = k))
     \<and> (\<forall>n g. M n = Some g \<longrightarrow> gr_filed_seq g \<le> gr_last_access_seq g)
     \<and> (\<forall>n n' g g'. M n = Some g \<and> M n' = Some g' \<and> n \<noteq> n' \<longrightarrow>
          gr_last_access_seq g \<noteq> gr_last_access_seq g' \<and> gr_last_access_seq g \<noteq> gr_filed_seq g')"

definition store_ok :: "accept_ch_store \<Rightarrow> bool" where
  "store_ok S \<longleftrightarrow> distinct (map fst (ac_granted S)) \<and> distinct (map fst (ac_by_access S))
     \<and> index_ok (map_of (ac_granted S)) (map_of (ac_by_access S))"

lemma index_ok_filed_inj:
  assumes "index_ok M B" and "M n = Some g" and "M n' = Some g'" and "gr_filed_seq g = gr_filed_seq g'"
  shows "n = n'"
  using assms unfolding index_ok_def by (metis option.inject)

lemma index_ok_refile:
  assumes "index_ok M B" and "M n = Some g"
  shows "index_ok (M(n \<mapsto> g\<lparr>gr_filed_seq := gr_last_access_seq g\<rparr>))
    ((B(gr_filed_seq g := None))(gr_last_access_seq g \<mapsto> n))"
proof -
  have inj: "gr_filed_seq g' \<noteq> gr_filed_seq g" if "M m = Some g'" "m \<noteq> n" for m g'
    using index_ok_filed_inj [OF assms(1) that(1) assms(2)] that(2) by auto
  have apart: "gr_filed_seq g' \<noteq> gr_last_access_seq g" "gr_last_access_seq g' \<noteq> gr_last_access_seq g"
    if "M m = Some g'" "m \<noteq> n" for m g'
    using assms that unfolding index_ok_def by metis+
  show ?thesis
    using assms inj apart apart [THEN not_sym] unfolding index_ok_def by (auto split: if_splits)
qed

lemma index_ok_delete:
  assumes "index_ok M B" and "M n = Some g"
  shows "index_ok (M(n := None)) (B(gr_filed_seq g := None))"
proof -
  have "gr_filed_seq g' \<noteq> gr_filed_seq g" if "M m = Some g'" "m \<noteq> n" for m g'
    using index_ok_filed_inj [OF assms(1) that(1) assms(2)] that(2) by auto
  then show ?thesis using assms unfolding index_ok_def by (auto split: if_splits)
qed

lemma index_ok_insert:
  assumes "index_ok M B" and "M n = None" and "gr_filed_seq g = seq" and "gr_last_access_seq g = seq"
    and "\<And>m g'. M m = Some g' \<Longrightarrow> gr_last_access_seq g' < seq"
  shows "index_ok (M(n \<mapsto> g)) (B(seq \<mapsto> n))"
proof -
  have new: "gr_filed_seq g' \<noteq> seq" "gr_last_access_seq g' \<noteq> seq" if "M m = Some g'" for m g'
    using assms(1) assms(5) [OF that] that unfolding index_ok_def by (force dest: le_less_trans)+
  then show ?thesis using assms(1-4) new [THEN not_sym] unfolding index_ok_def by (auto split: if_splits)
qed

text \<open>What the least-recently-used order depends on.\<close>

definition recent :: "(origin \<times> grant) list \<Rightarrow> (origin \<times> hint set \<times> u64) list" where
  "recent granted = map (\<lambda>(n, g). (n, gr_hints g, gr_last_access_seq g)) granted"

lemma recent_refile: "map_of granted n = Some g \<Longrightarrow>
  recent (AList.update n (g\<lparr>gr_filed_seq := k\<rparr>) granted) = recent granted"
  by (induction granted) (auto simp: recent_def)

lemma recent_delete: "recent (AList.delete n granted) = AList.delete n (recent granted)"
  by (induction granted) (auto simp: recent_def AList.delete_eq)

lemma length_recent [simp]: "length (recent granted) = length granted"
  by (simp add: recent_def)

lemma fst_recent [simp]: "map fst (recent granted) = map fst granted"
  by (simp add: recent_def comp_def case_prod_beta)

lemma min_by_key_unique:
  assumes "x \<in> set xs" and "\<And>y. y \<in> set xs \<Longrightarrow> y \<noteq> x \<Longrightarrow> f x < f y"
  shows "min_by_key f xs = Some x"
proof -
  obtain m where m: "min_by_key f xs = Some m" using assms(1) by (cases "min_by_key f xs") auto
  then show ?thesis using min_by_keyD [OF m] assms by (metis leD)
qed

lemma store_ok_refile:
  assumes "store_ok S" and "map_of (ac_granted S) n = Some g" and "rest = AList.delete (gr_filed_seq g) (ac_by_access S)"
  shows "store_ok (S\<lparr>ac_granted := AList.update n (g\<lparr>gr_filed_seq := gr_last_access_seq g\<rparr>) (ac_granted S),
    ac_by_access := AList.update (gr_last_access_seq g) n rest\<rparr>)"
  using assms index_ok_refile [of "map_of (ac_granted S)" "map_of (ac_by_access S)" n g]
  by (simp add: store_ok_def distinct_update distinct_delete update_conv' delete_conv')

lemma store_ok_delete:
  assumes "store_ok S" and "map_of (ac_granted S) n = Some g" and "rest = AList.delete (gr_filed_seq g) (ac_by_access S)"
  shows "store_ok (S\<lparr>ac_granted := AList.delete n (ac_granted S), ac_by_access := rest\<rparr>)"
  using assms index_ok_delete [of "map_of (ac_granted S)" "map_of (ac_by_access S)" n g]
  by (simp add: store_ok_def distinct_delete delete_conv')

lemma store_ok_first:
  assumes "store_ok S" and "pop_first (ac_by_access S) = Some ((k, n), rest)"
  obtains g where "map_of (ac_granted S) n = Some g" and "gr_filed_seq g = k"
    and "rest = AList.delete k (ac_by_access S)"
    and "\<forall>m h. map_of (ac_granted S) m = Some h \<longrightarrow> k \<le> gr_filed_seq h"
proof -
  note D = pop_firstD [OF assms(2)]
  have ok: "index_ok (map_of (ac_granted S)) (map_of (ac_by_access S))"
    and d: "distinct (map fst (ac_by_access S))" using assms(1) by (simp_all add: store_ok_def)
  have "map_of (ac_by_access S) k = Some n" using D(1) d by (simp add: map_of_is_SomeI)
  then obtain g where "map_of (ac_granted S) n = Some g" "gr_filed_seq g = k"
    using ok unfolding index_ok_def by blast
  moreover have "k \<le> gr_filed_seq h" if "map_of (ac_granted S) m = Some h" for m h
  proof -
    have "map_of (ac_by_access S) (gr_filed_seq h) = Some m" using ok that unfolding index_ok_def by blast
    then show ?thesis using D(2) map_of_SomeD by fastforce
  qed
  ultimately show ?thesis using D(3) that by simp
qed

text \<open>A grant whose entry is first and not stale is the least recently used one.\<close>

lemma first_is_least:
  assumes "store_ok S" and "map_of (ac_granted S) n = Some g" and "gr_last_access_seq g \<le> gr_filed_seq g"
    and "\<And>m h. map_of (ac_granted S) m = Some h \<Longrightarrow> gr_filed_seq g \<le> gr_filed_seq h"
  shows "min_by_key (\<lambda>e. snd (snd e)) (recent (ac_granted S)) = Some (n, gr_hints g, gr_last_access_seq g)"
proof (rule min_by_key_unique)
  show "(n, gr_hints g, gr_last_access_seq g) \<in> set (recent (ac_granted S))"
    using map_of_SomeD [OF assms(2)] by (force simp: recent_def)
next
  fix y
  assume "y \<in> set (recent (ac_granted S))" and ne: "y \<noteq> (n, gr_hints g, gr_last_access_seq g)"
  then obtain m h where y: "y = (m, gr_hints h, gr_last_access_seq h)" and mem: "(m, h) \<in> set (ac_granted S)"
    by (auto simp: recent_def)
  have d: "distinct (map fst (ac_granted S))" and ok: "index_ok (map_of (ac_granted S)) (map_of (ac_by_access S))"
    using assms(1) by (simp_all add: store_ok_def)
  have h: "map_of (ac_granted S) m = Some h" using mem d by simp
  with ne y assms(2) have "m \<noteq> n" by auto
  with h assms(2) ok have "gr_last_access_seq g \<noteq> gr_last_access_seq h" "gr_filed_seq h \<le> gr_last_access_seq h"
    unfolding index_ok_def by blast+
  with assms(3) assms(4) [OF h] have "gr_last_access_seq g < gr_last_access_seq h" by auto
  then show "snd (snd (n, gr_hints g, gr_last_access_seq g)) < snd (snd y)" by (simp add: y)
qed

text \<open>The lazily reconciled index evicts exactly what a scan for the least recently used grant would.\<close>

lemma ac_evict_spec:
  assumes "store_ok S"
  shows "store_ok (ac_evict S) \<and> ac_next_seq (ac_evict S) = ac_next_seq S \<and> ac_limit (ac_evict S) = ac_limit S
    \<and> recent (ac_granted (ac_evict S)) = drop_least snd (ac_limit S) (recent (ac_granted S))"
  using assms
proof (induction S rule: ac_evict.induct)
  case (1 S)
  show ?case
  proof (cases "length (ac_granted S) \<le> ac_limit S")
    case True
    then show ?thesis using "1.prems" by (simp add: ac_evict.simps [of S] drop_least_id)
  next
    case over: False
    then obtain n0 g0 more where "ac_granted S = (n0, g0) # more" by (cases "ac_granted S") auto
    then have "map_of (ac_granted S) n0 = Some g0" by simp
    then have "map_of (ac_by_access S) (gr_filed_seq g0) = Some n0"
      using "1.prems" unfolding store_ok_def index_ok_def by blast
    then have "ac_by_access S \<noteq> []" by auto
    then obtain e where "min_by_key fst (ac_by_access S) = Some e"
      by (cases "min_by_key fst (ac_by_access S)") auto
    then obtain k n rest where pop: "pop_first (ac_by_access S) = Some ((k, n), rest)"
      by (cases e) (auto simp: pop_first_def)
    obtain g where g: "map_of (ac_granted S) n = Some g" "gr_filed_seq g = k" "rest = AList.delete k (ac_by_access S)"
      "\<forall>m h. map_of (ac_granted S) m = Some h \<longrightarrow> k \<le> gr_filed_seq h"
      by (rule store_ok_first [OF "1.prems" pop])
    note step = ac_evict.simps [of S]
    show ?thesis
    proof (cases "k < gr_last_access_seq g")
      case True
      show ?thesis
        using "1.IH"(2) [OF over pop refl refl g(1) True] store_ok_refile [OF "1.prems" g(1), of rest] g True
        by (simp add: step over pop recent_refile)
    next
      case False
      have least: "min_by_key (\<lambda>e. snd (snd e)) (recent (ac_granted S)) = Some (n, gr_hints g, gr_last_access_seq g)"
        by (rule first_is_least [OF "1.prems" g(1)]) (use False g in auto)
      have "drop_least snd (ac_limit S) (recent (ac_granted S))
          = drop_least snd (ac_limit S) (AList.delete n (recent (ac_granted S)))"
        using over least by (subst drop_least.simps) simp
      then show ?thesis
        using "1.IH"(3) [OF over pop refl refl g(1) False] store_ok_delete [OF "1.prems" g(1), of rest] g False
        by (simp add: step over pop recent_delete)
    qed
  qed
qed

section \<open>A least-recently-used store\<close>

definition ac_inv :: "accept_ch_store \<Rightarrow> bool" where
  "ac_inv S \<longleftrightarrow> store_ok S \<and> (\<forall>e \<in> set (ac_granted S). gr_last_access_seq (snd e) < ac_next_seq S)"

definition ac_contents :: "accept_ch_store \<Rightarrow> (origin \<times> hint set) list" where
  "ac_contents S = map (\<lambda>(n, h, l). (n, h)) (by_use snd (recent (ac_granted S)))"

definition ac_stamps :: "accept_ch_store \<Rightarrow> nat" where
  "ac_stamps S = unat (u64_max - ac_next_seq S)"

definition ac_hints :: "string \<Rightarrow> hint set option" where
  "ac_hints value = (if parse_accept_ch value = {} then None else Some (parse_accept_ch value))"

fun ac_run :: "(origin, string) lru_op \<Rightarrow> accept_ch_store \<Rightarrow> accept_ch_store" where
  "ac_run (Put n value) S = ac_record n value S"
| "ac_run (Touch n) S = snd (ac_granted_for n S)"
| "ac_run (Forget n) S = fst (ac_forget n S)"

lemma ac_inv_stamped:
  assumes "ac_inv S"
  shows "stamped snd (recent (ac_granted S)) (ac_next_seq S)"
proof -
  have d: "distinct (map fst (ac_granted S))" and ok: "index_ok (map_of (ac_granted S)) (map_of (ac_by_access S))"
    using assms by (simp_all add: ac_inv_def store_ok_def)
  have "inj_on (\<lambda>e. snd (snd e)) (set (recent (ac_granted S)))"
  proof (rule inj_onI)
    fix x y
    assume "x \<in> set (recent (ac_granted S))" "y \<in> set (recent (ac_granted S))" and eq: "snd (snd x) = snd (snd y)"
    then obtain n g m h where x: "x = (n, gr_hints g, gr_last_access_seq g)" "map_of (ac_granted S) n = Some g"
      and y: "y = (m, gr_hints h, gr_last_access_seq h)" "map_of (ac_granted S) m = Some h"
      using d by (auto simp: recent_def)
    then have "n = m" using ok eq unfolding index_ok_def by fastforce
    with x y show "x = y" by simp
  qed
  moreover have "\<forall>e \<in> set (recent (ac_granted S)). snd (snd e) < ac_next_seq S"
    using assms by (auto simp: ac_inv_def recent_def)
  ultimately show ?thesis using d by (simp add: stamped_def)
qed

lemma map_delete_fst: "map (\<lambda>(n, h, l). (n, h)) (AList.delete k xs) = AList.delete k (map (\<lambda>(n, h, l). (n, h)) xs)"
  by (induction xs) (auto simp: AList.delete_eq)

lemma contents_put:
  "map (\<lambda>(n, h, l). (n, h)) (lru_put k (h, l) xs) = lru_put k h (map (\<lambda>(n, h, l). (n, h)) xs)"
  by (simp add: lru_put_def map_delete_fst)

lemma ac_forget_spec:
  assumes "ac_inv S"
  shows "ac_inv (fst (ac_forget n S))" and "ac_contents (fst (ac_forget n S)) = AList.delete n (ac_contents S)"
    and "map_of (ac_granted (fst (ac_forget n S))) n = None"
    and "ac_next_seq (fst (ac_forget n S)) = ac_next_seq S \<and> ac_limit (fst (ac_forget n S)) = ac_limit S"
proof -
  show "ac_inv (fst (ac_forget n S))"
    using assms store_ok_delete [of S n] by (auto simp: ac_inv_def ac_forget_def set_delete split: option.splits)
  show "ac_contents (fst (ac_forget n S)) = AList.delete n (ac_contents S)"
  proof (cases "map_of (ac_granted S) n")
    case None
    then have "n \<notin> fst ` set (ac_contents S)"
      by (force simp: ac_contents_def recent_def map_of_eq_None_iff)
    with None show ?thesis by (simp add: ac_forget_def delete_absent)
  next
    case (Some g)
    then show ?thesis by (simp add: ac_forget_def ac_contents_def recent_delete by_use_delete map_delete_fst)
  qed
qed (simp_all add: ac_forget_def delete_conv' split: option.splits)

lemma recent_update:
  "recent (AList.update n g granted) = AList.update n (gr_hints g, gr_last_access_seq g) (recent granted)"
  by (induction granted) (auto simp: recent_def)

lemma next_stamp:
  assumes "0 < ac_stamps S"
  shows "ac_next_seq S < ac_next_seq S + 1"
    and "ac_next_seq S' = ac_next_seq S + 1 \<Longrightarrow> ac_stamps S \<le> Suc (ac_stamps S')"
proof -
  have ne: "u64_max - ac_next_seq S \<noteq> 0" using assms by (auto simp: ac_stamps_def)
  then have "ac_next_seq S \<noteq> u64_max" by auto
  then show "ac_next_seq S < ac_next_seq S + 1" by (rule incr_greater)
  show "ac_stamps S \<le> Suc (ac_stamps S')" if "ac_next_seq S' = ac_next_seq S + 1"
    using unat_minus_one [OF ne] unfolding ac_stamps_def that diff_diff_eq by simp
qed

text \<open>Storing a grant, before the eviction.\<close>

definition ac_store :: "origin \<Rightarrow> hint set \<Rightarrow> accept_ch_store \<Rightarrow> accept_ch_store" where
  "ac_store n hints S =
     (let S' = fst (ac_forget n (S\<lparr>ac_next_seq := ac_next_seq S + 1\<rparr>))
      in S'\<lparr>ac_by_access := AList.update (ac_next_seq S) n (ac_by_access S'),
            ac_granted := AList.update n
              \<lparr>gr_hints = hints, gr_filed_seq = ac_next_seq S, gr_last_access_seq = ac_next_seq S\<rparr> (ac_granted S')\<rparr>)"

lemma ac_record_store:
  "ac_record n value S = (case ac_hints value of None \<Rightarrow> fst (ac_forget n S)
     | Some hints \<Rightarrow> ac_evict (ac_store n hints S))"
  by (simp add: ac_record_def ac_hints_def ac_store_def Let_def)

lemma forget_bump:
  "fst (ac_forget n (S\<lparr>ac_next_seq := k\<rparr>)) = (fst (ac_forget n S))\<lparr>ac_next_seq := k\<rparr>"
  by (simp add: ac_forget_def split: option.splits)

lemma ac_store_spec:
  assumes "ac_inv S" and "0 < ac_stamps S"
  shows "ac_inv (ac_store n hints S)" and "ac_contents (ac_store n hints S) = lru_put n hints (ac_contents S)"
    and "ac_next_seq (ac_store n hints S) = ac_next_seq S + 1 \<and> ac_limit (ac_store n hints S) = ac_limit S"
proof -
  let ?F = "fst (ac_forget n S)" and ?seq = "ac_next_seq S"
  let ?g = "\<lparr>gr_hints = hints, gr_filed_seq = ?seq, gr_last_access_seq = ?seq\<rparr>"
  note F = ac_forget_spec [OF assms(1), of n]
  have S': "ac_store n hints S = ?F\<lparr>ac_by_access := AList.update ?seq n (ac_by_access ?F),
      ac_granted := AList.update n ?g (ac_granted ?F), ac_next_seq := ?seq + 1\<rparr>"
    by (simp add: ac_store_def Let_def forget_bump)
  have old: "stamped snd (recent (ac_granted ?F)) ?seq" using ac_inv_stamped [OF F(1)] F(4) by simp
  have new: "stamped snd (recent (AList.update n ?g (ac_granted ?F))) (?seq + 1)"
    and by_use: "by_use snd (recent (AList.update n ?g (ac_granted ?F)))
      = lru_put n (hints, ?seq) (by_use snd (recent (ac_granted ?F)))"
    using stamped_touch [OF old, of "(hints, ?seq)" n] next_stamp(1) [OF assms(2)] by (simp_all add: recent_update)
  have lt: "gr_last_access_seq g' < ?seq" if "map_of (ac_granted ?F) m = Some g'" for m g'
    using F(1) F(4) map_of_SomeD [OF that] by (force simp: ac_inv_def)
  have "index_ok ((map_of (ac_granted ?F))(n \<mapsto> ?g)) ((map_of (ac_by_access ?F))(?seq \<mapsto> n))"
    by (rule index_ok_insert) (use F(1, 3) lt in \<open>auto simp: ac_inv_def store_ok_def\<close>)
  moreover have "\<forall>e \<in> set (AList.update n ?g (ac_granted ?F)). gr_last_access_seq (snd e) < ?seq + 1"
    using new by (force simp: stamped_def recent_def)
  ultimately show "ac_inv (ac_store n hints S)"
    using F(1) by (simp add: S' ac_inv_def store_ok_def distinct_update update_conv')
  show "ac_contents (ac_store n hints S) = lru_put n hints (ac_contents S)"
    using F(2) by (simp add: S' ac_contents_def by_use contents_put) (simp add: lru_put_def delete_idem)
  show "ac_next_seq (ac_store n hints S) = ac_next_seq S + 1 \<and> ac_limit (ac_store n hints S) = ac_limit S"
    using F(4) by (simp add: S')
qed

lemma ac_evict_contents:
  assumes "ac_inv S"
  shows "ac_inv (ac_evict S)" and "ac_contents (ac_evict S) = lru_purge (ac_limit S) (ac_limit S) (ac_contents S)"
proof -
  note E = ac_evict_spec [of S]
  have ok: "store_ok S" using assms by (simp add: ac_inv_def)
  have d: "distinct (map fst (recent (ac_granted S)))" using ok by (simp add: store_ok_def)
  have sub: "set (recent (ac_granted (ac_evict S))) \<subseteq> set (recent (ac_granted S))"
    using E [OF ok] drop_least_keeps [OF d, of snd "ac_limit S"] by simp
  have "gr_last_access_seq (snd e) < ac_next_seq S" if "e \<in> set (ac_granted (ac_evict S))" for e
  proof -
    have "(fst e, gr_hints (snd e), gr_last_access_seq (snd e)) \<in> set (recent (ac_granted S))"
      using sub that by (force simp: recent_def)
    then show ?thesis using ac_inv_stamped [OF assms] by (force simp: stamped_def)
  qed
  then show "ac_inv (ac_evict S)" using E [OF ok] by (simp add: ac_inv_def)
  show "ac_contents (ac_evict S) = lru_purge (ac_limit S) (ac_limit S) (ac_contents S)"
    using E [OF ok] by_use_drop_least [OF ac_inv_stamped [OF assms], of "ac_limit S"]
    by (simp add: ac_contents_def lru_purge_def drop_map)
qed

lemma index_ok_touch:
  assumes "index_ok M B" and "M n = Some g" and "\<And>m h. M m = Some h \<Longrightarrow> gr_last_access_seq h < now"
  shows "index_ok (M(n \<mapsto> g\<lparr>gr_last_access_seq := now\<rparr>)) B"
proof -
  have new: "gr_filed_seq h \<noteq> now" "gr_last_access_seq h \<noteq> now" "gr_filed_seq h \<le> now" if "M m = Some h" for m h
    using assms(1) assms(3) [OF that] that unfolding index_ok_def by (force dest: le_less_trans)+
  show ?thesis using assms(1, 2) new new(1, 2) [THEN not_sym] unfolding index_ok_def by (auto split: if_splits)
qed

lemma map_of_contents:
  assumes "ac_inv S"
  shows "map_of (ac_contents S) n = map_option gr_hints (map_of (ac_granted S) n)"
proof -
  have d: "distinct (map fst (ac_granted S))" using assms by (simp add: ac_inv_def store_ok_def)
  have "map_of (map (\<lambda>(n, h, l). (n, h)) xs) n = map_option fst (map_of xs n)" for xs :: "(origin \<times> hint set \<times> u64) list"
    by (induction xs) auto
  moreover have "map_of (recent xs) n = map_option (\<lambda>g. (gr_hints g, gr_last_access_seq g)) (map_of xs n)" for xs
    by (induction xs) (auto simp: recent_def)
  ultimately show ?thesis using d by (simp add: ac_contents_def map_of_by_use option.map_comp comp_def)
qed

lemma ac_touch_spec:
  assumes "ac_inv S" and "0 < ac_stamps S"
  shows "ac_inv (snd (ac_granted_for n S))" and "ac_contents (snd (ac_granted_for n S)) = lru_use n (ac_contents S)"
    and "fst (ac_granted_for n S) = (case map_of (ac_contents S) n of None \<Rightarrow> {} | Some h \<Rightarrow> h)"
    and "ac_limit (snd (ac_granted_for n S)) = ac_limit S"
    and "ac_stamps S \<le> Suc (ac_stamps (snd (ac_granted_for n S)))"
proof -
  show "fst (ac_granted_for n S) = (case map_of (ac_contents S) n of None \<Rightarrow> {} | Some h \<Rightarrow> h)"
    by (simp add: map_of_contents [OF assms(1)] ac_granted_for_def split: option.splits)
  show "ac_limit (snd (ac_granted_for n S)) = ac_limit S" by (simp add: ac_granted_for_def split: option.splits)
  have "ac_inv (snd (ac_granted_for n S)) \<and> ac_contents (snd (ac_granted_for n S)) = lru_use n (ac_contents S)
    \<and> ac_stamps S \<le> Suc (ac_stamps (snd (ac_granted_for n S)))"
  proof (cases "map_of (ac_granted S) n")
    case None
    then show ?thesis using assms(1) by (simp add: ac_granted_for_def lru_use_def map_of_contents)
  next
    case (Some g)
    let ?g = "g\<lparr>gr_last_access_seq := ac_next_seq S\<rparr>"
    note st = ac_inv_stamped [OF assms(1)]
    have new: "stamped snd (recent (AList.update n ?g (ac_granted S))) (ac_next_seq S + 1)"
      and by_use: "by_use snd (recent (AList.update n ?g (ac_granted S)))
        = lru_put n (gr_hints g, ac_next_seq S) (by_use snd (recent (ac_granted S)))"
      using stamped_touch [OF st, of "(gr_hints g, ac_next_seq S)" n] next_stamp(1) [OF assms(2)]
      by (simp_all add: recent_update)
    have "gr_last_access_seq h < ac_next_seq S" if "map_of (ac_granted S) m = Some h" for m h
      using assms(1) map_of_SomeD [OF that] by (force simp: ac_inv_def)
    then have "index_ok ((map_of (ac_granted S))(n \<mapsto> ?g)) (map_of (ac_by_access S))"
      using assms(1) Some by (intro index_ok_touch) (auto simp: ac_inv_def store_ok_def)
    moreover have "\<forall>e \<in> set (AList.update n ?g (ac_granted S)). gr_last_access_seq (snd e) < ac_next_seq S + 1"
      using new by (force simp: stamped_def recent_def)
    ultimately have "ac_inv (snd (ac_granted_for n S))"
      using assms(1) Some by (simp add: ac_granted_for_def ac_inv_def store_ok_def distinct_update update_conv')
    moreover have "ac_contents (snd (ac_granted_for n S)) = lru_use n (ac_contents S)"
      using Some by (simp add: ac_granted_for_def ac_contents_def by_use contents_put)
        (simp add: lru_use_def map_of_contents [OF assms(1), unfolded ac_contents_def])
    ultimately show ?thesis
      using next_stamp(2) [OF assms(2), of "snd (ac_granted_for n S)"] Some by (simp add: ac_granted_for_def)
  qed
  then show "ac_inv (snd (ac_granted_for n S))" "ac_contents (snd (ac_granted_for n S)) = lru_use n (ac_contents S)"
    "ac_stamps S \<le> Suc (ac_stamps (snd (ac_granted_for n S)))" by simp_all
qed

lemma ac_step:
  assumes "ac_inv S" and "0 < ac_stamps S"
  shows "ac_inv (ac_run p S) \<and> ac_limit (ac_run p S) = ac_limit S \<and> ac_stamps S \<le> Suc (ac_stamps (ac_run p S))
    \<and> ac_contents (ac_run p S) = lru_step ac_hints (ac_limit S) (ac_limit S) p (ac_contents S)"
proof (cases p)
  case (Put n field)
  show ?thesis
  proof (cases "ac_hints field")
    case None
    with Put show ?thesis using ac_forget_spec [OF assms(1), of n] by (simp add: ac_record_store ac_stamps_def)
  next
    case (Some hints)
    note St = ac_store_spec [OF assms, of n hints]
    with Put Some show ?thesis
      using ac_evict_contents [OF St(1)] ac_evict_spec [of "ac_store n hints S"]
        next_stamp(2) [OF assms(2), of "ac_evict (ac_store n hints S)"]
      by (simp add: ac_record_store ac_inv_def)
  qed
next
  case (Touch n)
  then show ?thesis using ac_touch_spec [OF assms] by simp
next
  case (Forget n)
  then show ?thesis using ac_forget_spec [OF assms(1), of n] by (simp add: ac_stamps_def)
qed

interpretation hints: lru_store ac_contents ac_inv ac_stamps ac_limit ac_limit ac_hints ac_run
proof (unfold_locales, goal_cases)
  case (1 S)
  then have "distinct (map fst (by_use snd (recent (ac_granted S))))"
    by (intro distinct_by_use) (simp add: ac_inv_def store_ok_def)
  then show ?case by (simp add: ac_contents_def comp_def case_prod_beta)
next
  case (3 S p)
  then show ?case using ac_step by blast
qed simp

section \<open>Properties\<close>

lemma ac_start:
  "ac_inv (ac_with_limits origins)" "ac_contents (ac_with_limits origins) = []"
  "ac_limit (ac_with_limits origins) = origins" "ac_stamps (ac_with_limits origins) = 2 ^ 64 - 1"
  by (simp_all add: ac_with_limits_def ac_inv_def store_ok_def index_ok_def ac_contents_def recent_def by_use_def
      ac_stamps_def u64_max_def unsigned_minus_1_eq_mask mask_eq_exp_minus_1)

text \<open>C19: The client-hint memory is a least-recently-used map of the last \<open>Accept-CH\<close> of each origin, although
  reads only stamp a grant and the eviction index is brought up to date lazily. After any operations (fewer
  than \<open>2^64\<close>), its contents are those of the reference list, at most the configured number of origins; and
  what an origin last asked for is granted, exactly, as long as fewer other origins than the limit were
  recorded, read or forgotten since.\<close>
theorem client_hints_are_lru:
  assumes "length ops < 2 ^ 64" and "S = fold ac_run ops (ac_with_limits origins)"
  shows "ac_contents S = fold (lru_step ac_hints origins origins) ops []
    \<and> ac_len S \<le> origins
    \<and> (\<forall>n. fst (ac_granted_for n S) = (case map_of (ac_contents S) n of None \<Rightarrow> {} | Some h \<Rightarrow> h))
    \<and> (\<forall>pre n field post. ops = pre @ Put n field # post \<and> parse_accept_ch field \<noteq> {}
        \<and> (\<forall>p \<in> set post. op_key p \<noteq> n) \<and> card (op_key ` set post) < origins
        \<longrightarrow> fst (ac_granted_for n S) = parse_accept_ch field)"
proof -
  let ?init = "ac_with_limits origins"
  have len: "length ops \<le> ac_stamps ?init" using assms(1) by (simp add: ac_start)
  note runs = hints.runs [OF ac_start(1) len]
  have inv: "ac_inv S" and contents: "ac_contents S = fold (lru_step ac_hints origins origins) ops []"
    using runs by (simp_all add: assms(2) ac_start)
  have read: "fst (ac_granted_for n S) = (case map_of (ac_contents S) n of None \<Rightarrow> {} | Some h \<Rightarrow> h)" for n
    by (simp add: map_of_contents [OF inv] ac_granted_for_def split: option.splits)
  have "ac_len S \<le> origins"
    using hints.bounded [OF ac_start(1) len] unfolding ac_start assms(2) [symmetric]
    by (simp add: ac_len_def ac_contents_def)
  moreover have "fst (ac_granted_for n S) = parse_accept_ch field"
    if "ops = pre @ Put n field # post" "parse_accept_ch field \<noteq> {}" "\<forall>p \<in> set post. op_key p \<noteq> n"
      "card (op_key ` set post) < origins" for pre n field post
  proof -
    have "map_of (ac_contents S) n = Some (parse_accept_ch field)"
      using hints.remembered [of ?init pre n field post "parse_accept_ch field"] len that
      unfolding assms(2) that(1) by (simp add: ac_start ac_hints_def)
    then show ?thesis by (simp add: read)
  qed
  ultimately show ?thesis using contents read by blast
qed

theorem client_hints_are_lru_witness:
  "(let a = \<lparr>origin_scheme = ''https'', origin_host = ''a.test'', origin_port = 443\<rparr>;
        b = a\<lparr>origin_host := ''b.test''\<rparr>; c = a\<lparr>origin_host := ''c.test''\<rparr>;
        S = fold ac_run [Put a ''Sec-CH-UA-Arch, Sec-CH-UA-Model'', Put b ''Sec-CH-UA-Arch'', Touch a,
              Put c ''Sec-CH-UA-Bitness''] (ac_with_limits 2)
    in ac_len S \<le> 2 \<and> fst (ac_granted_for a S) = {Arch, Model} \<and> fst (ac_granted_for b S) = {}
       \<and> fst (ac_granted_for c S) = {Bitness})"
proof -
  let ?a = "\<lparr>origin_scheme = ''https'', origin_host = ''a.test'', origin_port = 443\<rparr>"
  let ?b = "?a\<lparr>origin_host := ''b.test''\<rparr>" and ?c = "?a\<lparr>origin_host := ''c.test''\<rparr>"
  let ?ops = "[Put ?a ''Sec-CH-UA-Arch, Sec-CH-UA-Model'', Put ?b ''Sec-CH-UA-Arch'', Touch ?a,
    Put ?c ''Sec-CH-UA-Bitness'']"
  have "ac_hints ''Sec-CH-UA-Arch, Sec-CH-UA-Model'' = Some {Arch, Model}" "ac_hints ''Sec-CH-UA-Arch'' = Some {Arch}"
    "ac_hints ''Sec-CH-UA-Bitness'' = Some {Bitness}" by code_simp+
  then have "fold (lru_step ac_hints 2 2) ?ops [] = [(?a, {Arch, Model}), (?c, {Bitness})]"
    by (simp add: lru_purge_def lru_put_def lru_use_def AList.delete_eq)
  then show ?thesis using client_hints_are_lru [of ?ops "fold ac_run ?ops (ac_with_limits 2)" 2] by (simp add: Let_def)
qed

end
