(* ===== verification/Validators.thy ===== *)
theory Validators
  imports Http_Core Lru
begin

text \<open>
  \<open>chromulate-http/src/validators.rs\<close>: the per-URL memory of \<open>ETag\<close> and \<open>Last-Modified\<close>, replayed as a
  conditional request. The hash map is an association list from the URL without its fragment
  (\<open>url[..Position::AfterQuery]\<close>, the parameter \<open>ux_key\<close>); the lock-free entry count \<open>stored\<close> is a field of
  the store, and every operation is one atomic step.
\<close>

section \<open>Validators of a response\<close>

record validators =
  va_etag :: "header_value option"
  va_last_modified :: "header_value option"

definition is_ascii_whitespace :: "char \<Rightarrow> bool" where
  "is_ascii_whitespace c \<longleftrightarrow> byte c \<in> {9, 10, 12, 13, 32}"

definition trim_ascii :: "string \<Rightarrow> string" where
  "trim_ascii s = rev (dropWhile is_ascii_whitespace (rev (dropWhile is_ascii_whitespace s)))"

definition usable :: "header_value option \<Rightarrow> header_value option" where
  "usable value = (case value of None \<Rightarrow> None | Some v \<Rightarrow> (if trim_ascii v = [] then None else Some v))"

definition va_is_empty :: "validators \<Rightarrow> bool" where
  "va_is_empty v \<longleftrightarrow> va_etag v = None \<and> va_last_modified v = None"

definition va_from_headers :: "header_map \<Rightarrow> validators option" where
  "va_from_headers headers =
     (let validators = \<lparr>va_etag = usable (hm_get headers ''etag''),
                        va_last_modified = usable (hm_get headers ''last-modified'')\<rparr>
      in if va_is_empty validators then None else Some validators)"

definition is_revalidatable :: "string \<Rightarrow> bool" where
  "is_revalidatable rm \<longleftrightarrow> rm = ''GET'' \<or> rm = ''HEAD''"

definition is_already_conditional :: "header_map \<Rightarrow> bool" where
  "is_already_conditional headers \<longleftrightarrow>
     hm_contains headers ''if-none-match'' \<or> hm_contains headers ''if-modified-since''
     \<or> hm_contains headers ''if-match'' \<or> hm_contains headers ''if-unmodified-since''
     \<or> hm_contains headers ''if-range''"

definition varies :: "header_map \<Rightarrow> bool" where
  "varies headers =
     list_ex (\<lambda>value. list_ex (\<lambda>field. trim_ascii field \<noteq> []) (split_by (\<lambda>c. c = CHR '','') value))
       (hm_get_all headers ''vary'')"

section \<open>The store\<close>

record va_entry =
  ve_validators :: validators
  ve_last_use_seq :: u64

record validator_store =
  vs_entries :: "(string \<times> va_entry) list"
  vs_stored :: nat
  vs_seq :: u64
  vs_capacity :: nat

definition vs_with_capacity :: "nat \<Rightarrow> validator_store" where
  "vs_with_capacity capacity = \<lparr>vs_entries = [], vs_stored = 0, vs_seq = 0, vs_capacity = max capacity 1\<rparr>"

definition default_url_capacity :: nat where
  "default_url_capacity = 4096"

definition vs_new :: validator_store where
  "vs_new = vs_with_capacity default_url_capacity"

definition vs_purge_batch :: "validator_store \<Rightarrow> nat" where
  "vs_purge_batch S = max (vs_capacity S div 10) 1"

definition vs_purge_target :: "validator_store \<Rightarrow> nat" where
  "vs_purge_target S = max (vs_capacity S - vs_purge_batch S) 1"

definition vs_evict :: "nat \<Rightarrow> nat \<Rightarrow> (string \<times> va_entry) list \<Rightarrow> (string \<times> va_entry) list" where
  "vs_evict capacity target entries =
     (if length entries \<le> capacity then entries
      else (let doomed = length entries - target;
                worst = fold (heap_step doomed) (map (\<lambda>(k, e). (ve_last_use_seq e, k)) entries) []
            in fold AList.delete (map snd worst) entries))"

definition vs_put :: "string \<Rightarrow> validators \<Rightarrow> validator_store \<Rightarrow> validator_store" where
  "vs_put key v S =
     (let entry = \<lparr>ve_validators = v, ve_last_use_seq = vs_seq S\<rparr>;
          entries = vs_evict (vs_capacity S) (vs_purge_target S) (AList.update key entry (vs_entries S))
      in S\<lparr>vs_entries := entries, vs_seq := vs_seq S + 1, vs_stored := length entries\<rparr>)"

definition vs_remove :: "string \<Rightarrow> validator_store \<Rightarrow> validators option \<times> validator_store" where
  "vs_remove key S =
     (if vs_stored S = 0 then (None, S)
      else (let entries = AList.delete key (vs_entries S)
            in (map_option ve_validators (map_of (vs_entries S) key),
                S\<lparr>vs_entries := entries, vs_stored := length entries\<rparr>)))"

definition vs_get :: "string \<Rightarrow> validator_store \<Rightarrow> validators option" where
  "vs_get key S =
     (if vs_stored S = 0 then None else map_option ve_validators (map_of (vs_entries S) key))"

definition vs_insert :: "string \<Rightarrow> validators \<Rightarrow> validator_store \<Rightarrow> validator_store" where
  "vs_insert key v S = (if va_is_empty v then snd (vs_remove key S) else vs_put key v S)"

definition vs_clear :: "validator_store \<Rightarrow> validator_store" where
  "vs_clear S = S\<lparr>vs_entries := [], vs_stored := 0\<rparr>"

definition vs_refresh :: "string \<Rightarrow> header_map \<Rightarrow> validator_store \<Rightarrow> validator_store" where
  "vs_refresh key headers S =
     (let etag = usable (hm_get headers ''etag'');
          last_modified = usable (hm_get headers ''last-modified'');
          seq = vs_seq S;
          S = S\<lparr>vs_seq := vs_seq S + 1\<rparr>
      in (case map_of (vs_entries S) key of
            None \<Rightarrow> S
          | Some entry \<Rightarrow>
              (let v = ve_validators entry;
                   v = (if etag \<noteq> None then v\<lparr>va_etag := etag\<rparr> else v);
                   v = (if last_modified \<noteq> None then v\<lparr>va_last_modified := last_modified\<rparr> else v)
               in S\<lparr>vs_entries := AList.update key \<lparr>ve_validators = v, ve_last_use_seq = seq\<rparr> (vs_entries S)\<rparr>)))"

text \<open>The part of \<open>condition\<close> under the read lock: look the entry up and mark it used.\<close>

definition vs_touch :: "string \<Rightarrow> validator_store \<Rightarrow> validators option \<times> validator_store" where
  "vs_touch key S =
     (case map_of (vs_entries S) key of
        None \<Rightarrow> (None, S)
      | Some entry \<Rightarrow>
          (Some (ve_validators entry),
           S\<lparr>vs_entries := AList.update key (entry\<lparr>ve_last_use_seq := vs_seq S\<rparr>) (vs_entries S),
             vs_seq := vs_seq S + 1\<rparr>))"

definition add_condition :: "validators \<Rightarrow> header_map \<Rightarrow> header_map" where
  "add_condition v headers =
     (let headers = (case va_etag v of Some etag \<Rightarrow> hm_insert ''if-none-match'' etag headers | None \<Rightarrow> headers)
      in (case va_last_modified v of Some d \<Rightarrow> hm_insert ''if-modified-since'' d headers | None \<Rightarrow> headers))"

definition vs_condition ::
  "url_ext \<Rightarrow> url \<Rightarrow> request \<Rightarrow> validator_store \<Rightarrow> request \<times> validator_store" where
  "vs_condition U u r S =
     (if vs_stored S = 0 then (r, S)
      else if \<not> is_revalidatable (rq_method r) \<or> is_already_conditional (rq_headers r) then (r, S)
      else (case vs_touch (ux_key U u) S of
              (None, S) \<Rightarrow> (r, S)
            | (Some v, S) \<Rightarrow> (r\<lparr>rq_headers := add_condition v (rq_headers r)\<rparr>, S)))"

definition vs_observe ::
  "url_ext \<Rightarrow> url \<Rightarrow> string \<Rightarrow> response \<Rightarrow> validator_store \<Rightarrow> validator_store" where
  "vs_observe U u rm rs S =
     (if \<not> is_revalidatable rm then S
      else if rs_status rs = 200 then
        (case (case va_from_headers (rs_headers rs) of
                 Some v \<Rightarrow> (if varies (rs_headers rs) then None else Some v) | None \<Rightarrow> None) of
           Some v \<Rightarrow> vs_put (ux_key U u) v S
         | None \<Rightarrow> snd (vs_remove (ux_key U u) S))
      else if rs_status rs = 304 then
        (if varies (rs_headers rs) then snd (vs_remove (ux_key U u) S)
         else vs_refresh (ux_key U u) (rs_headers rs) S)
      else S)"

section \<open>The eviction pass is least-recently-used\<close>

lemma sorted_pairs:
  assumes "sorted (map (\<lambda>e. f (snd e)) ys)" and "inj_on (\<lambda>e. f (snd e)) (set ys)" and "distinct ys"
  shows "sorted (map (\<lambda>(k, e). (f e :: u64, k :: string)) ys)"
  using assms
proof (induction ys)
  case (Cons y ys)
  have "f (snd y) < f (snd e)" if "e \<in> set ys" for e
    using Cons.prems that by (auto simp: inj_on_def order.strict_iff_order)
  with Cons show ?case by (auto simp: case_prod_beta less_eq_prod_def)
qed simp

lemma by_use_pairs:
  assumes "stamped f xs now"
  shows "sort (map (\<lambda>(k, e). (f e, k :: string)) xs) = map (\<lambda>(k, e). (f e, k)) (by_use f xs)"
proof (rule properties_for_sort)
  show "sorted (map (\<lambda>(k, e). (f e, k)) (by_use f xs))"
    by (rule sorted_pairs [OF by_use_sorted])
      (use assms distinct_by_use [of xs f] in \<open>auto simp: stamped_def distinct_map\<close>)
qed simp

lemma by_use_fold_delete: "by_use f (fold AList.delete ks xs) = fold AList.delete ks (by_use f xs)"
  by (induction ks arbitrary: xs) (simp_all add: by_use_delete)

lemma fold_delete_take:
  assumes "distinct (map fst ys)"
  shows "fold AList.delete (map fst (take d ys)) ys = drop d ys"
  using assms
proof (induction d arbitrary: ys)
  case (Suc d)
  show ?case
  proof (cases ys)
    case (Cons y zs)
    then have "AList.delete (fst y) ys = zs" using Suc.prems by (cases y) (simp add: delete_absent)
    then show ?thesis using Suc Cons by simp
  qed simp
qed simp

lemma vs_evict_by_use:
  assumes "stamped ve_last_use_seq entries now"
  shows "by_use ve_last_use_seq (vs_evict capacity target entries)
    = lru_purge capacity target (by_use ve_last_use_seq entries)"
proof -
  let ?ys = "by_use ve_last_use_seq entries" and ?d = "length entries - target"
  have "map snd (take ?d (map (\<lambda>(k, e). (ve_last_use_seq e, k)) ?ys)) = map fst (take ?d ?ys)"
    by (simp add: take_map comp_def case_prod_beta)
  then show ?thesis
    using assms fold_delete_take [OF distinct_by_use, of entries ?d ve_last_use_seq]
    by (simp add: vs_evict_def lru_purge_def fold_heap_step by_use_pairs [OF assms] by_use_fold_delete stamped_def)
qed

lemma set_fold_delete: "set (fold AList.delete ks xs) \<subseteq> set xs"
proof (induction ks arbitrary: xs)
  case (Cons k ks)
  have "set (fold AList.delete ks (AList.delete k xs)) \<subseteq> set (AList.delete k xs)" by (rule Cons)
  then show ?case by (auto simp: set_delete)
qed simp

lemma distinct_fold_delete: "distinct (map fst xs) \<Longrightarrow> distinct (map fst (fold AList.delete ks xs))"
  by (induction ks arbitrary: xs) (simp_all add: distinct_delete)

lemma vs_evict_subset:
  assumes "distinct (map fst entries)"
  shows "set (vs_evict capacity target entries) \<subseteq> set entries" and "distinct (map fst (vs_evict capacity target entries))"
  using assms set_fold_delete by (auto simp: vs_evict_def Let_def distinct_fold_delete)

section \<open>The invariant and the interface\<close>

definition vs_inv :: "validator_store \<Rightarrow> bool" where
  "vs_inv S \<longleftrightarrow> stamped ve_last_use_seq (vs_entries S) (vs_seq S) \<and> vs_stored S = length (vs_entries S)
     \<and> 1 \<le> vs_capacity S \<and> length (vs_entries S) \<le> vs_capacity S
     \<and> (\<forall>e \<in> set (vs_entries S). \<not> va_is_empty (ve_validators (snd e)))"

definition vs_contents :: "validator_store \<Rightarrow> (string \<times> validators) list" where
  "vs_contents S = map (\<lambda>(k, e). (k, ve_validators e)) (by_use ve_last_use_seq (vs_entries S))"

definition vs_stamps :: "validator_store \<Rightarrow> nat" where
  "vs_stamps S = unat (u64_max - vs_seq S)"

definition va_nonempty :: "validators \<Rightarrow> validators option" where
  "va_nonempty v = (if va_is_empty v then None else Some v)"

fun vs_run :: "(string, validators) lru_op \<Rightarrow> validator_store \<Rightarrow> validator_store" where
  "vs_run (Put k v) S = vs_insert k v S"
| "vs_run (Touch k) S = snd (vs_touch k S)"
| "vs_run (Forget k) S = snd (vs_remove k S)"

lemma map_delete_snd: "map (\<lambda>(k, e). (k, g e)) (AList.delete m xs) = AList.delete m (map (\<lambda>(k, e). (k, g e)) xs)"
  by (induction xs) (auto simp: AList.delete_eq)

lemma map_lru_put: "map (\<lambda>(k, e). (k, g e)) (lru_put m e xs) = lru_put m (g e) (map (\<lambda>(k, e). (k, g e)) xs)"
  by (simp add: lru_put_def map_delete_snd)

lemma map_lru_purge: "map h (lru_purge c t xs) = lru_purge c t (map h xs)"
  by (simp add: lru_purge_def drop_map)

lemma vs_target: "1 \<le> vs_capacity S \<Longrightarrow> vs_purge_target S \<le> vs_capacity S" "1 \<le> vs_purge_target S"
  by (simp_all add: vs_purge_target_def vs_purge_batch_def)

lemma vs_next_stamp:
  assumes "0 < vs_stamps S"
  shows "vs_seq S < vs_seq S + 1" and "vs_seq S' = vs_seq S + 1 \<Longrightarrow> vs_stamps S \<le> Suc (vs_stamps S')"
proof -
  have ne: "u64_max - vs_seq S \<noteq> 0" using assms by (auto simp: vs_stamps_def)
  then have "vs_seq S \<noteq> u64_max" by auto
  then show "vs_seq S < vs_seq S + 1" by (rule incr_greater)
  show "vs_stamps S \<le> Suc (vs_stamps S')" if "vs_seq S' = vs_seq S + 1"
    using unat_minus_one [OF ne] unfolding vs_stamps_def that diff_diff_eq by simp
qed

lemma map_of_vs_contents:
  assumes "vs_inv S"
  shows "map_of (vs_contents S) k = map_option ve_validators (map_of (vs_entries S) k)"
proof -
  have "distinct (map fst (vs_entries S))" using assms by (simp add: vs_inv_def stamped_def)
  then show ?thesis by (simp add: vs_contents_def map_of_map map_of_by_use)
qed

lemma vs_get_contents: "vs_inv S \<Longrightarrow> vs_get k S = map_of (vs_contents S) k"
  by (auto simp: vs_get_def map_of_vs_contents vs_inv_def)

lemma vs_put_spec:
  assumes "vs_inv S" and "0 < vs_stamps S" and "\<not> va_is_empty v"
  shows "vs_inv (vs_put k v S)"
    and "vs_contents (vs_put k v S) = lru_purge (vs_capacity S) (vs_purge_target S) (lru_put k v (vs_contents S))"
    and "vs_seq (vs_put k v S) = vs_seq S + 1 \<and> vs_capacity (vs_put k v S) = vs_capacity S"
proof -
  let ?e = "\<lparr>ve_validators = v, ve_last_use_seq = vs_seq S\<rparr>"
  let ?xs = "AList.update k ?e (vs_entries S)" and ?f = ve_last_use_seq
  let ?ys = "vs_evict (vs_capacity S) (vs_purge_target S) ?xs"
  have st: "stamped ?f (vs_entries S) (vs_seq S)" using assms(1) by (simp add: vs_inv_def)
  have new: "stamped ?f ?xs (vs_seq S + 1)" and use: "by_use ?f ?xs = lru_put k ?e (by_use ?f (vs_entries S))"
    using stamped_touch [OF st, of ?e k] vs_next_stamp(1) [OF assms(2)] by simp_all
  have d: "distinct (map fst ?xs)" using new by (simp add: stamped_def)
  have purge: "by_use ?f ?ys = lru_purge (vs_capacity S) (vs_purge_target S) (lru_put k ?e (by_use ?f (vs_entries S)))"
    by (simp add: vs_evict_by_use [OF new] use)
  have "length ?ys \<le> vs_capacity S"
    using arg_cong [OF purge, of length] vs_target [of S] assms(1) by (simp add: lru_purge_def vs_inv_def)
  moreover have "stamped ?f ?ys (vs_seq S + 1)" using stamped_subset [OF new] vs_evict_subset [OF d] by blast
  moreover have "\<not> va_is_empty (ve_validators (snd e))" if "e \<in> set ?ys" for e
    using vs_evict_subset(1) [OF d] that update_memD [of "fst e" "snd e" k ?e "vs_entries S"] assms(1, 3)
    by (force simp: vs_inv_def)
  ultimately show "vs_inv (vs_put k v S)" using assms(1) by (simp add: vs_inv_def vs_put_def Let_def)
  show "vs_contents (vs_put k v S) = lru_purge (vs_capacity S) (vs_purge_target S) (lru_put k v (vs_contents S))"
    by (simp add: vs_put_def Let_def vs_contents_def purge map_lru_purge map_lru_put)
qed (simp add: vs_put_def Let_def)

lemma vs_remove_eq:
  assumes "vs_inv S"
  shows "snd (vs_remove k S) = S\<lparr>vs_entries := AList.delete k (vs_entries S),
    vs_stored := length (AList.delete k (vs_entries S))\<rparr>"
proof (cases "vs_entries S = []")
  case True
  with assms have "vs_stored S = 0" by (simp add: vs_inv_def)
  with True show ?thesis by (simp add: vs_remove_def)
next
  case False
  with assms have "vs_stored S \<noteq> 0" by (simp add: vs_inv_def)
  then show ?thesis by (simp add: vs_remove_def Let_def)
qed

lemma vs_remove_spec:
  assumes "vs_inv S"
  shows "vs_inv (snd (vs_remove k S))" and "vs_contents (snd (vs_remove k S)) = AList.delete k (vs_contents S)"
    and "vs_seq (snd (vs_remove k S)) = vs_seq S \<and> vs_capacity (snd (vs_remove k S)) = vs_capacity S"
proof -
  have st: "stamped ve_last_use_seq (vs_entries S) (vs_seq S)" using assms by (simp add: vs_inv_def)
  have d: "distinct (map fst (AList.delete k (vs_entries S)))"
    using st unfolding stamped_def by (intro distinct_delete) simp
  have "stamped ve_last_use_seq (AList.delete k (vs_entries S)) (vs_seq S)"
    by (rule stamped_subset [OF st _ d]) (auto simp: set_delete)
  moreover have "length (AList.delete k (vs_entries S)) \<le> vs_capacity S"
    using length_delete_le [of k "vs_entries S"] assms by (simp add: vs_inv_def)
  moreover have "\<forall>e \<in> set (AList.delete k (vs_entries S)). \<not> va_is_empty (ve_validators (snd e))"
    using assms by (simp add: vs_inv_def set_delete)
  ultimately show "vs_inv (snd (vs_remove k S))"
    using assms by (simp add: vs_inv_def vs_remove_eq)
  show "vs_contents (snd (vs_remove k S)) = AList.delete k (vs_contents S)"
    by (simp add: vs_remove_eq [OF assms] vs_contents_def by_use_delete map_delete_snd)
  show "vs_seq (snd (vs_remove k S)) = vs_seq S \<and> vs_capacity (snd (vs_remove k S)) = vs_capacity S"
    by (simp add: vs_remove_eq [OF assms])
qed

text \<open>Restamping an entry, with new validators: what a hit and a \<open>304\<close> do.\<close>

lemma restamp_spec:
  assumes "vs_inv S" and "0 < vs_stamps S" and "k \<in> fst ` set (vs_entries S)" and "\<not> va_is_empty v"
  defines "S' \<equiv> S\<lparr>vs_entries := AList.update k \<lparr>ve_validators = v, ve_last_use_seq = vs_seq S\<rparr> (vs_entries S),
                  vs_seq := vs_seq S + 1\<rparr>"
  shows "vs_inv S'" and "vs_contents S' = lru_put k v (vs_contents S)"
proof -
  let ?e = "\<lparr>ve_validators = v, ve_last_use_seq = vs_seq S\<rparr>"
  let ?xs = "AList.update k ?e (vs_entries S)" and ?f = ve_last_use_seq
  have st: "stamped ?f (vs_entries S) (vs_seq S)" using assms(1) by (simp add: vs_inv_def)
  have new: "stamped ?f ?xs (vs_seq S + 1)" and use: "by_use ?f ?xs = lru_put k ?e (by_use ?f (vs_entries S))"
    using stamped_touch [OF st, of ?e k] vs_next_stamp(1) [OF assms(2)] by simp_all
  have "length (map fst ?xs) = length (map fst (vs_entries S))" using assms(3) by (subst update_keys) simp
  then have "length ?xs = length (vs_entries S)" by simp
  moreover have "\<not> va_is_empty (ve_validators (snd e))" if "e \<in> set ?xs" for e
    using that update_memD [of "fst e" "snd e" k ?e "vs_entries S"] assms(1, 4) by (force simp: vs_inv_def)
  ultimately show "vs_inv S'" using assms(1) new by (simp add: vs_inv_def S'_def)
  show "vs_contents S' = lru_put k v (vs_contents S)" by (simp add: S'_def vs_contents_def use map_lru_put)
qed

lemma touch_eq:
  assumes "map_of (vs_entries S) k = Some e"
  shows "snd (vs_touch k S) = S\<lparr>vs_entries := AList.update k
      \<lparr>ve_validators = ve_validators e, ve_last_use_seq = vs_seq S\<rparr> (vs_entries S), vs_seq := vs_seq S + 1\<rparr>"
  using assms by (cases e) (simp add: vs_touch_def)

lemma stored_nonempty:
  assumes "vs_inv S" and "map_of (vs_entries S) k = Some e"
  shows "\<not> va_is_empty (ve_validators e)" and "k \<in> fst ` set (vs_entries S)"
  using assms map_of_SomeD [OF assms(2)] by (force simp: vs_inv_def)+

lemma vs_step:
  assumes "vs_inv S" and "0 < vs_stamps S"
  shows "vs_inv (vs_run p S) \<and> vs_capacity (vs_run p S) = vs_capacity S \<and> vs_stamps S \<le> Suc (vs_stamps (vs_run p S))
    \<and> vs_contents (vs_run p S) = lru_step va_nonempty (vs_capacity S) (vs_purge_target S) p (vs_contents S)"
proof (cases p)
  case (Put k v)
  then show ?thesis
    using vs_put_spec [OF assms, of v k] vs_remove_spec [OF assms(1), of k] vs_next_stamp(2) [OF assms(2), of "vs_put k v S"]
    by (cases "va_is_empty v") (simp_all add: vs_insert_def va_nonempty_def vs_stamps_def)
next
  case (Touch k)
  show ?thesis
  proof (cases "map_of (vs_entries S) k")
    case None
    with Touch assms(1) show ?thesis by (simp add: vs_touch_def lru_use_def map_of_vs_contents)
  next
    case (Some e)
    note R = restamp_spec [OF assms stored_nonempty(2) [OF assms(1) Some] stored_nonempty(1) [OF assms(1) Some]]
    show ?thesis
      using R Touch Some vs_next_stamp(2) [OF assms(2), of "snd (vs_touch k S)"]
      by (simp add: touch_eq lru_use_def map_of_vs_contents [OF assms(1)])
  qed
next
  case (Forget k)
  then show ?thesis using vs_remove_spec [OF assms(1), of k] by (simp add: vs_stamps_def)
qed

interpretation vals: lru_store vs_contents vs_inv vs_stamps vs_capacity vs_purge_target va_nonempty vs_run
proof (unfold_locales, goal_cases)
  case (1 S)
  then have "distinct (map fst (by_use ve_last_use_seq (vs_entries S)))"
    by (intro distinct_by_use) (simp add: vs_inv_def stamped_def)
  then show ?case by (simp add: vs_contents_def comp_def case_prod_beta)
next
  case (2 S)
  then show ?case by (simp add: vs_target vs_inv_def)
next
  case (3 S p)
  then show ?case using vs_step [of S p]
    by (simp add: vs_purge_target_def vs_purge_batch_def)
qed

section \<open>What was last seen\<close>

definition refreshed_by :: "header_map \<Rightarrow> validators \<Rightarrow> validators" where
  "refreshed_by headers v =
     \<lparr>va_etag = (case usable (hm_get headers ''etag'') of None \<Rightarrow> va_etag v | Some t \<Rightarrow> Some t),
      va_last_modified = (case usable (hm_get headers ''last-modified'') of None \<Rightarrow> va_last_modified v | Some d \<Rightarrow> Some d)\<rparr>"

text \<open>The validators of the representation a response leaves the caller with: a \<open>200\<close> brings its own, a
  \<open>304\<close> confirms and updates the ones before, and \<open>Vary\<close> makes them unusable.\<close>

definition leaves :: "response \<Rightarrow> validators option \<Rightarrow> validators option" where
  "leaves rs old =
     (if rs_status rs = 200 then (if varies (rs_headers rs) then None else va_from_headers (rs_headers rs))
      else if rs_status rs = 304 then (if varies (rs_headers rs) then None else map_option (refreshed_by (rs_headers rs)) old)
      else old)"

type_synonym observation = "url \<times> string \<times> response"

definition last_seen :: "url_ext \<Rightarrow> observation list \<Rightarrow> string \<Rightarrow> validators option" where
  "last_seen U history key =
     fold (\<lambda>(u, rm, rs) old. if is_revalidatable rm \<and> ux_key U u = key then leaves rs old else old) history None"

definition vs_learn :: "url_ext \<Rightarrow> observation \<Rightarrow> validator_store \<Rightarrow> validator_store" where
  "vs_learn U ob S = (case ob of (u, rm, rs) \<Rightarrow> vs_observe U u rm rs S)"

lemma last_seen_snoc:
  "last_seen U (history @ [(u, rm, rs)]) =
    (if is_revalidatable rm then (last_seen U history)(ux_key U u := leaves rs (last_seen U history (ux_key U u)))
     else last_seen U history)"
  by (auto simp: last_seen_def)

lemma vs_refresh_eq:
  "vs_refresh k headers S = (case map_of (vs_entries S) k of None \<Rightarrow> S\<lparr>vs_seq := vs_seq S + 1\<rparr>
     | Some e \<Rightarrow> S\<lparr>vs_entries := AList.update k \<lparr>ve_validators = refreshed_by headers (ve_validators e),
         ve_last_use_seq = vs_seq S\<rparr> (vs_entries S), vs_seq := vs_seq S + 1\<rparr>)"
proof (cases "map_of (vs_entries S) k")
  case (Some e)
  obtain t d where v: "ve_validators e = \<lparr>va_etag = t, va_last_modified = d\<rparr>" by (cases "ve_validators e")
  show ?thesis
    by (cases S) (use Some in \<open>auto simp: vs_refresh_def refreshed_by_def Let_def v split: option.splits\<close>)
qed (simp add: vs_refresh_def Let_def)

lemma refreshed_nonempty: "\<not> va_is_empty v \<Longrightarrow> \<not> va_is_empty (refreshed_by headers v)"
  by (auto simp: va_is_empty_def refreshed_by_def split: option.splits)

lemma vs_refresh_spec:
  assumes "vs_inv S" and "0 < vs_stamps S"
  shows "vs_inv (vs_refresh k headers S)" and "vs_capacity (vs_refresh k headers S) = vs_capacity S"
    and "vs_seq (vs_refresh k headers S) = vs_seq S + 1"
    and "map_of (vs_contents (vs_refresh k headers S))
      = (map_of (vs_contents S))(k := map_option (refreshed_by headers) (map_of (vs_contents S) k))"
proof -
  have "vs_inv (vs_refresh k headers S) \<and> map_of (vs_contents (vs_refresh k headers S))
      = (map_of (vs_contents S))(k := map_option (refreshed_by headers) (map_of (vs_contents S) k))"
  proof (cases "map_of (vs_entries S) k")
    case None
    have "stamped ve_last_use_seq (vs_entries S) (vs_seq S + 1)"
      using assms(1) vs_next_stamp(1) [OF assms(2)] by (auto simp: vs_inv_def stamped_def intro: less_trans)
    with None assms(1) show ?thesis
      by (simp add: vs_refresh_eq vs_inv_def map_of_vs_contents [OF assms(1)])
        (simp add: vs_contents_def map_of_vs_contents [OF assms(1), unfolded vs_contents_def] fun_upd_idem)
  next
    case (Some e)
    have "\<not> va_is_empty (refreshed_by headers (ve_validators e))"
      by (rule refreshed_nonempty [OF stored_nonempty(1) [OF assms(1) Some]])
    note R = restamp_spec [OF assms stored_nonempty(2) [OF assms(1) Some] this]
    with Some show ?thesis by (simp add: vs_refresh_eq map_of_lru_put map_of_vs_contents [OF assms(1)])
  qed
  then show "vs_inv (vs_refresh k headers S)" and "map_of (vs_contents (vs_refresh k headers S))
      = (map_of (vs_contents S))(k := map_option (refreshed_by headers) (map_of (vs_contents S) k))" by simp_all
qed (simp_all add: vs_refresh_eq split: option.splits)

lemma purge_le:
  assumes "distinct (map fst xs)"
  shows "map_of (lru_purge c t xs) \<subseteq>\<^sub>m map_of xs"
  by (rule map_of_subset [OF assms]) (auto simp: lru_purge_def dest: in_set_dropD)

lemma distinct_lru_put: "distinct (map fst xs) \<Longrightarrow> distinct (map fst (lru_put k v xs))"
  by (auto simp: lru_put_def distinct_delete set_delete)

text \<open>What one observation does to the contents: the last-seen update, up to an eviction that runs only when
  the store is above its capacity.\<close>

lemma learn_step:
  assumes inv: "vs_inv S" and stamps: "0 < vs_stamps S"
    and S'_def: "S' = vs_observe U u rm rs S" and m_def: "m = map_of (vs_contents S)"
    and m'_def: "m' = (if is_revalidatable rm then m(ux_key U u := leaves rs (m (ux_key U u))) else m)"
  shows "vs_inv S' \<and> vs_capacity S' = vs_capacity S \<and> vs_stamps S \<le> Suc (vs_stamps S')
    \<and> map_of (vs_contents S') \<subseteq>\<^sub>m m' \<and> (card (dom m') \<le> vs_capacity S \<longrightarrow> map_of (vs_contents S') = m')"
proof (cases "is_revalidatable rm \<and> rs_status rs = 200 \<and> \<not> varies (rs_headers rs) \<and> va_from_headers (rs_headers rs) \<noteq> None")
  case True
  let ?k = "ux_key U u"
  obtain v where v: "va_from_headers (rs_headers rs) = Some v" using True by auto
  then have ne: "\<not> va_is_empty v" by (auto simp: va_from_headers_def Let_def split: if_splits)
  have S': "S' = vs_put ?k v S" and m': "m' = m(?k \<mapsto> v)"
    using True v by (simp_all add: S'_def vs_observe_def m'_def leaves_def)
  note P = vs_put_spec [OF inv stamps ne, of ?k]
  have d: "distinct (map fst (lru_put ?k v (vs_contents S)))" by (rule distinct_lru_put [OF vals.distinct [OF inv]])
  have put: "map_of (lru_put ?k v (vs_contents S)) = m'" by (simp add: map_of_lru_put m' m_def)
  have "length (lru_put ?k v (vs_contents S)) = card (dom m')"
    using d by (simp add: put [symmetric] dom_map_of_conv_image_fst) (metis distinct_card length_map list.set_map)
  then have "map_of (vs_contents S') = m'" if "card (dom m') \<le> vs_capacity S"
    using that put by (simp add: S' P(2) lru_purge_def)
  moreover have "map_of (vs_contents S') \<subseteq>\<^sub>m m'" using purge_le [OF d] by (simp add: S' P(2) put)
  ultimately show ?thesis using P vs_next_stamp(2) [OF stamps, of S'] by (simp add: S')
next
  case False
  consider (same) "S' = S" "m' = m" | (remove) "S' = snd (vs_remove (ux_key U u) S)" "m' = m(ux_key U u := None)"
    | (refresh) "S' = vs_refresh (ux_key U u) (rs_headers rs) S"
        "m' = m(ux_key U u := map_option (refreshed_by (rs_headers rs)) (m (ux_key U u)))"
    using False by (cases "is_revalidatable rm"; cases "rs_status rs = 200"; cases "rs_status rs = 304";
        cases "varies (rs_headers rs)"; cases "va_from_headers (rs_headers rs)")
      (auto simp: S'_def m'_def vs_observe_def leaves_def)
  then show ?thesis
  proof cases
    case same
    with inv show ?thesis by (simp add: m_def)
  next
    case remove
    with vs_remove_spec [OF inv, of "ux_key U u"] show ?thesis
      by (simp add: delete_conv' m_def vs_stamps_def)
  next
    case refresh
    with vs_refresh_spec [OF inv stamps, of "ux_key U u" "rs_headers rs"] vs_next_stamp(2) [OF stamps, of S']
    show ?thesis by (simp add: m_def)
  qed
qed

lemma map_le_leaves:
  assumes "m \<subseteq>\<^sub>m n"
  shows "m(k := leaves rs (m k)) \<subseteq>\<^sub>m n(k := leaves rs (n k))"
proof (cases "m k")
  case None
  with assms show ?thesis by (auto simp: map_le_def dom_def leaves_def)
next
  case (Some v)
  with assms have "n k = Some v" by (force simp: map_le_def)
  with Some assms show ?thesis by (auto simp: map_le_def dom_def)
qed

abbreviation observed_keys :: "url_ext \<Rightarrow> observation list \<Rightarrow> string set" where
  "observed_keys U history \<equiv> (\<lambda>ob. ux_key U (fst ob)) ` set history"

lemma last_seen_dom: "dom (last_seen U history) \<subseteq> observed_keys U history"
proof (induction history rule: rev_induct)
  case (snoc ob history)
  then show ?case by (cases ob) (auto simp: last_seen_snoc split: if_splits)
qed (simp add: last_seen_def)

lemma learn_history:
  assumes "length history < 2 ^ 64" and "S = fold (vs_learn U) history (vs_with_capacity capacity)"
  shows "vs_inv S \<and> vs_capacity S = max capacity 1 \<and> 2 ^ 64 - 1 \<le> length history + vs_stamps S
    \<and> map_of (vs_contents S) \<subseteq>\<^sub>m last_seen U history
    \<and> (card (observed_keys U history) \<le> max capacity 1 \<longrightarrow> map_of (vs_contents S) = last_seen U history)"
  using assms
proof (induction history arbitrary: S rule: rev_induct)
  case Nil
  then show ?case
    by (simp add: vs_with_capacity_def vs_inv_def stamped_def vs_contents_def by_use_def last_seen_def vs_stamps_def
        u64_max_def unsigned_minus_1_eq_mask mask_eq_exp_minus_1 fun_eq_iff)
next
  case (snoc ob history)
  let ?S = "fold (vs_learn U) history (vs_with_capacity capacity)" and ?seen = "last_seen U (history @ [ob])"
  obtain u rm rs where ob: "ob = (u, rm, rs)" by (cases ob)
  have IH: "vs_inv ?S" "vs_capacity ?S = max capacity 1" "2 ^ 64 - 1 \<le> length history + vs_stamps ?S"
    "map_of (vs_contents ?S) \<subseteq>\<^sub>m last_seen U history"
    "card (observed_keys U history) \<le> max capacity 1 \<Longrightarrow> map_of (vs_contents ?S) = last_seen U history"
    using snoc.IH [OF _ refl] snoc.prems(1) by auto
  have S: "S = vs_observe U u rm rs ?S" using snoc.prems(2) by (simp add: ob vs_learn_def [of U "(u, rm, rs)"])
  have stamps: "0 < vs_stamps ?S" using IH(3) snoc.prems(1) by simp
  note L = learn_step [OF IH(1) stamps S refl refl]
  have le: "map_of (vs_contents S) \<subseteq>\<^sub>m ?seen"
    using L map_le_leaves [OF IH(4), of "ux_key U u" rs] IH(4) map_le_trans
    by (auto simp: ob last_seen_snoc split: if_splits)
  have "map_of (vs_contents S) = ?seen" if fits: "card (observed_keys U (history @ [ob])) \<le> max capacity 1"
  proof -
    have "card (observed_keys U history) \<le> card (observed_keys U (history @ [ob]))" by (rule card_mono) auto
    then have "map_of (vs_contents ?S) = last_seen U history" using fits IH(5) by simp
    moreover have "card (dom ?seen) \<le> card (observed_keys U (history @ [ob]))"
      by (rule card_mono [OF _ last_seen_dom]) simp
    ultimately show ?thesis using L fits IH(2) by (simp add: ob last_seen_snoc split: if_splits)
  qed
  then show ?case using L IH(2, 3) le by simp
qed

lemma condition_eq:
  assumes inv: "vs_inv S"
  shows "fst (vs_condition U u r S) =
    (if is_revalidatable (rq_method r) \<and> \<not> is_already_conditional (rq_headers r)
     then (case map_of (vs_contents S) (ux_key U u) of None \<Rightarrow> r
           | Some v \<Rightarrow> r\<lparr>rq_headers := add_condition v (rq_headers r)\<rparr>) else r)"
proof (cases "vs_entries S = []")
  case True
  with inv have "vs_stored S = 0" by (simp add: vs_inv_def)
  with True show ?thesis by (simp add: vs_condition_def map_of_vs_contents [OF inv])
next
  case False
  with inv have "vs_stored S \<noteq> 0" by (simp add: vs_inv_def)
  then show ?thesis
    by (cases "map_of (vs_entries S) (ux_key U u)")
      (simp_all add: vs_condition_def vs_touch_def map_of_vs_contents [OF inv])
qed

section \<open>Properties\<close>

text \<open>C17: The validator store never replays a stale or foreign validator: after any observed responses it holds
  at most its capacity of URLs, and the conditional fields it adds to a request are exactly the validators
  of the representation the caller last saw at that URL (a \<open>200\<close> replaces them, a \<open>304\<close> updates them,
  \<open>Vary\<close> discards them), or none; they are never missing while the URLs seen fit the capacity. Requests
  of other methods and requests that are already conditional are left alone.\<close>
theorem validators_replay_last_seen:
  assumes "length history < 2 ^ 64" and "S = fold (vs_learn U) history (vs_with_capacity capacity)"
  shows "length (vs_entries S) \<le> max capacity 1
    \<and> (\<forall>u r. fst (vs_condition U u r S) = r
        \<or> is_revalidatable (rq_method r) \<and> \<not> is_already_conditional (rq_headers r)
          \<and> (\<exists>v. last_seen U history (ux_key U u) = Some v
              \<and> fst (vs_condition U u r S) = r\<lparr>rq_headers := add_condition v (rq_headers r)\<rparr>))
    \<and> (card (observed_keys U history) \<le> max capacity 1 \<longrightarrow>
        (\<forall>u r v. last_seen U history (ux_key U u) = Some v \<and> is_revalidatable (rq_method r)
          \<and> \<not> is_already_conditional (rq_headers r)
          \<longrightarrow> fst (vs_condition U u r S) = r\<lparr>rq_headers := add_condition v (rq_headers r)\<rparr>))"
proof -
  note H = learn_history [OF assms]
  have inv: "vs_inv S" using H by simp
  note cond = condition_eq [OF inv]
  have "length (vs_entries S) \<le> max capacity 1" using inv H by (simp add: vs_inv_def)
  moreover have "fst (vs_condition U u r S) = r
        \<or> is_revalidatable (rq_method r) \<and> \<not> is_already_conditional (rq_headers r)
          \<and> (\<exists>v. last_seen U history (ux_key U u) = Some v
              \<and> fst (vs_condition U u r S) = r\<lparr>rq_headers := add_condition v (rq_headers r)\<rparr>)" for u r
  proof (cases "map_of (vs_contents S) (ux_key U u)")
    case None
    then show ?thesis by (simp add: cond)
  next
    case (Some v)
    then have "last_seen U history (ux_key U u) = Some v" using H by (force simp: map_le_def)
    with Some show ?thesis by (simp add: cond)
  qed
  ultimately show ?thesis using H by (simp add: cond)
qed

definition page_history :: "observation list" where
  "page_history =
     [(sample_page, ''GET'', \<lparr>rs_status = 200, rs_headers = [(''etag'', ''1'')], rs_body = BodyEmpty\<rparr>),
      (sample_page, ''GET'', \<lparr>rs_status = 304, rs_headers = [(''etag'', ''2'')], rs_body = BodyEmpty\<rparr>),
      (sample_page, ''POST'', \<lparr>rs_status = 200, rs_headers = [(''etag'', ''3'')], rs_body = BodyEmpty\<rparr>)]"

theorem validators_replay_last_seen_witness:
  "rq_headers (fst (vs_condition sample_url_ext sample_page sample_get
       (fold (vs_learn sample_url_ext) page_history (vs_with_capacity 8)))) = [(''if-none-match'', ''2'')]"
proof -
  have len: "length page_history < 2 ^ 64" by (simp add: page_history_def)
  have seen: "last_seen sample_url_ext page_history (ux_key sample_url_ext sample_page)
      = Some \<lparr>va_etag = Some ''2'', va_last_modified = None\<rparr>" by code_simp
  have fits: "card (observed_keys sample_url_ext page_history) \<le> max 8 1" by code_simp
  have get: "is_revalidatable (rq_method sample_get)" "\<not> is_already_conditional (rq_headers sample_get)" by code_simp+
  have add: "rq_headers (sample_get\<lparr>rq_headers := add_condition \<lparr>va_etag = Some ''2'', va_last_modified = None\<rparr> (rq_headers sample_get)\<rparr>)
      = [(''if-none-match'', ''2'')]" by code_simp
  show ?thesis using validators_replay_last_seen [OF len refl, of sample_url_ext 8] seen fits get add by simp
qed

end
