(* ===== verification/Profile.thy ===== *)
theory Profile
  imports Http_Core
begin

text \<open>
  The part of \<open>chromulate-profile/src/profile.rs\<close> the header engine reads: platforms, client-hint brands and
  their list syntax, header orders, and building a profile from a capture. A formatted configuration error is
  the constructor that names it with the texts it quotes. The TLS and HTTP/2 fingerprints and the provenance
  a profile carries are type parameters: nothing here looks inside them.
\<close>

section \<open>Platforms\<close>

datatype platform = MacOs | Windows | Linux | Android | Ios | OtherPlatform string

definition client_hint :: "platform \<Rightarrow> string" where
  "client_hint p =
     (case p of MacOs \<Rightarrow> ''macOS'' | Windows \<Rightarrow> ''Windows'' | Linux \<Rightarrow> ''Linux'' | Android \<Rightarrow> ''Android''
      | Ios \<Rightarrow> ''iOS'' | OtherPlatform name \<Rightarrow> name)"

text \<open>\<open>str::find\<close> and \<open>str::contains\<close> for a string pattern.\<close>

fun find_str :: "string \<Rightarrow> string \<Rightarrow> nat option" where
  "find_str pat [] = (if pat = [] then Some 0 else None)"
| "find_str pat (c # cs) =
     (if prefix pat (c # cs) then Some 0 else map_option Suc (find_str pat cs))"

definition str_contains :: "string \<Rightarrow> string \<Rightarrow> bool" where
  "str_contains s pat \<longleftrightarrow> find_str pat s \<noteq> None"

definition platform_from_user_agent :: "string \<Rightarrow> platform option" where
  "platform_from_user_agent ua =
     (if str_contains ua ''Android'' then Some Android
      else if str_contains ua ''iPhone'' \<or> str_contains ua ''iPad'' \<or> str_contains ua ''iPod'' then Some Ios
      else if str_contains ua ''Macintosh'' \<or> str_contains ua ''Mac OS X'' then Some MacOs
      else if str_contains ua ''Windows'' then Some Windows
      else if str_contains ua ''Linux'' \<or> str_contains ua ''X11'' then Some Linux
      else None)"

text \<open>\<open>s.split(pat).nth(1)\<close>: what stands between the first and the second occurrence.\<close>

definition split_nth1 :: "string \<Rightarrow> string \<Rightarrow> string option" where
  "split_nth1 pat s =
     (case find_str pat s of
        None \<Rightarrow> None
      | Some i \<Rightarrow>
          (let rest = drop (i + length pat) s
           in Some (case find_str pat rest of None \<Rightarrow> rest | Some j \<Rightarrow> take j rest)))"

definition products :: "(string \<times> string) list" where
  "products = [(''Edg/'', ''edge''), (''OPR/'', ''opera''), (''Chrome/'', ''chrome''),
     (''Firefox/'', ''firefox''), (''Version/'', ''safari'')]"

fun identify :: "string \<Rightarrow> (string \<times> string) list \<Rightarrow> (string \<times> string) option" where
  "identify ua [] = None"
| "identify ua ((token, name) # rest_products) =
     (case split_nth1 token ua of
        Some rest \<Rightarrow>
          (let version = takeWhile (\<lambda>c. is_ascii_digit c \<or> c = CHR ''.'') rest
           in if version \<noteq> [] then Some (name, version) else identify ua rest_products)
      | None \<Rightarrow> identify ua rest_products)"

definition browser_identity :: "string \<Rightarrow> (string \<times> string) option" where
  "browser_identity ua = identify ua products"

section \<open>Brand lists\<close>

record brand =
  br_brand :: string
  br_version :: string

datatype profile_error = NoVersionParameter string | TrailingText string string
  | ExpectedQuoted string | UnterminatedQuoted string | UnknownBrowser string | UnknownPlatform string
  | CaptureError string

abbreviation quote :: char where
  "quote \<equiv> CHR 34"

fun split_outside :: "bool \<Rightarrow> string \<Rightarrow> string list" where
  "split_outside quoted [] = [[]]"
| "split_outside quoted (c # cs) =
     (if c = quote then (case split_outside (\<not> quoted) cs of [] \<Rightarrow> [[c]] | w # ws \<Rightarrow> (c # w) # ws)
      else if c = CHR '','' \<and> \<not> quoted then [] # split_outside quoted cs
      else (case split_outside quoted cs of [] \<Rightarrow> [[c]] | w # ws \<Rightarrow> (c # w) # ws))"

definition split_outside_quotes :: "string \<Rightarrow> string list" where
  "split_outside_quotes s = split_outside False s"

definition read_quoted :: "string \<Rightarrow> profile_error + (string \<times> string)" where
  "read_quoted inp =
     (case strip_prefix [quote] inp of
        None \<Rightarrow> Inl (ExpectedQuoted inp)
      | Some rest \<Rightarrow>
          (case split_once quote rest of
             None \<Rightarrow> Inl (UnterminatedQuoted inp)
           | Some (text, tail) \<Rightarrow> Inr (text, tail)))"

definition parse_brand :: "string \<Rightarrow> profile_error + brand" where
  "parse_brand entry =
     (case read_quoted entry of
        Inl e \<Rightarrow> Inl e
      | Inr (br, rest) \<Rightarrow>
          (case Option.bind (map_option trim_start (strip_prefix '';'' (trim_start rest))) (strip_prefix ''v='') of
             None \<Rightarrow> Inl (NoVersionParameter entry)
           | Some rest \<Rightarrow>
               (case read_quoted rest of
                  Inl e \<Rightarrow> Inl e
                | Inr (ver, tail) \<Rightarrow>
                    (if trim tail \<noteq> [] then Inl (TrailingText entry tail)
                     else Inr \<lparr>br_brand = br, br_version = ver\<rparr>))))"

fun parse_entries :: "string list \<Rightarrow> brand list \<Rightarrow> profile_error + brand list" where
  "parse_entries [] brands = Inr brands"
| "parse_entries (e # es) brands =
     (let entry = trim e
      in if entry = [] then parse_entries es brands
         else (case parse_brand entry of Inl err \<Rightarrow> Inl err | Inr b \<Rightarrow> parse_entries es (brands @ [b])))"

definition parse_brand_list :: "string \<Rightarrow> profile_error + brand list" where
  "parse_brand_list s = parse_entries (split_outside_quotes s) []"

definition render_brand :: "brand \<Rightarrow> string" where
  "render_brand b = quote # br_brand b @ quote # '';v='' @ quote # br_version b @ [quote]"

definition render_brand_list :: "brand list \<Rightarrow> string" where
  "render_brand_list brands = join_with '', '' (map render_brand brands)"

section \<open>Profiles\<close>

record profile_header_order =
  ho_navigate :: "string list"
  ho_subresource :: "string list option"

definition subresource_or_navigate :: "profile_header_order \<Rightarrow> string list" where
  "subresource_or_navigate ho = (case ho_subresource ho of Some names \<Rightarrow> names | None \<Rightarrow> ho_navigate ho)"

record ('h, 'p, 'v) profile =
  pf_name :: string
  pf_version :: string
  pf_platform :: platform
  pf_user_agent :: string
  pf_client_hint_brands :: "brand list"
  pf_client_hello :: 'h
  pf_http2 :: 'p
  pf_accept :: string
  pf_accept_language :: string
  pf_accept_encoding :: string
  pf_header_order :: profile_header_order
  pf_observed_headers :: "(string \<times> string) list"
  pf_provenance :: "'v option"

definition sec_ch_ua :: "('h, 'p, 'v) profile \<Rightarrow> string" where
  "sec_ch_ua P = render_brand_list (pf_client_hint_brands P)"

definition sec_ch_ua_platform :: "('h, 'p, 'v) profile \<Rightarrow> string" where
  "sec_ch_ua_platform P = quote # client_hint (pf_platform P) @ [quote]"

record ('h, 'p, 'v) capture =
  cp_provenance :: 'v
  cp_user_agent :: string
  cp_observed :: "(string \<times> string) list"
  cp_navigate :: "string list"
  cp_subresource :: "string list option"
  cp_client_hello :: "string + 'h"
  cp_http2 :: "string + 'p"

definition header_or_default :: "(string \<times> string) list \<Rightarrow> string \<Rightarrow> string" where
  "header_or_default headers name = (case map_of headers name of Some v \<Rightarrow> v | None \<Rightarrow> [])"

definition from_parsed_capture :: "('h, 'p, 'v) capture \<Rightarrow> profile_error + ('h, 'p, 'v) profile" where
  "from_parsed_capture cap =
     (let ua = cp_user_agent cap; headers = cp_observed cap
      in (case browser_identity ua of
            None \<Rightarrow> Inl (UnknownBrowser ua)
          | Some (name, version) \<Rightarrow>
              (case platform_from_user_agent ua of
                 None \<Rightarrow> Inl (UnknownPlatform ua)
               | Some platform \<Rightarrow>
                   (case (case map_of headers ''sec-ch-ua'' of
                            Some v \<Rightarrow> parse_brand_list v | None \<Rightarrow> Inr []) of
                      Inl e \<Rightarrow> Inl e
                    | Inr brands \<Rightarrow>
                        (case cp_client_hello cap of
                           Inl e \<Rightarrow> Inl (CaptureError e)
                         | Inr hello \<Rightarrow>
                             (case cp_http2 cap of
                                Inl e \<Rightarrow> Inl (CaptureError e)
                              | Inr h2 \<Rightarrow>
                                  Inr \<lparr>pf_name = name, pf_version = version, pf_platform = platform,
                                       pf_user_agent = ua, pf_client_hint_brands = brands,
                                       pf_client_hello = hello, pf_http2 = h2,
                                       pf_accept = header_or_default headers ''accept'',
                                       pf_accept_language = header_or_default headers ''accept-language'',
                                       pf_accept_encoding = header_or_default headers ''accept-encoding'',
                                       pf_header_order = \<lparr>ho_navigate = cp_navigate cap,
                                                          ho_subresource = cp_subresource cap\<rparr>,
                                       pf_observed_headers = headers,
                                       pf_provenance = Some (cp_provenance cap)\<rparr>))))))"

section \<open>Facts on brand lists\<close>

definition no_quote :: "string \<Rightarrow> bool" where
  "no_quote s \<longleftrightarrow> quote \<notin> set s"

definition prepend :: "string \<Rightarrow> string list \<Rightarrow> string list" where
  "prepend s ws = (case ws of [] \<Rightarrow> [s] | w # ws \<Rightarrow> (s @ w) # ws)"

lemma split_outside_nonempty [simp]: "split_outside q s \<noteq> []"
  by (induction s arbitrary: q) (auto split: list.splits)

lemma split_inside:
  assumes "no_quote s"
  shows "split_outside True (s @ quote # t) = prepend (s @ [quote]) (split_outside False t)"
  using assms by (induction s) (auto simp: no_quote_def prepend_def split: list.splits)

lemma split_plain:
  assumes "no_quote s" and "CHR '','' \<notin> set s"
  shows "split_outside False (s @ t) = prepend s (split_outside False t)"
  using assms by (induction s) (auto simp: no_quote_def prepend_def split: list.splits)

lemma prepend_prepend: "prepend a (prepend b ws) = prepend (a @ b) ws"
  by (simp add: prepend_def split: list.splits)

lemma split_render:
  assumes "no_quote (br_brand b)" and "no_quote (br_version b)"
  shows "split_outside False (render_brand b @ t) = prepend (render_brand b) (split_outside False t)"
proof -
  have q: "split_outside False (quote # s) = prepend [quote] (split_outside True s)" for s
    by (simp add: prepend_def split: list.splits)
  have v: "split_outside False ('';v='' @ s) = prepend '';v='' (split_outside False s)" for s
    by (rule split_plain) (auto simp: no_quote_def)
  have "render_brand b @ t = quote # br_brand b @ quote # '';v='' @ (quote # br_version b @ quote # t)"
    by (simp add: render_brand_def)
  then show ?thesis
    using v by (simp add: q split_inside [OF assms(1)] split_inside [OF assms(2)] prepend_prepend render_brand_def
        del: split_outside.simps)
qed

lemma split_comma: "split_outside False (CHR '','' # t) = [] # split_outside False t"
  by simp

lemma split_render_list:
  assumes "\<forall>b \<in> set bs. no_quote (br_brand b) \<and> no_quote (br_version b)"
  shows "map trim (split_outside False (render_brand_list bs)) = (if bs = [] then [[]] else map (trim \<circ> render_brand) bs)"
  using assms
proof (induction bs rule: induct_list012)
  case (2 b)
  then show ?case using split_render [of b "[]"] by (simp add: render_brand_list_def prepend_def)
next
  case (3 b c bs)
  have sp: "split_outside False (CHR '' '' # s) = prepend '' '' (split_outside False s)" for s
    using split_plain [of "'' ''" s] by (simp add: no_quote_def)
  have sp': "map trim (prepend '' '' ws) = map trim ws" if "ws \<noteq> []" for ws
    using that by (cases ws) (auto simp: prepend_def trim_def trim_start_def is_whitespace_def byte_def)
  have "render_brand_list (b # c # bs) = render_brand b @ CHR '','' # CHR '' '' # render_brand_list (c # bs)"
    by (simp add: render_brand_list_def)
  then show ?case
    using 3 by (simp add: split_render split_comma sp prepend_def [of "render_brand b"] sp' del: split_outside.simps)
qed (simp add: render_brand_list_def trim_def trim_start_def trim_end_def)

lemma read_quoted_text: "no_quote s \<Longrightarrow> read_quoted (quote # s @ quote # t) = Inr (s, t)"
  by (simp add: read_quoted_def strip_prefix_def no_quote_def split_once_append)

lemma trim_render: "trim (render_brand b) = render_brand b"
  by (rule trim_id) (simp add: render_brand_def is_whitespace_def byte_def)

lemma parse_render:
  assumes "no_quote (br_brand b)" and "no_quote (br_version b)"
  shows "parse_brand (render_brand b) = Inr b"
proof -
  let ?rest = "'';v='' @ quote # br_version b @ quote # []"
  have "read_quoted (render_brand b) = Inr (br_brand b, ?rest)"
    unfolding render_brand_def using read_quoted_text [OF assms(1)] by simp
  moreover have "trim_start ?rest = ?rest" "trim_start (''v='' @ s) = ''v='' @ s" for s
    by (simp_all add: trim_start_def is_whitespace_def byte_def)
  moreover have "read_quoted (quote # br_version b @ quote # []) = Inr (br_version b, [])"
    by (rule read_quoted_text [OF assms(2)])
  ultimately show ?thesis
    by (simp add: parse_brand_def strip_prefix_def trim_def trim_start_def trim_end_def)
qed

lemma parse_entries_render:
  assumes "\<forall>b \<in> set bs. no_quote (br_brand b) \<and> no_quote (br_version b)" and "map trim es = map render_brand bs"
  shows "parse_entries es acc = Inr (acc @ bs)"
  using assms
proof (induction es arbitrary: bs acc)
  case (Cons e es)
  then obtain b bs' where bs: "bs = b # bs'" and e: "trim e = render_brand b" and es: "map trim es = map render_brand bs'"
    by (cases bs) auto
  have "render_brand b \<noteq> []" by (simp add: render_brand_def)
  then show ?case using Cons.IH [OF _ es, of "acc @ [b]"] Cons.prems(1) by (simp add: bs e parse_render)
qed simp

section \<open>Properties\<close>

text \<open>C30: Printing a client-hint brand list and parsing it gives the list back, whatever the brands and versions
  contain except a double quote: commas, semicolons and spaces inside the quotes are not separators.\<close>
theorem brand_list_round_trip:
  assumes "\<forall>b \<in> set brands. no_quote (br_brand b) \<and> no_quote (br_version b)"
  shows "parse_brand_list (render_brand_list brands) = Inr brands"
proof (cases "brands = []")
  case True
  then show ?thesis
    by (simp add: render_brand_list_def parse_brand_list_def split_outside_quotes_def trim_def trim_start_def trim_end_def)
next
  case False
  then have "map trim (split_outside False (render_brand_list brands)) = map render_brand brands"
    using split_render_list [OF assms] by (simp add: comp_def trim_render)
  then show ?thesis
    using parse_entries_render [OF assms] by (simp add: parse_brand_list_def split_outside_quotes_def)
qed

theorem brand_list_round_trip_witness:
  "parse_brand_list (render_brand_list
      [\<lparr>br_brand = ''Not=A?Brand, Inc;v'', br_version = ''99''\<rparr>, \<lparr>br_brand = '' Chromium'', br_version = ''151''\<rparr>])
   = Inr [\<lparr>br_brand = ''Not=A?Brand, Inc;v'', br_version = ''99''\<rparr>, \<lparr>br_brand = '' Chromium'', br_version = ''151''\<rparr>]"
  by (rule brand_list_round_trip) code_simp

end
