(* ===== verification/Header_Engine.thy ===== *)
theory Header_Engine
  imports Profile Client_Hints Cookie_Scope "HOL-Library.Sublist"
begin

text \<open>
  The header engine of \<open>chromulate-header\<close>: the \<open>Sec-Fetch-Site\<close> relation (\<open>fetch_site.rs\<close>), the per
  destination \<open>Accept\<close> and \<open>Priority\<close> values (\<open>accept.rs\<close>, \<open>priority.rs\<close>), the order of the fields
  (\<open>order.rs\<close>) and the engine that fills them in for one request (\<open>engine.rs\<close>).

  A header name and a header value of the \<open>http\<close> crate are their texts; which texts the crate accepts is a
  parameter. A panic of an \<open>expect\<close> is \<open>None\<close>.
\<close>

section \<open>The relation of the initiator to the target\<close>

datatype fetch_site = FsNone | FsSameOrigin | FsSameSite | FsCrossSite

definition fetch_site_str :: "fetch_site \<Rightarrow> string" where
  "fetch_site_str s =
     (case s of FsNone \<Rightarrow> ''none'' | FsSameOrigin \<Rightarrow> ''same-origin'' | FsSameSite \<Rightarrow> ''same-site''
      | FsCrossSite \<Rightarrow> ''cross-site'')"

definition fs_is_ip_literal :: "string \<Rightarrow> bool" where
  "fs_is_ip_literal host =
     (let unbracketed =
        (case Option.bind (strip_prefix ''['' host) (strip_suffix '']'') of Some inner \<Rightarrow> inner | None \<Rightarrow> host)
      in is_ipv4 unbracketed \<or> is_ipv6 unbracketed)"

definition registrable_domain :: "psl \<Rightarrow> string \<Rightarrow> string" where
  "registrable_domain psl host =
     (if fs_is_ip_literal host then host else (case psl host of Some d \<Rightarrow> d | None \<Rightarrow> host))"

definition schemeful_same_site :: "psl \<Rightarrow> origin \<Rightarrow> origin \<Rightarrow> bool" where
  "schemeful_same_site psl a b \<longleftrightarrow>
     origin_scheme a = origin_scheme b \<and> registrable_domain psl (origin_host a) = registrable_domain psl (origin_host b)"

definition fetch_site_compute :: "psl \<Rightarrow> origin option \<Rightarrow> origin \<Rightarrow> fetch_site" where
  "fetch_site_compute psl initiator target =
     (case initiator of
        None \<Rightarrow> FsNone
      | Some initiator \<Rightarrow>
          (if initiator = target then FsSameOrigin
           else if schemeful_same_site psl initiator target then FsSameSite
           else FsCrossSite))"

section \<open>Values per destination\<close>

definition accept_fallback :: "fetch_dest \<Rightarrow> string option" where
  "accept_fallback dest =
     (case dest of
        Document \<Rightarrow> None
      | Iframe \<Rightarrow> None
      | Style \<Rightarrow> Some ''text/css,*/*;q=0.1''
      | Image \<Rightarrow> Some ''image/avif,image/webp,image/apng,image/svg+xml,*/*;q=0.8''
      | _ \<Rightarrow> Some ''*/*'')"

definition priority_for :: "fetch_dest \<Rightarrow> string" where
  "priority_for dest =
     (case dest of
        Document \<Rightarrow> ''u=0, i''
      | Iframe \<Rightarrow> ''u=0, i''
      | Style \<Rightarrow> ''u=0''
      | Font \<Rightarrow> ''u=0''
      | Script \<Rightarrow> ''u=1''
      | _ \<Rightarrow> ''u=3'')"

section \<open>Slots\<close>

datatype dynamic_value = DynAccept | DynSecFetchSite | DynSecFetchMode | DynSecFetchDest | DynSecFetchUser
  | DynUpgradeInsecureRequests | DynPriority | DynReferer | DynOrigin | DynHost | DynHint hint

datatype slot_value = SlotConstant header_value | SlotDynamic dynamic_value | SlotInvalid string | SlotAbsent

datatype prepared_value = ValidValue header_value | InvalidValue string | MissingValue

record slot =
  sl_name :: string
  sl_header_name :: header_name
  sl_value :: slot_value

record prepared =
  pr_navigate :: "slot list"
  pr_subresource :: "slot list"
  pr_host :: slot
  pr_origin :: slot
  pr_referer :: slot
  pr_sec_fetch_user :: slot
  pr_hints :: "slot list"
  pr_document_accept :: prepared_value
  pr_hint_values :: "prepared_value list"

record ('h, 'p, 'v) header_engine =
  hg_profile :: "('h, 'p, 'v) profile"
  hg_high_entropy :: high_entropy_hints
  hg_prepared :: prepared

definition mk_slot :: "url_ext \<Rightarrow> string \<Rightarrow> slot_value \<Rightarrow> slot option" where
  "mk_slot U name val =
     (case ux_name U name of
        None \<Rightarrow> None
      | Some header_name \<Rightarrow> Some \<lparr>sl_name = name, sl_header_name = header_name, sl_value = val\<rparr>)"

definition known_slot :: "url_ext \<Rightarrow> string \<Rightarrow> dynamic_value \<Rightarrow> slot option" where
  "known_slot U name dynamic = mk_slot U name (SlotDynamic dynamic)"

definition constant_value :: "url_ext \<Rightarrow> string \<Rightarrow> slot_value" where
  "constant_value U val =
     (case ux_value U val of Some encoded \<Rightarrow> SlotConstant encoded | None \<Rightarrow> SlotInvalid val)"

definition to_prepared_value :: "url_ext \<Rightarrow> string \<Rightarrow> prepared_value" where
  "to_prepared_value U val =
     (case ux_value U val of Some encoded \<Rightarrow> ValidValue encoded | None \<Rightarrow> InvalidValue val)"

definition dynamic_names :: "(string \<times> dynamic_value) list" where
  "dynamic_names =
     [(''sec-ch-ua-platform-version'', DynHint PlatformVersion), (''sec-ch-ua-arch'', DynHint Arch),
      (''sec-ch-ua-bitness'', DynHint Bitness), (''sec-ch-ua-full-version-list'', DynHint FullVersionList),
      (''sec-ch-ua-model'', DynHint Model), (''upgrade-insecure-requests'', DynUpgradeInsecureRequests),
      (''accept'', DynAccept), (''sec-fetch-site'', DynSecFetchSite), (''sec-fetch-mode'', DynSecFetchMode),
      (''sec-fetch-user'', DynSecFetchUser), (''sec-fetch-dest'', DynSecFetchDest), (''referer'', DynReferer),
      (''origin'', DynOrigin), (''priority'', DynPriority), (''host'', DynHost)]"

definition classify :: "url_ext \<Rightarrow> string \<Rightarrow> ('h, 'p, 'v) profile \<Rightarrow> slot_value" where
  "classify U name P =
     (if name = ''sec-ch-ua'' then constant_value U (sec_ch_ua P)
      else if name = ''sec-ch-ua-mobile'' then
        (case map_of (pf_observed_headers P) ''sec-ch-ua-mobile'' of
           Some val \<Rightarrow> constant_value U val | None \<Rightarrow> SlotAbsent)
      else if name = ''sec-ch-ua-platform'' then constant_value U (sec_ch_ua_platform P)
      else if name = ''user-agent'' then constant_value U (pf_user_agent P)
      else if name = ''accept-encoding'' then constant_value U (pf_accept_encoding P)
      else if name = ''accept-language'' then constant_value U (pf_accept_language P)
      else (case map_of dynamic_names name of Some dynamic \<Rightarrow> SlotDynamic dynamic | None \<Rightarrow> SlotAbsent))"

definition plan_of :: "url_ext \<Rightarrow> string list \<Rightarrow> ('h, 'p, 'v) profile \<Rightarrow> slot list" where
  "plan_of U order P = List.map_filter (\<lambda>name. mk_slot U name (classify U name P)) order"

definition prepare :: "url_ext \<Rightarrow> ('h, 'p, 'v) profile \<Rightarrow> high_entropy_hints \<Rightarrow> prepared option" where
  "prepare U P high_entropy = do {
     let navigate = plan_of U (ho_navigate (pf_header_order P)) P;
     let subresource = plan_of U (subresource_or_navigate (pf_header_order P)) P;
     let hints = List.map_filter (\<lambda>h. mk_slot U (hint_header_name h) (SlotDynamic (DynHint h))) all_in_emit_order;
     let hint_values = map (\<lambda>h. case hints_value_for high_entropy h of
                                  Some val \<Rightarrow> to_prepared_value U val | None \<Rightarrow> MissingValue) all_in_emit_order;
     host \<leftarrow> known_slot U ''host'' DynHost;
     origin \<leftarrow> known_slot U ''origin'' DynOrigin;
     referer \<leftarrow> known_slot U ''referer'' DynReferer;
     sec_fetch_user \<leftarrow> known_slot U ''sec-fetch-user'' DynSecFetchUser;
     Some \<lparr>pr_navigate = navigate, pr_subresource = subresource, pr_host = host, pr_origin = origin,
           pr_referer = referer, pr_sec_fetch_user = sec_fetch_user, pr_hints = hints,
           pr_document_accept = to_prepared_value U (pf_accept P), pr_hint_values = hint_values\<rparr>
   }"

definition no_hints :: high_entropy_hints where
  "no_hints = \<lparr>he_platform_version = None, he_arch = None, he_bitness = None, he_full_version_list = None, he_model = None\<rparr>"

definition engine_new :: "url_ext \<Rightarrow> ('h, 'p, 'v) profile \<Rightarrow> ('h, 'p, 'v) header_engine option" where
  "engine_new U P =
     map_option (\<lambda>prepared. \<lparr>hg_profile = P, hg_high_entropy = no_hints, hg_prepared = prepared\<rparr>) (prepare U P no_hints)"

definition with_high_entropy_hints ::
  "url_ext \<Rightarrow> high_entropy_hints \<Rightarrow> ('h, 'p, 'v) header_engine \<Rightarrow> ('h, 'p, 'v) header_engine option" where
  "with_high_entropy_hints U hints E =
     map_option (\<lambda>prepared. E\<lparr>hg_high_entropy := hints, hg_prepared := prepared\<rparr>) (prepare U (hg_profile E) hints)"

section \<open>The order of the fields\<close>

fun position :: "('a \<Rightarrow> bool) \<Rightarrow> 'a list \<Rightarrow> nat option" where
  "position f [] = None"
| "position f (x # xs) = (if f x then Some 0 else map_option Suc (position f xs))"

definition insert_at :: "nat \<Rightarrow> 'a \<Rightarrow> 'a list \<Rightarrow> 'a list" where
  "insert_at i x xs = take i xs @ x # drop i xs"

definition order_contains :: "slot list \<Rightarrow> string \<Rightarrow> bool" where
  "order_contains order name \<longleftrightarrow> list_ex (\<lambda>e. sl_name e = name) order"

definition insert_before :: "string \<Rightarrow> slot \<Rightarrow> slot list \<Rightarrow> slot list" where
  "insert_before anchor entry order =
     (if order_contains order (sl_name entry) then order
      else insert_at (case position (\<lambda>held. sl_name held = anchor) order of Some i \<Rightarrow> i | None \<Rightarrow> length order) entry order)"

definition insert_after :: "string \<Rightarrow> slot \<Rightarrow> slot list \<Rightarrow> slot list" where
  "insert_after anchor entry order =
     (if order_contains order (sl_name entry) then order
      else insert_at (case position (\<lambda>held. sl_name held = anchor) order of Some i \<Rightarrow> i + 1 | None \<Rightarrow> length order)
             entry order)"

definition insert_hint :: "nat option \<Rightarrow> hint set \<Rightarrow> slot \<Rightarrow> slot list \<times> nat \<Rightarrow> slot list \<times> nat" where
  "insert_hint anchor granted hint_slot st =
     (case st of (order, inserted) \<Rightarrow>
        (case sl_value hint_slot of
           SlotDynamic (DynHint h) \<Rightarrow>
             (if h \<notin> granted \<or> order_contains order (sl_name hint_slot) then (order, inserted)
              else (case anchor of
                      Some anchor \<Rightarrow> (insert_at (anchor + 1 + inserted) hint_slot order, inserted + 1)
                    | None \<Rightarrow> (order @ [hint_slot], inserted)))
         | _ \<Rightarrow> (order, inserted)))"

definition insert_hints :: "prepared \<Rightarrow> hint set \<Rightarrow> slot list \<Rightarrow> slot list" where
  "insert_hints prepared granted order =
     (if granted = {} then order
      else fst (fold (insert_hint (position (\<lambda>s. sl_name s = ''sec-ch-ua-platform'') order) granted)
                  (pr_hints prepared) (order, 0)))"

definition build_order :: "slot list \<Rightarrow> prepared \<Rightarrow> bool \<Rightarrow> bool \<Rightarrow> bool \<Rightarrow> bool \<Rightarrow> hint set \<Rightarrow> slot list" where
  "build_order base prepared needs_host needs_origin needs_referer user_activated granted =
     (let order = base;
          order = (if needs_host \<and> \<not> order_contains order ''host'' then pr_host prepared # order else order);
          order = insert_hints prepared granted order;
          order = (if needs_origin then insert_before ''sec-fetch-site'' (pr_origin prepared) order else order);
          order = (if user_activated then insert_before ''sec-fetch-dest'' (pr_sec_fetch_user prepared) order else order)
      in (if needs_referer then insert_after ''sec-fetch-dest'' (pr_referer prepared) order else order))"

section \<open>Values per request\<close>

record ctx =
  cx_options :: request_options
  cx_fetch_site :: fetch_site
  cx_referer :: "header_value option"
  cx_origin_header :: "header_value option"
  cx_host_value :: "header_value option"
  cx_user_activated :: bool
  cx_granted :: "hint set"

definition invalid_value_error :: "url_ext \<Rightarrow> string \<Rightarrow> string \<Rightarrow> error" where
  "invalid_value_error U name val =
     ConfigError (''the profile's value for header `'' @ name @ ''` is not a valid HTTP header value: '' @ ux_debug U val)"

definition request_value :: "url_ext \<Rightarrow> string \<Rightarrow> string \<Rightarrow> error + header_value" where
  "request_value U name val =
     (case ux_bytes_value U val of
        Some encoded \<Rightarrow> Inr encoded
      | None \<Rightarrow> Inl (ConfigError (''the computed value for header `'' @ name @ ''` is not a valid HTTP header value'')))"

text \<open>\<open>Option<Result>::transpose\<close> after mapping.\<close>

definition transposed :: "('a \<Rightarrow> 'e + 'b) \<Rightarrow> 'a option \<Rightarrow> 'e + 'b option" where
  "transposed f x =
     (case x of None \<Rightarrow> Inr None | Some a \<Rightarrow> (case f a of Inl e \<Rightarrow> Inl e | Inr b \<Rightarrow> Inr (Some b)))"

definition needs_host :: "version \<Rightarrow> bool" where
  "needs_host v \<longleftrightarrow> v = Http09 \<or> v = Http10 \<or> v = Http11"

definition host_header_value :: "url_ext \<Rightarrow> url \<Rightarrow> string option" where
  "host_header_value U u =
     (case url_host_str u of
        None \<Rightarrow> None
      | Some host \<Rightarrow> Some (case ux_port U u of Some port \<Rightarrow> host @ '':'' @ show_nat port | None \<Rightarrow> host))"

definition origin_header_value :: "fetch_mode \<Rightarrow> string \<Rightarrow> origin option \<Rightarrow> origin \<Rightarrow> string option" where
  "origin_header_value mode rmethod initiator target =
     (case initiator of
        None \<Rightarrow> None
      | Some initiator \<Rightarrow>
          (let unsafe_method = (rmethod \<noteq> ''GET'' \<and> rmethod \<noteq> ''HEAD'');
               needed = (case mode of Navigate \<Rightarrow> unsafe_method | _ \<Rightarrow> unsafe_method \<or> initiator \<noteq> target)
           in if needed then Some (ascii_serialization initiator) else None))"

definition hint_value :: "prepared \<Rightarrow> hint \<Rightarrow> prepared_value" where
  "hint_value prepared h =
     pr_hint_values prepared ! (case position (\<lambda>c. c = h) all_in_emit_order of Some i \<Rightarrow> i | None \<Rightarrow> 0)"

definition accept_value :: "url_ext \<Rightarrow> ('h, 'p, 'v) header_engine \<Rightarrow> ctx \<Rightarrow> error + header_value" where
  "accept_value U E cx =
     (case accept_fallback (opt_dest (cx_options cx)) of
        Some fallback \<Rightarrow> Inr fallback
      | None \<Rightarrow>
          (case pr_document_accept (hg_prepared E) of
             ValidValue val \<Rightarrow> Inr val
           | InvalidValue val \<Rightarrow> Inl (invalid_value_error U ''accept'' val)
           | MissingValue \<Rightarrow> Inl (invalid_value_error U ''accept'' [])))"

fun dynamic_value_of :: "url_ext \<Rightarrow> ('h, 'p, 'v) header_engine \<Rightarrow> ctx \<Rightarrow> dynamic_value \<Rightarrow> error + header_value option" where
  "dynamic_value_of U E cx DynAccept = (case accept_value U E cx of Inl e \<Rightarrow> Inl e | Inr val \<Rightarrow> Inr (Some val))"
| "dynamic_value_of U E cx DynSecFetchSite = Inr (Some (fetch_site_str (cx_fetch_site cx)))"
| "dynamic_value_of U E cx DynSecFetchMode = Inr (Some (fetch_mode_str (opt_mode (cx_options cx))))"
| "dynamic_value_of U E cx DynSecFetchDest = Inr (Some (fetch_dest_str (opt_dest (cx_options cx))))"
| "dynamic_value_of U E cx DynSecFetchUser = Inr (if cx_user_activated cx then Some ''?1'' else None)"
| "dynamic_value_of U E cx DynUpgradeInsecureRequests =
     Inr (if opt_mode (cx_options cx) = Navigate then Some ''1'' else None)"
| "dynamic_value_of U E cx DynPriority = Inr (Some (priority_for (opt_dest (cx_options cx))))"
| "dynamic_value_of U E cx DynReferer = Inr (cx_referer cx)"
| "dynamic_value_of U E cx DynOrigin = Inr (cx_origin_header cx)"
| "dynamic_value_of U E cx DynHost = Inr (cx_host_value cx)"
| "dynamic_value_of U E cx (DynHint h) =
     (if h \<notin> cx_granted cx then Inr None
      else (case hint_value (hg_prepared E) h of
              ValidValue val \<Rightarrow> Inr (Some val)
            | InvalidValue val \<Rightarrow> Inl (invalid_value_error U (hint_header_name h) val)
            | MissingValue \<Rightarrow> Inr None))"

definition slot_value_of :: "url_ext \<Rightarrow> ('h, 'p, 'v) header_engine \<Rightarrow> ctx \<Rightarrow> slot \<Rightarrow> error + header_value option" where
  "slot_value_of U E cx s =
     (case sl_value s of
        SlotConstant val \<Rightarrow> Inr (Some val)
      | SlotAbsent \<Rightarrow> Inr None
      | SlotInvalid val \<Rightarrow> Inl (invalid_value_error U (sl_name s) val)
      | SlotDynamic dynamic \<Rightarrow> dynamic_value_of U E cx dynamic)"

section \<open>Applying the engine to a request\<close>

fun apply_slots ::
  "url_ext \<Rightarrow> ('h, 'p, 'v) header_engine \<Rightarrow> ctx \<Rightarrow> header_map \<Rightarrow> header_name list \<Rightarrow> slot list
   \<Rightarrow> header_map \<times> (header_name \<times> header_value) list \<Rightarrow> error + header_map \<times> (header_name \<times> header_value) list" where
  "apply_slots U E cx caller seen [] st = Inr st"
| "apply_slots U E cx caller seen (s # slots) (headers, result) =
     (let n = sl_header_name s; seen' = seen @ [n]
      in if n \<in> set seen then apply_slots U E cx caller seen' slots (headers, result)
         else (case hm_get_all caller n of
                 first # extra \<Rightarrow>
                   apply_slots U E cx caller seen' slots
                     (fold (hm_append n) extra (hm_insert n first headers),
                      result @ (n, first) # map (Pair n) extra)
               | [] \<Rightarrow>
                   (case slot_value_of U E cx s of
                      Inl e \<Rightarrow> Inl e
                    | Inr None \<Rightarrow> apply_slots U E cx caller seen' slots (headers, result)
                    | Inr (Some val) \<Rightarrow>
                        apply_slots U E cx caller seen' slots (hm_insert n val headers, result @ [(n, val)]))))"

definition apply_rest ::
  "slot list \<Rightarrow> header_map \<Rightarrow> header_map \<times> (header_name \<times> header_value) list
   \<Rightarrow> header_map \<times> (header_name \<times> header_value) list" where
  "apply_rest order caller st =
     fold (\<lambda>(name, val) (headers, result).
             if list_ex (\<lambda>s. sl_header_name s = name) order then (headers, result)
             else (hm_append name val headers, result @ [(name, val)])) (hm_iter caller) st"

definition header_context ::
  "url_ext \<Rightarrow> psl \<Rightarrow> request \<Rightarrow> url \<Rightarrow> request_options \<Rightarrow> accept_ch_store
   \<Rightarrow> (error + ctx) \<times> accept_ch_store" where
  "header_context U psl rq u opts accept_ch =
     (case origin_result U u of
        Inl e \<Rightarrow> (Inl e, accept_ch)
      | Inr target \<Rightarrow>
          (case transposed (request_value U ''origin'')
                  (origin_header_value (opt_mode opts) (rq_method rq) (opt_initiator opts) target) of
             Inl e \<Rightarrow> (Inl e, accept_ch)
           | Inr origin_header \<Rightarrow>
               (case transposed (request_value U ''referer'')
                       (Option.bind (opt_referrer opts) (\<lambda>from. referrer_for (ux_text U) from u)) of
                  Inl e \<Rightarrow> (Inl e, accept_ch)
                | Inr referer \<Rightarrow>
                    (case (if needs_host (rq_version rq)
                           then transposed (request_value U ''host'') (host_header_value U u) else Inr None) of
                       Inl e \<Rightarrow> (Inl e, accept_ch)
                     | Inr host \<Rightarrow>
                         (case ac_granted_for target accept_ch of
                            (granted, accept_ch') \<Rightarrow>
                              (Inr \<lparr>cx_options = opts,
                                    cx_fetch_site = fetch_site_compute psl (opt_initiator opts) target,
                                    cx_referer = referer, cx_origin_header = origin_header, cx_host_value = host,
                                    cx_user_activated = rq_user_activated rq, cx_granted = granted\<rparr>,
                               accept_ch'))))))"

definition order_for :: "('h, 'p, 'v) header_engine \<Rightarrow> ctx \<Rightarrow> slot list" where
  "order_for E cx =
     build_order
       (if opt_mode (cx_options cx) = Navigate then pr_navigate (hg_prepared E) else pr_subresource (hg_prepared E))
       (hg_prepared E) (cx_host_value cx \<noteq> None) (cx_origin_header cx \<noteq> None) (cx_referer cx \<noteq> None)
       (cx_user_activated cx) (cx_granted cx)"

definition apply_engine ::
  "url_ext \<Rightarrow> psl \<Rightarrow> ('h, 'p, 'v) header_engine \<Rightarrow> request \<Rightarrow> url \<Rightarrow> request_options \<Rightarrow> accept_ch_store
   \<Rightarrow> (error + request \<times> (header_name \<times> header_value) list) \<times> accept_ch_store" where
  "apply_engine U psl E rq u opts accept_ch =
     (case header_context U psl rq u opts accept_ch of
        (Inl e, accept_ch') \<Rightarrow> (Inl e, accept_ch')
      | (Inr cx, accept_ch') \<Rightarrow>
          (case apply_slots U E cx (rq_headers rq) [] (order_for E cx) ([], []) of
             Inl e \<Rightarrow> (Inl e, accept_ch')
           | Inr st \<Rightarrow>
               (case apply_rest (order_for E cx) (rq_headers rq) st of
                  (headers, result) \<Rightarrow> (Inr (rq\<lparr>rq_headers := headers\<rparr>, result), accept_ch'))))"

section \<open>What the engine relies on\<close>

text \<open>Header names are case-insensitive and kept in lower case; lower-case letters and hyphens are legal in them.\<close>

definition plain_name :: "string \<Rightarrow> bool" where
  "plain_name n \<longleftrightarrow> n \<noteq> [] \<and> list_all (\<lambda>c. c = CHR ''-'' \<or> (97 \<le> byte c \<and> byte c \<le> 122)) n"

definition header_name_law :: "url_ext \<Rightarrow> bool" where
  "header_name_law U \<longleftrightarrow> (\<forall>n m. ux_name U n = Some m \<longrightarrow> m = to_ascii_lowercase n)
     \<and> (\<forall>n. plain_name n \<longrightarrow> ux_name U n = Some n)"

definition lowercase_order :: "profile_header_order \<Rightarrow> bool" where
  "lowercase_order ho \<longleftrightarrow> (\<forall>n \<in> set (ho_navigate ho) \<union> set (subresource_or_navigate ho). to_ascii_lowercase n = n)"

definition profile_names :: "url_ext \<Rightarrow> ('h, 'p, 'v) profile \<Rightarrow> request_options \<Rightarrow> header_name list" where
  "profile_names U P opts =
     filter (\<lambda>n. ux_name U n \<noteq> None)
       (if opt_mode opts = Navigate then ho_navigate (pf_header_order P) else subresource_or_navigate (pf_header_order P))"

definition insertable :: "header_name set" where
  "insertable = {''host'', ''origin'', ''referer'', ''sec-fetch-user''} \<union> hint_header_name ` UNIV"

lemma plain_names: "n \<in> insertable \<Longrightarrow> plain_name n"
proof -
  have "plain_name (hint_header_name h)" for h by (cases h) (simp_all add: hint_header_name_def plain_name_def byte_def)
  then show "n \<in> insertable \<Longrightarrow> plain_name n" by (auto simp: insertable_def plain_name_def byte_def)
qed

section \<open>The closed form of the result\<close>

fun first_slots :: "header_name list \<Rightarrow> slot list \<Rightarrow> slot list" where
  "first_slots seen [] = []"
| "first_slots seen (s # slots) =
     (if sl_header_name s \<in> set seen then first_slots (seen @ [sl_header_name s]) slots
      else s # first_slots (seen @ [sl_header_name s]) slots)"

definition slot_block ::
  "url_ext \<Rightarrow> ('h, 'p, 'v) header_engine \<Rightarrow> ctx \<Rightarrow> header_map \<Rightarrow> slot \<Rightarrow> header_name \<times> header_value list" where
  "slot_block U E cx caller s =
     (sl_header_name s,
      if hm_contains caller (sl_header_name s) then hm_get_all caller (sl_header_name s)
      else (case slot_value_of U E cx s of Inr (Some val) \<Rightarrow> [val] | _ \<Rightarrow> []))"

lemma fst_slot_block [simp]: "fst (slot_block U E cx caller s) = sl_header_name s"
  by (simp add: slot_block_def)

lemma hm_insert_fresh: "n \<notin> fst ` set h \<Longrightarrow> hm_insert n v h = h @ [(n, v)]"
  by (auto simp: hm_insert_def hm_append_def hm_remove_def filter_id_conv)

lemma fold_hm_append: "fold (hm_append n) vs h = h @ map (Pair n) vs"
  by (induction vs arbitrary: h) (simp_all add: hm_append_def)

lemma first_slots_names:
  "distinct (map sl_header_name (first_slots seen slots))"
  "set (map sl_header_name (first_slots seen slots)) = sl_header_name ` set slots - set seen"
  by (induction seen slots rule: first_slots.induct) auto

lemma first_slots_subseq: "subseq (first_slots seen slots) slots"
  by (induction seen slots rule: first_slots.induct) auto

lemma apply_slots_closed:
  assumes "apply_slots U E cx caller seen slots (h, r) = Inr (h', r')" and "fst ` set h \<subseteq> set seen"
  shows "h' = h @ hm_flatten (map (slot_block U E cx caller) (first_slots seen slots))
    \<and> r' = r @ hm_flatten (map (slot_block U E cx caller) (first_slots seen slots))"
  using assms
proof (induction slots arbitrary: seen h r)
  case (Cons s slots)
  let ?n = "sl_header_name s"
  have sub: "fst ` set h \<subseteq> set (seen @ [?n])" using Cons.prems(2) by auto
  have blk: "slot_block U E cx caller s = (?n, if hm_get_all caller ?n \<noteq> [] then hm_get_all caller ?n
      else (case slot_value_of U E cx s of Inr (Some val) \<Rightarrow> [val] | _ \<Rightarrow> []))"
    by (simp add: slot_block_def hm_contains_def)
  show ?case
  proof (cases "?n \<in> set seen")
    case True
    then show ?thesis using Cons.IH [OF _ sub] Cons.prems(1) by (simp add: Let_def)
  next
    case False
    then have fresh: "?n \<notin> fst ` set h" using Cons.prems(2) by auto
    have sub': "fst ` set (h @ map (Pair ?n) vs) \<subseteq> set (seen @ [?n])" for vs using sub by auto
    show ?thesis
    proof (cases "hm_get_all caller ?n")
      case (Cons v vs)
      then show ?thesis
        using Cons.IH [OF _ sub' [of "v # vs"], of "r @ (?n, v) # map (Pair ?n) vs"] Cons.prems(1) False
        by (simp add: Let_def hm_insert_fresh [OF fresh] fold_hm_append blk)
    next
      case Nil
      have "apply_slots U E cx caller (seen @ [?n]) slots (h @ map (Pair ?n) [v], r @ [(?n, v)]) = Inr (h', r') \<Longrightarrow>
          h' = h @ (?n, v) # hm_flatten (map (slot_block U E cx caller) (first_slots (seen @ [?n]) slots))
          \<and> r' = r @ (?n, v) # hm_flatten (map (slot_block U E cx caller) (first_slots (seen @ [?n]) slots))" for v
        using Cons.IH [OF _ sub' [of "[v]"], of "r @ [(?n, v)]"] by simp
      then show ?thesis
        using Nil Cons.IH [OF _ sub] Cons.prems(1) False
        by (auto simp: Let_def hm_insert_fresh [OF fresh] blk split: sum.splits option.splits)
    qed
  qed
qed simp

lemma fold_append_filter:
  "fold (\<lambda>(name, val) (headers, result). if f name then (headers, result)
      else (hm_append name val headers, result @ [(name, val)])) xs (h, r)
   = (h @ filter (\<lambda>x. \<not> f (fst x)) xs, r @ filter (\<lambda>x. \<not> f (fst x)) xs)"
  by (induction xs arbitrary: h r) (auto simp: hm_append_def)

lemma filter_flatten: "filter (\<lambda>x. f (fst x)) (hm_flatten bs) = hm_flatten (filter (\<lambda>b. f (fst b)) bs)"
proof (induction bs)
  case (Cons b bs)
  have "filter (\<lambda>x. f (fst x)) (map (Pair (fst b)) vs) = (if f (fst b) then map (Pair (fst b)) vs else [])" for vs :: "string list"
    by (induction vs) auto
  then show ?case using Cons by (cases b) auto
qed simp

definition rest_blocks :: "slot list \<Rightarrow> header_map \<Rightarrow> (header_name \<times> header_value list) list" where
  "rest_blocks order caller =
     map (\<lambda>n. (n, hm_get_all caller n)) (filter (\<lambda>n. n \<notin> sl_header_name ` set order) (hm_keys caller))"

lemma apply_rest_closed:
  "apply_rest order caller (h, r) = (h @ hm_flatten (rest_blocks order caller), r @ hm_flatten (rest_blocks order caller))"
proof -
  have ex: "list_ex (\<lambda>s. sl_header_name s = n) order \<longleftrightarrow> n \<in> sl_header_name ` set order" for n
    by (auto simp: list_ex_iff)
  have "filter (\<lambda>x. fst x \<notin> sl_header_name ` set order) (hm_iter caller) = hm_flatten (rest_blocks order caller)"
    unfolding hm_iter_def filter_flatten [of "\<lambda>n. n \<notin> sl_header_name ` set order"]
    by (simp add: rest_blocks_def filter_map comp_def)
  then show ?thesis unfolding apply_rest_def ex by (simp add: fold_append_filter)
qed

definition all_blocks ::
  "url_ext \<Rightarrow> ('h, 'p, 'v) header_engine \<Rightarrow> ctx \<Rightarrow> header_map \<Rightarrow> slot list \<Rightarrow> (header_name \<times> header_value list) list" where
  "all_blocks U E cx caller order =
     map (slot_block U E cx caller) (first_slots [] order) @ rest_blocks order caller"

lemma flatten_nonempty: "hm_flatten (filter (\<lambda>b. snd b \<noteq> []) bs) = hm_flatten bs"
  by (induction bs) auto

lemma apply_engine_closed:
  assumes "apply_engine U psl E rq u opts ac = (Inr (rq', wire), ac')"
  obtains cx where "header_context U psl rq u opts ac = (Inr cx, ac')"
    and "wire = hm_flatten (all_blocks U E cx (rq_headers rq) (order_for E cx))"
    and "rq' = rq\<lparr>rq_headers := wire\<rparr>"
proof -
  obtain cx h r where cx: "header_context U psl rq u opts ac = (Inr cx, ac')"
    and s: "apply_slots U E cx (rq_headers rq) [] (order_for E cx) ([], []) = Inr (h, r)"
    and st: "apply_rest (order_for E cx) (rq_headers rq) (h, r) = (rq_headers rq', wire)"
    and rq': "rq' = rq\<lparr>rq_headers := rq_headers rq'\<rparr>"
    using assms by (auto simp: apply_engine_def split: prod.splits sum.splits)
  from apply_slots_closed [OF s]
  have "h = hm_flatten (map (slot_block U E cx (rq_headers rq)) (first_slots [] (order_for E cx)))" "r = h" by auto
  then have "wire = hm_flatten (all_blocks U E cx (rq_headers rq) (order_for E cx)) \<and> rq_headers rq' = wire"
    using st by (auto simp: apply_rest_closed all_blocks_def)
  then show thesis using that cx rq' by metis
qed

lemma all_blocks_distinct: "distinct (map fst (all_blocks U E cx caller order))"
proof -
  have "distinct (map fst (rest_blocks order caller))"
    by (simp add: rest_blocks_def comp_def hm_keys_def)
  moreover have "fst ` set (rest_blocks order caller) \<inter> sl_header_name ` set order = {}"
    by (auto simp: rest_blocks_def)
  ultimately show ?thesis
    using first_slots_names [of "[]" order] by (auto simp: all_blocks_def comp_def)
qed

lemmas apply_get_all = hm_get_all_flatten [OF all_blocks_distinct]

lemma apply_names:
  "remdups_adj (map fst (hm_flatten (all_blocks U E cx caller order)))
   = map fst (filter (\<lambda>b. snd b \<noteq> []) (all_blocks U E cx caller order))"
proof -
  have "distinct (map fst (filter (\<lambda>b. snd b \<noteq> []) (all_blocks U E cx caller order)))"
    using all_blocks_distinct by (rule distinct_map_filter)
  from names_of_flatten [OF this] show ?thesis by (simp add: flatten_nonempty)
qed

lemma block_of_slot:
  assumes "s \<in> set (first_slots [] order)"
  shows "hm_get_all (hm_flatten (all_blocks U E cx caller order)) (sl_header_name s) = snd (slot_block U E cx caller s)"
proof -
  have "(sl_header_name s, snd (slot_block U E cx caller s)) \<in> set (all_blocks U E cx caller order)"
    using assms by (force simp: all_blocks_def slot_block_def)
  then show ?thesis using all_blocks_distinct [of U E cx caller order] by (simp add: apply_get_all map_of_is_SomeI)
qed

lemma block_of_name:
  assumes "n \<notin> sl_header_name ` set order"
  shows "hm_get_all (hm_flatten (all_blocks U E cx caller order)) n = hm_get_all caller n"
proof (cases "n \<in> set (hm_keys caller)")
  case True
  then have "(n, hm_get_all caller n) \<in> set (all_blocks U E cx caller order)"
    using assms by (auto simp: all_blocks_def rest_blocks_def)
  then show ?thesis using all_blocks_distinct [of U E cx caller order] by (simp add: apply_get_all map_of_is_SomeI)
next
  case False
  then have "hm_get_all caller n = []" by (simp add: hm.keys_iff)
  moreover have "n \<notin> fst ` set (all_blocks U E cx caller order)"
    using assms False first_slots_names(2) [of "[]" order] by (auto simp: all_blocks_def rest_blocks_def)
  ultimately show ?thesis by (simp add: apply_get_all map_of_eq_None_iff [THEN iffD2])
qed

lemma caller_block:
  assumes "hm_contains caller n"
  shows "hm_get_all (hm_flatten (all_blocks U E cx caller order)) n = hm_get_all caller n"
proof (cases "n \<in> sl_header_name ` set order")
  case True
  then obtain s where "s \<in> set (first_slots [] order)" "sl_header_name s = n"
    using first_slots_names(2) [of "[]" order] by force
  then show ?thesis using block_of_slot [of s order U E cx caller] assms by (simp add: slot_block_def)
qed (rule block_of_name)

lemma engine_block:
  assumes "\<not> hm_contains caller n"
  shows "length (hm_get_all (hm_flatten (all_blocks U E cx caller order)) n) \<le> 1"
proof (cases "n \<in> sl_header_name ` set order")
  case True
  then obtain s where "s \<in> set (first_slots [] order)" "sl_header_name s = n"
    using first_slots_names(2) [of "[]" order] by force
  then show ?thesis using block_of_slot [of s order U E cx caller] assms
    by (simp add: slot_block_def split: sum.splits option.splits)
next
  case False
  then show ?thesis using block_of_name [OF False, of U E cx caller] assms by (simp add: hm_contains_def)
qed

section \<open>The order is the profile's\<close>

definition keeps :: "slot list \<Rightarrow> slot list \<Rightarrow> bool" where
  "keeps base order \<longleftrightarrow> filter (\<lambda>n. n \<in> sl_header_name ` set base) (map sl_header_name order) = map sl_header_name base
     \<and> set base \<subseteq> set order
     \<and> (\<forall>s \<in> set order - set base. sl_header_name s \<in> insertable \<and> sl_header_name s \<notin> sl_header_name ` set base)"

definition own_name :: "slot \<Rightarrow> bool" where
  "own_name s \<longleftrightarrow> sl_name s = sl_header_name s"

lemma keeps_refl: "keeps base base"
  by (auto simp: keeps_def filter_id_conv)

lemma set_insert_at: "set (insert_at i x xs) = insert x (set xs)"
proof -
  have "set xs = set (take i xs) \<union> set (drop i xs)" by (metis append_take_drop_id set_append)
  then show ?thesis by (auto simp: insert_at_def)
qed

lemma keeps_insert:
  assumes k: "keeps base order" and b: "\<forall>s \<in> set base. own_name s" and x: "own_name x" "sl_header_name x \<in> insertable"
    and new: "\<not> order_contains order (sl_name x)"
  shows "keeps base (insert_at i x order)"
proof -
  have fresh: "sl_header_name x \<notin> sl_header_name ` set base"
    using k b x(1) new by (auto simp: keeps_def order_contains_def list_ex_iff own_name_def) (metis subsetD)
  then have same: "filter (\<lambda>n. n \<in> sl_header_name ` set base) (map sl_header_name (insert_at i x order))
      = filter (\<lambda>n. n \<in> sl_header_name ` set base) (map sl_header_name (take i order @ drop i order))"
    by (simp only: insert_at_def map_append filter_append list.map filter.simps if_False)
  show ?thesis unfolding keeps_def set_insert_at same append_take_drop_id
    using k x(2) fresh by (simp add: keeps_def) blast
qed

lemma keeps_before:
  assumes "keeps base order" and "\<forall>s \<in> set base. own_name s" and "own_name x" "sl_header_name x \<in> insertable"
  shows "keeps base (insert_before anchor x order)" and "keeps base (insert_after anchor x order)"
  using assms keeps_insert by (auto simp: insert_before_def insert_after_def)

lemma keeps_hints:
  assumes "keeps base order" and "\<forall>s \<in> set base. own_name s"
    and "\<forall>s \<in> set hints. own_name s \<and> sl_header_name s \<in> insertable"
  shows "keeps base (fst (fold (insert_hint anchor granted) hints (order, k)))"
  using assms
proof (induction hints arbitrary: order k)
  case (Cons s hints)
  have "\<not> order_contains order (sl_name s) \<Longrightarrow> keeps base (order @ [s])"
    using keeps_insert [OF Cons.prems(1,2), of s "length order"] Cons.prems(3) by (simp add: insert_at_def)
  then have "keeps base (fst (insert_hint anchor granted s (order, k)))"
    using Cons.prems keeps_insert [OF Cons.prems(1,2), of s] unfolding insert_hint_def
    by (auto split: slot_value.splits dynamic_value.splits option.splits)
  moreover obtain order' k' where "insert_hint anchor granted s (order, k) = (order', k')" by fastforce
  ultimately show ?case using Cons by simp
qed simp

lemma keeps_build_order:
  assumes b: "\<forall>s \<in> set base. own_name s"
    and known: "\<forall>s \<in> {pr_host pr, pr_origin pr, pr_referer pr, pr_sec_fetch_user pr} \<union> set (pr_hints pr).
      own_name s \<and> sl_header_name s \<in> insertable"
    and host: "sl_name (pr_host pr) = ''host''"
  shows "keeps base (build_order base pr nh no nr ua granted)"
proof -
  have front: "pr_host pr # xs = insert_at 0 (pr_host pr) xs" for xs by (simp add: insert_at_def)
  have "keeps base (if nh \<and> \<not> order_contains base ''host'' then pr_host pr # base else base)"
    unfolding front using keeps_insert [OF keeps_refl b, of "pr_host pr" 0] known host by (simp add: keeps_refl)
  then have "keeps base (insert_hints pr granted (if nh \<and> \<not> order_contains base ''host'' then pr_host pr # base else base))"
    unfolding insert_hints_def using keeps_hints b known by simp
  then show ?thesis
    unfolding build_order_def Let_def using keeps_before [OF _ b] known by simp
qed

lemma plan_of_names:
  assumes "header_name_law U" and "\<forall>n \<in> set names. to_ascii_lowercase n = n"
  shows "map sl_header_name (plan_of U names P) = filter (\<lambda>n. ux_name U n \<noteq> None) names"
    and "\<forall>s \<in> set (plan_of U names P). own_name s \<and> sl_value s = classify U (sl_header_name s) P"
  using assms
  by (induction names)
    (auto simp: plan_of_def map_filter_simps mk_slot_def header_name_law_def own_name_def split: option.splits)

lemma known_names:
  assumes "header_name_law U" and "n \<in> insertable"
  shows "mk_slot U n v = Some \<lparr>sl_name = n, sl_header_name = n, sl_value = v\<rparr>"
  using assms plain_names by (simp add: mk_slot_def header_name_law_def)

lemma prepare_total:
  assumes "header_name_law U"
  obtains pr where "prepare U P hints = Some pr"
    and "pr_navigate pr = plan_of U (ho_navigate (pf_header_order P)) P"
    and "pr_subresource pr = plan_of U (subresource_or_navigate (pf_header_order P)) P"
    and "\<forall>s \<in> {pr_host pr, pr_origin pr, pr_referer pr, pr_sec_fetch_user pr} \<union> set (pr_hints pr).
      own_name s \<and> sl_header_name s \<in> insertable"
    and "sl_name (pr_host pr) = ''host''"
proof -
  have k: "known_slot U n d = Some \<lparr>sl_name = n, sl_header_name = n, sl_value = SlotDynamic d\<rparr>"
    if "n \<in> {''host'', ''origin'', ''referer'', ''sec-fetch-user''}" for n d
    using known_names [OF assms, of n] that by (auto simp: known_slot_def insertable_def)
  have h: "mk_slot U (hint_header_name hn) v = Some \<lparr>sl_name = hint_header_name hn, sl_header_name = hint_header_name hn, sl_value = v\<rparr>"
    for hn v using known_names [OF assms] by (simp add: insertable_def)
  show thesis
    by (rule that [of "the (prepare U P hints)"])
      (auto simp: prepare_def k h own_name_def insertable_def map_filter_simps all_in_emit_order_def)
qed

lemma wire_order:
  assumes "keeps base order"
  shows "subseq (filter (\<lambda>n. n \<in> sl_header_name ` set base)
      (remdups_adj (map fst (hm_flatten (all_blocks U E cx caller order))))) (map sl_header_name base)"
proof -
  let ?in = "\<lambda>n. n \<in> sl_header_name ` set base"
  let ?bs = "map (slot_block U E cx caller) (first_slots [] order)"
  have "filter ?in (map fst (filter (\<lambda>b. snd b \<noteq> []) (rest_blocks order caller))) = []"
    using assms by (auto simp: rest_blocks_def keeps_def filter_empty_conv)
  then have eq: "filter ?in (remdups_adj (map fst (hm_flatten (all_blocks U E cx caller order))))
      = filter ?in (map fst (filter (\<lambda>b. snd b \<noteq> []) ?bs))"
    unfolding apply_names by (simp add: all_blocks_def)
  have "subseq (map fst (filter (\<lambda>b. snd b \<noteq> []) ?bs)) (map fst ?bs)"
    by (rule subseq_map) (rule subseq_filter_left)
  moreover have "subseq (map fst ?bs) (map sl_header_name order)"
    using first_slots_subseq [of "[]" order] by (simp add: comp_def subseq_map)
  ultimately have "subseq (map fst (filter (\<lambda>b. snd b \<noteq> []) ?bs)) (map sl_header_name order)"
    by (rule subseq_order.trans)
  from subseq_filter [OF this, of ?in] show ?thesis
    unfolding eq using assms by (simp only: keeps_def)
qed

lemma profile_value:
  assumes k: "keeps base order" and b: "\<forall>s \<in> set base. sl_value s = classify U (sl_header_name s) P"
    and n: "n \<in> sl_header_name ` set base" and c: "\<not> hm_contains caller n"
  shows "classify U n P = SlotConstant v \<Longrightarrow> hm_get_all (hm_flatten (all_blocks U E cx caller order)) n = [v]"
    and "classify U n P = SlotAbsent \<Longrightarrow> hm_get_all (hm_flatten (all_blocks U E cx caller order)) n = []"
proof -
  have "n \<in> sl_header_name ` set order" using n k by (auto simp: keeps_def)
  then obtain s where s: "s \<in> set (first_slots [] order)" "sl_header_name s = n"
    using first_slots_names(2) [of "[]" order] by force
  have "s \<in> set order" using list_emb_set [OF first_slots_subseq s(1)] by auto
  then have "s \<in> set base" using k n s(2) by (auto simp: keeps_def)
  then have "sl_value s = classify U n P" using b s(2) by blast
  then show "classify U n P = SlotConstant v \<Longrightarrow> hm_get_all (hm_flatten (all_blocks U E cx caller order)) n = [v]"
    and "classify U n P = SlotAbsent \<Longrightarrow> hm_get_all (hm_flatten (all_blocks U E cx caller order)) n = []"
    using block_of_slot [OF s(1), of U E cx caller] s(2) c by (simp_all add: slot_block_def slot_value_of_def)
qed

section \<open>Properties\<close>

lemma header_context_options: "header_context U psl rq u opts ac = (Inr cx, ac') \<Longrightarrow> cx_options cx = opts"
  by (auto simp: header_context_def split: sum.splits prod.splits)

definition base_of :: "url_ext \<Rightarrow> ('h, 'p, 'v) profile \<Rightarrow> request_options \<Rightarrow> slot list" where
  "base_of U P opts =
     plan_of U (if opt_mode opts = Navigate then ho_navigate (pf_header_order P)
                else subresource_or_navigate (pf_header_order P)) P"

lemma base_of_facts:
  assumes "header_name_law U" and "lowercase_order (pf_header_order P)"
  shows "map sl_header_name (base_of U P opts) = profile_names U P opts"
    and "\<forall>s \<in> set (base_of U P opts). own_name s \<and> sl_value s = classify U (sl_header_name s) P"
proof -
  have "\<forall>n \<in> set (if opt_mode opts = Navigate then ho_navigate (pf_header_order P)
      else subresource_or_navigate (pf_header_order P)). to_ascii_lowercase n = n"
    using assms(2) by (simp add: lowercase_order_def)
  note plan = plan_of_names [OF assms(1) this, of P]
  show "map sl_header_name (base_of U P opts) = profile_names U P opts"
    unfolding base_of_def profile_names_def by (rule plan(1))
  show "\<forall>s \<in> set (base_of U P opts). own_name s \<and> sl_value s = classify U (sl_header_name s) P"
    unfolding base_of_def by (rule plan(2))
qed

lemma order_for_keeps:
  assumes "header_name_law U" and "lowercase_order (pf_header_order P)"
    and "prepare U P hints = Some (hg_prepared E)" and "cx_options cx = opts"
  shows "keeps (base_of U P opts) (order_for E cx)"
proof -
  obtain pr where pr: "prepare U P hints = Some pr"
    "pr_navigate pr = plan_of U (ho_navigate (pf_header_order P)) P"
    "pr_subresource pr = plan_of U (subresource_or_navigate (pf_header_order P)) P"
    "\<forall>s \<in> {pr_host pr, pr_origin pr, pr_referer pr, pr_sec_fetch_user pr} \<union> set (pr_hints pr).
      own_name s \<and> sl_header_name s \<in> insertable" "sl_name (pr_host pr) = ''host''"
    using prepare_total [OF assms(1)] by blast
  have "\<forall>s \<in> set (base_of U P opts). own_name s" using base_of_facts(2) [OF assms(1,2)] by blast
  note k = keeps_build_order [OF this pr(4,5)]
  have "(if opt_mode opts = Navigate then pr_navigate pr else pr_subresource pr) = base_of U P opts"
    by (simp add: base_of_def pr(2,3))
  moreover have "hg_prepared E = pr" using pr(1) assms(3) by simp
  ultimately show ?thesis unfolding order_for_def assms(4) by (simp only: k)
qed

text \<open>The constructors of the engine never panic, and prepare it for its profile.\<close>

lemma engine_new_total:
  assumes "header_name_law U"
  shows "\<exists>E. engine_new U P = Some E \<and> hg_profile E = P"
  by (rule prepare_total [OF assms, of P no_hints]) (simp add: engine_new_def)

lemma with_hints_total:
  assumes "header_name_law U"
  shows "\<exists>E'. with_high_entropy_hints U hints E = Some E' \<and> hg_profile E' = hg_profile E"
  by (rule prepare_total [OF assms, of "hg_profile E" hints]) (simp add: with_high_entropy_hints_def)

lemma engine_prepared:
  assumes "engine_new U P = Some E0" and "with_high_entropy_hints U hints E0 = Some E"
  shows "prepare U P hints = Some (hg_prepared E)"
  using assms by (auto simp: engine_new_def with_high_entropy_hints_def)

lemma names_of_slots:
  assumes "keeps base order" and "n \<in> sl_header_name ` set order"
  shows "n \<in> sl_header_name ` set base \<union> insertable"
  using assms by (auto simp: keeps_def)

lemma engine_adds_only_known_names:
  assumes "header_name_law U" and "lowercase_order (pf_header_order P)"
    and "prepare U P hints = Some (hg_prepared E)"
    and "apply_engine U psl E rq u opts ac = (Inr (rq', wire), ac')"
    and "\<not> hm_contains (rq_headers rq) n"
  shows "n \<notin> set (profile_names U P opts) \<union> insertable \<Longrightarrow> hm_get_all wire n = []"
    and "n \<in> set (profile_names U P opts) \<Longrightarrow> classify U n P = SlotConstant v \<Longrightarrow> hm_get_all wire n = [v]"
    and "n \<notin> insertable \<Longrightarrow> classify U n P = SlotAbsent \<Longrightarrow> hm_get_all wire n = []"
proof -
  obtain cx where cx: "header_context U psl rq u opts ac = (Inr cx, ac')"
    and wire: "wire = hm_flatten (all_blocks U E cx (rq_headers rq) (order_for E cx))"
    using apply_engine_closed [OF assms(4)] by metis
  note k = order_for_keeps [OF assms(1-3) header_context_options [OF cx]]
  note b = base_of_facts [OF assms(1,2), of opts]
  have names: "set (profile_names U P opts) = sl_header_name ` set (base_of U P opts)" using b(1) by (metis set_map)
  have empty: "hm_get_all (rq_headers rq) n = []" using assms(5) by (simp add: hm_contains_def)
  show *: "n \<notin> set (profile_names U P opts) \<union> insertable \<Longrightarrow> hm_get_all wire n = []"
    using names_of_slots [OF k, of n] block_of_name [of n "order_for E cx" U E cx "rq_headers rq"] empty
    by (auto simp: wire names)
  have b2: "\<forall>s \<in> set (base_of U P opts). sl_value s = classify U (sl_header_name s) P" using b(2) by blast
  show "n \<in> set (profile_names U P opts) \<Longrightarrow> classify U n P = SlotConstant v \<Longrightarrow> hm_get_all wire n = [v]"
    unfolding wire names using profile_value(1) [OF k b2 _ assms(5)] by blast
  show "n \<notin> insertable \<Longrightarrow> classify U n P = SlotAbsent \<Longrightarrow> hm_get_all wire n = []"
    using * profile_value(2) [OF k b2 _ assms(5)] unfolding wire names by blast
qed

lemma engine_adds_no_credentials:
  assumes "header_name_law U" and "lowercase_order (pf_header_order P)"
    and "prepare U P hints = Some (hg_prepared E)"
    and "apply_engine U psl E rq u opts ac = (Inr (rq', wire), ac')"
    and "n \<in> {''authorization'', ''cookie'', ''proxy-authorization''}" and "\<not> hm_contains (rq_headers rq) n"
  shows "\<not> hm_contains wire n"
proof -
  have "\<forall>h. hint_header_name h \<noteq> n" using assms(5) by (auto simp: hint_header_name_def split: hint.splits)
  moreover have "n \<notin> {''host'', ''origin'', ''referer'', ''sec-fetch-user''}" using assms(5) by auto
  ultimately have i: "n \<notin> insertable" unfolding insertable_def by blast
  have "classify U ''authorization'' P = SlotAbsent" "classify U ''cookie'' P = SlotAbsent"
    "classify U ''proxy-authorization'' P = SlotAbsent"
    by (simp_all add: classify_def dynamic_names_def)
  then have "classify U n P = SlotAbsent" using assms(5) by blast
  from engine_adds_only_known_names(3) [OF assms(1-4,6) i this] show ?thesis by (simp add: hm_contains_def)
qed


definition sample_profile :: "(unit, unit, unit) profile" where
  "sample_profile =
     \<lparr>pf_name = ''chrome'', pf_version = ''151'', pf_platform = MacOs, pf_user_agent = ''Mozilla/5.0'',
      pf_client_hint_brands = [\<lparr>br_brand = ''Chromium'', br_version = ''151''\<rparr>], pf_client_hello = (), pf_http2 = (),
      pf_accept = ''text/html'', pf_accept_language = ''en'', pf_accept_encoding = ''gzip'',
      pf_header_order = \<lparr>ho_navigate = [''sec-ch-ua'', ''user-agent'', ''cookie'', ''accept-language''], ho_subresource = None\<rparr>,
      pf_observed_headers = [], pf_provenance = None\<rparr>"

lemma sample_name_law: "header_name_law sample_url_ext"
proof -
  have "list_all token_char n \<and> to_ascii_lowercase n = n"
    if "list_all (\<lambda>c. c = CHR ''-'' \<or> (97 \<le> byte c \<and> byte c \<le> 122)) n" for n
    using that by (induction n) (auto simp: token_char_def to_ascii_lowercase_def lower_char_def byte_def)
  then show ?thesis by (auto simp: header_name_law_def plain_name_def sample_url_ext_def split: if_splits)
qed

definition sample_caller :: request where
  "sample_caller = sample_get\<lparr>rq_headers := [(''x-a'', ''1''), (''user-agent'', ''mine''), (''x-a'', ''2'')]\<rparr>"

definition sample_wire :: "(header_name \<times> header_value) list" where
  "sample_wire = [(''host'', ''a.test''), (''sec-ch-ua'', [CHR 34] @ ''Chromium'' @ [CHR 34] @ '';v='' @ [CHR 34] @ ''151'' @ [CHR 34]),
     (''user-agent'', ''mine''), (''accept-language'', ''en''), (''x-a'', ''1''), (''x-a'', ''2'')]"


end
