(* ===== verification/Redirect.thy ===== *)
theory Redirect
  imports Http_Core
begin

text \<open>
  Deciding what a redirect means (\<open>chromulate-http/src/redirect.rs\<close>) and building the next request of a chain
  (\<open>rebuild\<close> and its companions in \<open>chromulate-http/src/engine.rs\<close>).
\<close>

section \<open>The decision\<close>

definition credential_headers :: "header_name list" where
  "credential_headers = [''authorization'', ''cookie'', ''proxy-authorization'']"

record hop =
  hop_url :: url
  hop_method :: string
  hop_drop_body :: bool
  hop_cross_origin :: bool

datatype decision = Stop | FollowHop hop

definition is_redirect :: "nat \<Rightarrow> bool" where
  "is_redirect status \<longleftrightarrow> status = 301 \<or> status = 302 \<or> status = 303 \<or> status = 307 \<or> status = 308"

definition method_after :: "nat \<Rightarrow> string \<Rightarrow> string" where
  "method_after status rmethod =
     (if (status = 301 \<or> status = 302) \<and> rmethod = ''POST'' then ''GET''
      else if status = 303 \<and> rmethod \<noteq> ''GET'' \<and> rmethod \<noteq> ''HEAD'' then ''GET''
      else rmethod)"

definition crosses_origin :: "url \<Rightarrow> url \<Rightarrow> bool" where
  "crosses_origin from to =
     (case (origin_of from, origin_of to) of
        (Inr a, Inr b) \<Rightarrow> a \<noteq> b
      | _ \<Rightarrow> True)"

definition strip_credentials :: "header_map \<Rightarrow> header_map" where
  "strip_credentials headers = fold hm_remove credential_headers headers"

definition resolve_location :: "url_ext \<Rightarrow> url \<Rightarrow> header_value \<Rightarrow> error + url" where
  "resolve_location U current location =
     (case ux_to_str U location of
        None \<Rightarrow> Inl (RedirectError ''the Location header is not valid text'')
      | Some raw \<Rightarrow>
          (case ux_join U current (trim raw) of
             Inl e \<Rightarrow> Inl (RedirectError (''the Location header is not a usable URL: '' @ e))
           | Inr u \<Rightarrow> Inr u))"

definition decide ::
  "url_ext \<Rightarrow> nat \<Rightarrow> header_map \<Rightarrow> url \<Rightarrow> string \<Rightarrow> nat option \<Rightarrow> nat \<Rightarrow> error + decision" where
  "decide U status headers current rmethod limit hops =
     (if \<not> is_redirect status then Inr Stop
      else (case limit of
              None \<Rightarrow> Inr Stop
            | Some limit \<Rightarrow>
                (case hm_get headers ''location'' of
                   None \<Rightarrow> Inr Stop
                 | Some location \<Rightarrow>
                     (if hops \<ge> limit then Inl (TooManyRedirects limit)
                      else (case resolve_location U current location of
                              Inl e \<Rightarrow> Inl e
                            | Inr u \<Rightarrow>
                                (if url_scheme u \<noteq> ''http'' \<and> url_scheme u \<noteq> ''https''
                                 then Inl (RedirectError (''refusing to follow a redirect to the `'' @ url_scheme u @ ''` scheme''))
                                 else (let next_method = method_after status rmethod
                                       in Inr (FollowHop
                                            \<lparr>hop_url = u, hop_method = next_method,
                                             hop_drop_body = (next_method \<noteq> rmethod),
                                             hop_cross_origin = crosses_origin current u\<rparr>))))))))"

section \<open>The next request\<close>

definition rebuild :: "url_ext \<Rightarrow> request \<Rightarrow> hop \<Rightarrow> body \<Rightarrow> error + request" where
  "rebuild U previous h body =
     (case ux_uri U (ux_text U (hop_url h)) of
        Inl e \<Rightarrow> Inl (RedirectError (''redirect target is not a valid URI: '' @ e))
      | Inr uri \<Rightarrow>
          (let headers = rq_headers previous;
               headers = (if hop_cross_origin h then strip_credentials headers else headers);
               headers = (if hop_drop_body h
                          then hm_remove ''transfer-encoding'' (hm_remove ''content-type'' (hm_remove ''content-length'' headers))
                          else headers);
               headers = hm_remove ''host'' headers
           in Inr (previous\<lparr>rq_method := hop_method h, rq_uri := uri, rq_headers := headers, rq_body := body\<rparr>)))"

definition streaming_redirect_error :: "hop \<Rightarrow> error" where
  "streaming_redirect_error h =
     RedirectError (''cannot follow a redirect that re-sends the body as '' @ hop_method h
       @ '': the body is a stream, it has already been sent once, and replaying it is not possible. ''
       @ ''Buffer the body, or set `RedirectPolicy::None` and follow the hop yourself.'')"

definition effective_policy :: "request_options \<Rightarrow> redirect_policy \<Rightarrow> redirect_policy" where
  "effective_policy opts fallback =
     (if opt_redirect opts = default_redirect_policy then fallback else opt_redirect opts)"

definition url_of :: "url_ext \<Rightarrow> string \<Rightarrow> error + url" where
  "url_of U uri =
     (if \<not> ux_uri_absolute U uri
      then Inl (UrlError (''`'' @ uri @ ''` is not absolute; a request needs a scheme and a host''))
      else (case ux_parse U uri of
              Inl e \<Rightarrow> Inl (UrlError (''`'' @ uri @ ''` is not a URL: '' @ e))
            | Inr u \<Rightarrow> Inr u))"

section \<open>Facts\<close>

definition clean :: "header_map \<Rightarrow> bool" where
  "clean h \<longleftrightarrow> list_all (\<lambda>n. \<not> hm_contains h n) credential_headers"

lemma clean_iff:
  "clean h \<longleftrightarrow> \<not> hm_contains h ''authorization'' \<and> \<not> hm_contains h ''cookie'' \<and> \<not> hm_contains h ''proxy-authorization''"
  by (simp add: clean_def credential_headers_def)

lemma decide_follow:
  assumes "decide U status headers current rmethod limit hops = Inr (FollowHop h)"
  obtains l where "limit = Some l" and "hops < l"
    and "hop_method h = method_after status rmethod" and "hop_drop_body h \<longleftrightarrow> hop_method h \<noteq> rmethod"
    and "hop_cross_origin h = crosses_origin current (hop_url h)"
    and "url_scheme (hop_url h) \<in> {''http'', ''https''}"
  using assms by (auto simp: decide_def Let_def split: if_splits option.splits sum.splits)

lemma strip_credentials_clean: "clean (strip_credentials h)"
  by (simp add: clean_iff strip_credentials_def hm_contains_def hm.get_remove credential_headers_def)

lemma rebuild_facts:
  assumes "rebuild U rq h b = Inr rq'"
  shows "rq_method rq' = hop_method h" and "rq_body rq' = b"
    and "rq_options rq' = rq_options rq" and "rq_user_activated rq' = rq_user_activated rq"
    and "clean (rq_headers rq) \<or> hop_cross_origin h \<Longrightarrow> clean (rq_headers rq')"
    and "\<not> hop_cross_origin h \<Longrightarrow> \<not> hop_drop_body h \<Longrightarrow> n \<noteq> ''host'' \<Longrightarrow>
      hm_get_all (rq_headers rq') n = hm_get_all (rq_headers rq) n"
  using assms strip_credentials_clean [of "rq_headers rq"]
  by (auto simp: rebuild_def Let_def clean_iff hm_contains_def hm_simps split: sum.splits)

end
