(* ===== verification/Session.thy ===== *)
theory Session
  imports Client_Hints Validators
begin

text \<open>
  What a client keeps per exit address (\<open>chromulate-http/src/session.rs\<close>): the base session and, when exits
  are isolated, one session per proxy with an eviction of the least recently used. A cookie store is a trait
  object, so its type is a parameter; the session factory is the store it hands out.

  A session handle in the source is a shared reference. Here looking a session up gives its value and the
  place it came from, and \<open>put_session\<close> writes the value back to that place.
\<close>

section \<open>Sessions\<close>

record 'c session =
  se_cookies :: "'c option"
  se_accept_ch :: accept_ch_store
  se_validators :: "validator_store option"

record 'c route_entry =
  re_session :: "'c session"
  re_last_use_seq :: u64

record 'c isolated =
  is_routes :: "(string \<times> 'c route_entry) list"
  is_seq :: u64
  is_max_routes :: nat
  is_factory :: "'c option"
  is_accept_ch_limit :: nat
  is_validator_capacity :: "nat option"

record 'c sessions =
  ss_base :: "'c session"
  ss_isolated :: "'c isolated option"

definition mint :: "'c isolated \<Rightarrow> 'c session" where
  "mint I = \<lparr>se_cookies = is_factory I, se_accept_ch = ac_with_limits (is_accept_ch_limit I),
     se_validators = map_option vs_with_capacity (is_validator_capacity I)\<rparr>"

definition evict_routes :: "nat \<Rightarrow> (string \<times> 'c route_entry) list \<Rightarrow> (string \<times> 'c route_entry) list" where
  "evict_routes max_routes routes = drop_least re_last_use_seq max_routes routes"

definition session_for :: "string \<Rightarrow> 'c isolated \<Rightarrow> 'c session \<times> 'c isolated" where
  "session_for proxy I =
     (let seq = is_seq I; I = I\<lparr>is_seq := is_seq I + 1\<rparr>
      in (case map_of (is_routes I) proxy of
            Some entry \<Rightarrow>
              (re_session entry, I\<lparr>is_routes := AList.update proxy (entry\<lparr>re_last_use_seq := seq\<rparr>) (is_routes I)\<rparr>)
          | None \<Rightarrow>
              (let session = mint I;
                   routes = AList.update proxy \<lparr>re_session = session, re_last_use_seq = seq\<rparr> (is_routes I)
               in (session, I\<lparr>is_routes := evict_routes (is_max_routes I) routes\<rparr>))))"

definition existing :: "string \<Rightarrow> 'c isolated \<Rightarrow> 'c session option \<times> 'c isolated" where
  "existing proxy I =
     (let seq = is_seq I; I = I\<lparr>is_seq := is_seq I + 1\<rparr>
      in (case map_of (is_routes I) proxy of
            None \<Rightarrow> (None, I)
          | Some entry \<Rightarrow>
              (Some (re_session entry),
               I\<lparr>is_routes := AList.update proxy (entry\<lparr>re_last_use_seq := seq\<rparr>) (is_routes I)\<rparr>)))"

definition shared_sessions :: "'c option \<Rightarrow> validator_store option \<Rightarrow> 'c sessions" where
  "shared_sessions cookies validators =
     \<lparr>ss_base = \<lparr>se_cookies = cookies, se_accept_ch = ac_new, se_validators = validators\<rparr>, ss_isolated = None\<rparr>"

definition per_proxy :: "'c option \<Rightarrow> validator_store option \<Rightarrow> nat \<Rightarrow> 'c option \<Rightarrow> 'c sessions" where
  "per_proxy cookies validators max_routes factory =
     \<lparr>ss_base = \<lparr>se_cookies = cookies, se_accept_ch = ac_new, se_validators = validators\<rparr>,
      ss_isolated = Some \<lparr>is_routes = [], is_seq = 0, is_max_routes = max max_routes 1, is_factory = factory,
        is_accept_ch_limit = default_origin_capacity,
        is_validator_capacity = map_option vs_capacity validators\<rparr>\<rparr>"

datatype session_ref = BaseSession | RouteSession string

definition for_route :: "string option \<Rightarrow> 'c sessions \<Rightarrow> session_ref \<times> 'c session \<times> 'c sessions" where
  "for_route proxy S =
     (case (ss_isolated S, proxy) of
        (Some I, Some proxy) \<Rightarrow>
          (case session_for proxy I of
             (session, I') \<Rightarrow> (RouteSession proxy, session, S\<lparr>ss_isolated := Some I'\<rparr>))
      | _ \<Rightarrow> (BaseSession, ss_base S, S))"

definition existing_route :: "string option \<Rightarrow> 'c sessions \<Rightarrow> (session_ref \<times> 'c session) option \<times> 'c sessions" where
  "existing_route proxy S =
     (case proxy of
        None \<Rightarrow> (Some (BaseSession, ss_base S), S)
      | Some proxy \<Rightarrow>
          (case ss_isolated S of
             None \<Rightarrow> (None, S)
           | Some I \<Rightarrow>
               (case existing proxy I of
                  (found, I') \<Rightarrow> (map_option (Pair (RouteSession proxy)) found, S\<lparr>ss_isolated := Some I'\<rparr>))))"

definition put_session :: "session_ref \<Rightarrow> 'c session \<Rightarrow> 'c sessions \<Rightarrow> 'c sessions" where
  "put_session r session S =
     (case r of
        BaseSession \<Rightarrow> S\<lparr>ss_base := session\<rparr>
      | RouteSession proxy \<Rightarrow>
          S\<lparr>ss_isolated := map_option
              (\<lambda>I. case map_of (is_routes I) proxy of
                     None \<Rightarrow> I
                   | Some entry \<Rightarrow> I\<lparr>is_routes := AList.update proxy (entry\<lparr>re_session := session\<rparr>) (is_routes I)\<rparr>)
              (ss_isolated S)\<rparr>)"

definition isolated_routes :: "'c sessions \<Rightarrow> nat" where
  "isolated_routes S = (case ss_isolated S of None \<Rightarrow> 0 | Some I \<Rightarrow> length (is_routes I))"

section \<open>Each exit has its own session\<close>

text \<open>A use of the client: which exit it goes through, and what it does to the session it is given.\<close>

type_synonym 'c route_use = "string option \<times> ('c session \<Rightarrow> 'c session)"

definition use_route :: "'c route_use \<Rightarrow> 'c sessions \<Rightarrow> 'c sessions" where
  "use_route a S = (case for_route (fst a) S of (r, session, S') \<Rightarrow> put_session r (snd a session) S')"

definition own_uses :: "'c route_use list \<Rightarrow> string option \<Rightarrow> ('c session \<Rightarrow> 'c session) list" where
  "own_uses history proxy = map snd (filter (\<lambda>a. fst a = proxy) history)"

abbreviation run_uses :: "('c session \<Rightarrow> 'c session) list \<Rightarrow> 'c session \<Rightarrow> 'c session" where
  "run_uses fs session \<equiv> fold (\<lambda>f. f) fs session"

definition same_setup :: "'c isolated \<Rightarrow> 'c isolated \<Rightarrow> bool" where
  "same_setup I J \<longleftrightarrow> is_max_routes I = is_max_routes J \<and> is_factory I = is_factory J
     \<and> is_accept_ch_limit I = is_accept_ch_limit J \<and> is_validator_capacity I = is_validator_capacity J"

lemma same_setup_mint: "same_setup I J \<Longrightarrow> mint I = mint J"
  by (simp add: same_setup_def mint_def)

lemma own_uses_snoc:
  "own_uses (history @ [a]) p = (if fst a = p then own_uses history p @ [snd a] else own_uses history p)"
  by (simp add: own_uses_def)

definition route_map :: "'c isolated \<Rightarrow> string \<rightharpoonup> 'c session" where
  "route_map I p = map_option re_session (map_of (is_routes I) p)"

definition current :: "'c isolated \<Rightarrow> string \<Rightarrow> 'c session" where
  "current I p = (case route_map I p of Some session \<Rightarrow> session | None \<Rightarrow> mint I)"

lemma map_of_mono:
  assumes "distinct (map fst ys)" and "distinct (map fst xs)" and "set xs \<subseteq> set ys"
  shows "map_of xs \<subseteq>\<^sub>m map_of ys"
  using assms by (force simp: map_le_def dom_def)

lemma length_update: "length (AList.update k v xs) = (if k \<in> fst ` set xs then length xs else Suc (length xs))"
  by (induction xs) auto

lemma session_for_known:
  assumes "map_of (is_routes I) p = Some e"
  shows "session_for p I = (re_session e,
    I\<lparr>is_seq := is_seq I + 1, is_routes := AList.update p (e\<lparr>re_last_use_seq := is_seq I\<rparr>) (is_routes I)\<rparr>)"
  using assms by (simp add: session_for_def)

lemma session_for_new:
  assumes "map_of (is_routes I) p = None"
  shows "session_for p I = (mint I,
    I\<lparr>is_seq := is_seq I + 1, is_routes := evict_routes (is_max_routes I)
        (AList.update p \<lparr>re_session = mint I, re_last_use_seq = is_seq I\<rparr> (is_routes I))\<rparr>)"
  using assms by (simp add: session_for_def Let_def mint_def)

lemma put_session_route:
  assumes "distinct (map fst (is_routes I))"
  obtains J where "put_session (RouteSession p) session (S\<lparr>ss_isolated := Some I\<rparr>) = S\<lparr>ss_isolated := Some J\<rparr>"
    and "same_setup J I"
    and "distinct (map fst (is_routes J))" and "fst ` set (is_routes J) = fst ` set (is_routes I)"
    and "length (is_routes J) = length (is_routes I)"
    and "route_map J = (if p \<in> dom (route_map I) then (route_map I)(p \<mapsto> session) else route_map I)"
proof (cases "map_of (is_routes I) p")
  case None
  then have "p \<notin> dom (route_map I)" by (auto simp: route_map_def)
  with None show thesis using assms by (intro that [of I]) (simp_all add: put_session_def same_setup_def)
next
  case (Some e)
  then have "p \<in> fst ` set (is_routes I)" by (metis map_of_eq_None_iff option.distinct(1))
  let ?J = "I\<lparr>is_routes := AList.update p (e\<lparr>re_session := session\<rparr>) (is_routes I)\<rparr>"
  show thesis
  proof (rule that [of ?J])
    show "fst ` set (is_routes ?J) = fst ` set (is_routes I)" using \<open>p \<in> _\<close> by (auto simp: dom_update)
    show "length (is_routes ?J) = length (is_routes I)" using \<open>p \<in> _\<close> by (simp add: length_update)
    show "route_map ?J = (if p \<in> dom (route_map I) then (route_map I)(p \<mapsto> session) else route_map I)"
      using Some by (auto simp: route_map_def update_conv')
  qed (use assms Some in \<open>simp_all add: put_session_def same_setup_def distinct_update\<close>)
qed

lemma session_for_effect:
  assumes d: "distinct (map fst (is_routes I))"
  obtains J where "session_for p I = (current I p, J)" and "same_setup J I" and "distinct (map fst (is_routes J))"
    and "fst ` set (is_routes J) \<subseteq> insert p (fst ` set (is_routes I))"
    and "route_map J \<subseteq>\<^sub>m (route_map I)(p \<mapsto> current I p)"
    and "p \<in> fst ` set (is_routes I) \<or> length (is_routes I) < is_max_routes I \<longrightarrow>
      route_map J = (route_map I)(p \<mapsto> current I p) \<and> fst ` set (is_routes J) = insert p (fst ` set (is_routes I))"
    and "length (is_routes I) \<le> is_max_routes I \<longrightarrow> length (is_routes J) \<le> is_max_routes I"
proof (cases "map_of (is_routes I) p")
  case (Some e)
  let ?J = "I\<lparr>is_seq := is_seq I + 1, is_routes := AList.update p (e\<lparr>re_last_use_seq := is_seq I\<rparr>) (is_routes I)\<rparr>"
  have "route_map ?J = (route_map I)(p \<mapsto> current I p)"
    using Some by (auto simp: route_map_def current_def update_conv')
  moreover have "p \<in> fst ` set (is_routes I)" using Some by (metis map_of_eq_None_iff option.distinct(1))
  ultimately show thesis
    by (intro that [of ?J]) (use Some d in \<open>simp_all add: session_for_known current_def same_setup_def
      distinct_update dom_update length_update route_map_def [of I]\<close>)
next
  case None
  then have p: "p \<notin> fst ` set (is_routes I)" by (simp add: map_of_eq_None_iff)
  let ?e = "\<lparr>re_session = mint I, re_last_use_seq = is_seq I\<rparr>"
  let ?up = "AList.update p ?e (is_routes I)"
  let ?J = "I\<lparr>is_seq := is_seq I + 1, is_routes := evict_routes (is_max_routes I) ?up\<rparr>"
  have du: "distinct (map fst ?up)" using d by (rule distinct_update)
  note keeps = drop_least_keeps [OF du, of re_last_use_seq "is_max_routes I"]
  have "map_of (is_routes ?J) \<subseteq>\<^sub>m (map_of (is_routes I))(p \<mapsto> ?e)"
    using map_of_mono [OF du, of "is_routes ?J"] keeps by (simp add: evict_routes_def update_conv')
  then have le: "route_map ?J \<subseteq>\<^sub>m (route_map I)(p \<mapsto> current I p)"
    using None by (auto simp: map_le_def route_map_def current_def dom_def split: if_splits)
  have len: "length ?up = Suc (length (is_routes I))" using p by (simp add: length_update)
  have eq: "route_map ?J = (route_map I)(p \<mapsto> current I p) \<and> fst ` set (is_routes ?J) = insert p (fst ` set (is_routes I))"
    if "length (is_routes I) < is_max_routes I"
    using that None len by (auto simp: evict_routes_def drop_least_id route_map_def current_def update_conv' dom_update)
  show thesis
  proof (rule that [of ?J])
    show "fst ` set (is_routes ?J) \<subseteq> insert p (fst ` set (is_routes I))"
      using image_mono [OF conjunct2 [OF keeps], of fst] by (simp add: evict_routes_def dom_update)
    show "p \<in> fst ` set (is_routes I) \<or> length (is_routes I) < is_max_routes I \<longrightarrow>
      route_map ?J = (route_map I)(p \<mapsto> current I p) \<and> fst ` set (is_routes ?J) = insert p (fst ` set (is_routes I))"
      using eq p by blast
    show "length (is_routes I) \<le> is_max_routes I \<longrightarrow> length (is_routes ?J) \<le> is_max_routes I"
      by (simp add: evict_routes_def drop_least_length [OF du])
    show "route_map ?J \<subseteq>\<^sub>m (route_map I)(p \<mapsto> current I p)" by (rule le)
  qed (use None keeps in \<open>simp_all add: session_for_new current_def route_map_def same_setup_def evict_routes_def\<close>)
qed

lemma use_route_effect:
  assumes "ss_isolated S = Some I" and "distinct (map fst (is_routes I))"
  obtains J where "ss_isolated (use_route (Some p, f) S) = Some J" and "ss_base (use_route (Some p, f) S) = ss_base S"
    and "same_setup J I" and "distinct (map fst (is_routes J))"
    and "fst ` set (is_routes J) \<subseteq> insert p (fst ` set (is_routes I))"
    and "route_map J \<subseteq>\<^sub>m (route_map I)(p \<mapsto> f (current I p))"
    and "p \<in> fst ` set (is_routes I) \<or> length (is_routes I) < is_max_routes I \<longrightarrow>
      route_map J = (route_map I)(p \<mapsto> f (current I p)) \<and> fst ` set (is_routes J) = insert p (fst ` set (is_routes I))"
    and "length (is_routes I) \<le> is_max_routes I \<longrightarrow> length (is_routes J) \<le> is_max_routes I"
proof -
  obtain J where j: "session_for p I = (current I p, J)" "same_setup J I" "distinct (map fst (is_routes J))"
    "fst ` set (is_routes J) \<subseteq> insert p (fst ` set (is_routes I))"
    "route_map J \<subseteq>\<^sub>m (route_map I)(p \<mapsto> current I p)"
    "p \<in> fst ` set (is_routes I) \<or> length (is_routes I) < is_max_routes I \<longrightarrow>
      route_map J = (route_map I)(p \<mapsto> current I p) \<and> fst ` set (is_routes J) = insert p (fst ` set (is_routes I))"
    "length (is_routes I) \<le> is_max_routes I \<longrightarrow> length (is_routes J) \<le> is_max_routes I"
    using session_for_effect [OF assms(2)] by metis
  have f: "for_route (Some p) S = (RouteSession p, current I p, S\<lparr>ss_isolated := Some J\<rparr>)"
    using assms(1) j(1) by (simp add: for_route_def)
  obtain K where k: "put_session (RouteSession p) (f (current I p)) (S\<lparr>ss_isolated := Some J\<rparr>)
      = S\<lparr>ss_isolated := Some K\<rparr>" "same_setup K J" "distinct (map fst (is_routes K))"
    "fst ` set (is_routes K) = fst ` set (is_routes J)" "length (is_routes K) = length (is_routes J)"
    "route_map K = (if p \<in> dom (route_map J) then (route_map J)(p \<mapsto> f (current I p)) else route_map J)"
    by (rule put_session_route [OF j(3)]) (rule that)
  have u: "use_route (Some p, f) S = S\<lparr>ss_isolated := Some K\<rparr>" by (simp add: use_route_def f k(1))
  have "route_map K \<subseteq>\<^sub>m (route_map I)(p \<mapsto> f (current I p))"
    using j(5) unfolding k(6) map_le_def by (auto simp: dom_def split: if_splits)
  moreover have "route_map K = (route_map I)(p \<mapsto> f (current I p)) \<and> fst ` set (is_routes K) = insert p (fst ` set (is_routes I))"
    if "p \<in> fst ` set (is_routes I) \<or> length (is_routes I) < is_max_routes I"
    using j(6) that k(4,6) by auto
  ultimately show thesis
    using that [of K] u j(2-4,7) k(2-5) by (simp add: same_setup_def)
qed

definition separate :: "'c isolated \<Rightarrow> 'c session \<Rightarrow> 'c route_use list \<Rightarrow> 'c sessions \<Rightarrow> bool" where
  "separate I0 base history S \<longleftrightarrow>
     ss_base S = run_uses (own_uses history None) base
     \<and> (\<exists>I. ss_isolated S = Some I \<and> same_setup I I0 \<and> distinct (map fst (is_routes I))
          \<and> length (is_routes I) \<le> is_max_routes I
          \<and> fst ` set (is_routes I) \<subseteq> {p. Some p \<in> fst ` set history}
          \<and> (\<forall>p s. route_map I p = Some s \<longrightarrow>
               (\<exists>k \<le> length (own_uses history (Some p)). s = run_uses (drop k (own_uses history (Some p))) (mint I0))))"

lemma separate_step:
  assumes "separate I0 base history S"
  shows "separate I0 base (history @ [a]) (use_route a S)"
proof -
  obtain p f where a: "a = (p, f)" by fastforce
  from assms obtain I where I: "ss_isolated S = Some I" "same_setup I I0" "distinct (map fst (is_routes I))"
    "length (is_routes I) \<le> is_max_routes I" "fst ` set (is_routes I) \<subseteq> {p. Some p \<in> fst ` set history}"
    "\<forall>p s. route_map I p = Some s \<longrightarrow>
      (\<exists>k \<le> length (own_uses history (Some p)). s = run_uses (drop k (own_uses history (Some p))) (mint I0))"
    and b: "ss_base S = run_uses (own_uses history None) base"
    unfolding separate_def by blast
  show ?thesis
  proof (cases p)
    case None
    then have "use_route a S = S\<lparr>ss_base := f (ss_base S)\<rparr>"
      by (simp add: a use_route_def for_route_def put_session_def I(1))
    then show ?thesis using I b unfolding separate_def by (simp add: a None own_uses_snoc)
  next
    case (Some q)
    obtain J where J: "ss_isolated (use_route (Some q, f) S) = Some J" "ss_base (use_route (Some q, f) S) = ss_base S"
      "same_setup J I" "distinct (map fst (is_routes J))"
      "fst ` set (is_routes J) \<subseteq> insert q (fst ` set (is_routes I))"
      "route_map J \<subseteq>\<^sub>m (route_map I)(q \<mapsto> f (current I q))" "length (is_routes J) \<le> is_max_routes I"
      using I(4) use_route_effect [OF I(1,3), of q f] by metis
    let ?own = "\<lambda>p. own_uses history (Some p)"
    have cur: "\<exists>k \<le> length (?own q). current I q = run_uses (drop k (?own q)) (mint I0)"
    proof (cases "route_map I q")
      case None
      then show ?thesis using same_setup_mint [OF I(2)] by (intro exI [of _ "length (?own q)"]) (simp add: current_def)
    next
      case (Some s)
      then show ?thesis using I(6) by (simp add: current_def)
    qed
    have "\<exists>k \<le> length (own_uses (history @ [a]) (Some p)). s = run_uses (drop k (own_uses (history @ [a]) (Some p))) (mint I0)"
      if "route_map J p = Some s" for p s
    proof (cases "p = q")
      case True
      then have "s = f (current I q)" using J(6) that unfolding map_le_def by (metis domI fun_upd_same option.inject)
      moreover obtain k where "k \<le> length (?own q)" "current I q = run_uses (drop k (?own q)) (mint I0)" using cur by blast
      ultimately show ?thesis using True by (intro exI [of _ k]) (simp add: a Some own_uses_snoc)
    next
      case False
      then have "route_map I p = Some s" using J(6) that unfolding map_le_def by (metis domI fun_upd_other)
      then show ?thesis using I(6) False by (simp add: a Some own_uses_snoc)
    qed
    moreover have "own_uses (history @ [a]) None = own_uses history None" by (simp add: a Some own_uses_snoc)
    moreover have "same_setup J I0" using J(3) I(2) by (simp add: same_setup_def)
    moreover have "fst ` set (is_routes J) \<subseteq> {p. Some p \<in> fst ` set (history @ [a])}"
      using J(5) I(5) by (auto simp: a Some)
    moreover have "length (is_routes J) \<le> is_max_routes J" using J(3,7) by (simp add: same_setup_def)
    ultimately show ?thesis unfolding separate_def using J(1,2,4) b by (simp add: a Some)
  qed
qed

text \<open>Without eviction every exit's session is the whole of its own history.\<close>

abbreviation exits :: "'c route_use list \<Rightarrow> string set" where
  "exits history \<equiv> {p. Some p \<in> fst ` set history}"

definition complete :: "'c isolated \<Rightarrow> 'c route_use list \<Rightarrow> 'c sessions \<Rightarrow> bool" where
  "complete I0 history S \<longleftrightarrow>
     (\<exists>I. ss_isolated S = Some I \<and> same_setup I I0 \<and> distinct (map fst (is_routes I))
        \<and> fst ` set (is_routes I) = exits history
        \<and> (\<forall>p. current I p = run_uses (own_uses history (Some p)) (mint I0)))"

lemma complete_step:
  assumes "complete I0 history S" and "card (exits (history @ [a])) \<le> is_max_routes I0"
  shows "complete I0 (history @ [a]) (use_route a S)"
proof -
  obtain p f where a: "a = (p, f)" by fastforce
  from assms obtain I where I: "ss_isolated S = Some I" "same_setup I I0" "distinct (map fst (is_routes I))"
    "fst ` set (is_routes I) = exits history"
    "\<forall>p. current I p = run_uses (own_uses history (Some p)) (mint I0)"
    unfolding complete_def by blast
  show ?thesis
  proof (cases p)
    case None
    then have "ss_isolated (use_route a S) = Some I"
      by (simp add: a use_route_def for_route_def put_session_def I(1))
    moreover have "exits (history @ [a]) = exits history" by (auto simp: a None)
    moreover have "own_uses (history @ [a]) (Some p) = own_uses history (Some p)" for p by (simp add: a None own_uses_snoc)
    ultimately show ?thesis using I unfolding complete_def by simp
  next
    case (Some q)
    have ex: "exits (history @ [a]) = insert q (exits history)" by (auto simp: a Some)
    have fin: "finite (exits history)" by (metis I(4) finite_imageI finite_set)
    have "length (is_routes I) = card (exits history)"
      using distinct_card [OF I(3)] I(4) by simp
    then have room: "q \<in> fst ` set (is_routes I) \<or> length (is_routes I) < is_max_routes I"
      using assms(2) I(2) fin unfolding ex I(4) by (cases "q \<in> exits history") (auto simp: same_setup_def)
    obtain J where J: "ss_isolated (use_route (Some q, f) S) = Some J" "same_setup J I" "distinct (map fst (is_routes J))"
      "route_map J = (route_map I)(q \<mapsto> f (current I q)) \<and> fst ` set (is_routes J) = insert q (fst ` set (is_routes I))"
      using use_route_effect [OF I(1,3), of q f] room by metis
    have "current J p = run_uses (own_uses (history @ [a]) (Some p)) (mint I0)" for p
    proof (cases "p = q")
      case True
      then show ?thesis using J(4) I(5) by (simp add: current_def [of J] a Some own_uses_snoc)
    next
      case False
      then have "current J p = current I p"
        using J(4) same_setup_mint [OF J(2)] by (auto simp: current_def split: option.splits)
      then show ?thesis using I(5) False by (simp add: a Some own_uses_snoc)
    qed
    moreover have "same_setup J I0" using J(2) I(2) by (simp add: same_setup_def)
    ultimately show ?thesis unfolding complete_def using J(1,3,4) I(4) ex by (simp add: a Some)
  qed
qed

lemma exits_append: "exits history \<subseteq> exits (history @ [a])" "finite (exits history)"
proof -
  show "exits history \<subseteq> exits (history @ [a])" by auto
  have "exits history \<subseteq> the ` fst ` set history" by force
  then show "finite (exits history)" by (rule finite_subset) simp
qed

lemma reached_from_per_proxy:
  assumes "ss_isolated S0 = Some I0" and "is_routes I0 = []"
  shows "separate I0 (ss_base S0) history (fold use_route history S0)"
    and "card (exits history) \<le> is_max_routes I0 \<Longrightarrow> complete I0 history (fold use_route history S0)"
proof (induction history rule: rev_induct)
  case Nil
  { case 1 show ?case using assms by (simp add: separate_def same_setup_def own_uses_def route_map_def) }
  { case 2 show ?case using assms by (simp add: complete_def same_setup_def own_uses_def current_def route_map_def) }
next
  case (snoc a history)
  { case 1 show ?case using separate_step [OF snoc(1), of a] by simp }
  { case 2
    have "card (exits history) \<le> card (exits (history @ [a]))"
      by (intro card_mono) (rule exits_append)+
    with 2 complete_step [OF snoc(2), of a] show ?case by simp }
qed

section \<open>Properties\<close>

definition fresh_session :: "'c option \<Rightarrow> validator_store option \<Rightarrow> 'c session" where
  "fresh_session factory validators = \<lparr>se_cookies = factory, se_accept_ch = ac_new,
     se_validators = map_option (\<lambda>v. vs_with_capacity (vs_capacity v)) validators\<rparr>"

lemma for_route_current:
  assumes "ss_isolated S = Some I" and "distinct (map fst (is_routes I))"
  shows "fst (snd (for_route (Some p) S)) = current I p"
  by (rule session_for_effect [OF assms(2), of p]) (simp add: for_route_def assms(1))

text \<open>When exits are isolated, what is learned through one exit is never seen through another. Whatever uses
  are made of the client, a direct use sees the base session with exactly the direct uses so far; a use through
  a proxy sees a fresh session on which only the latest uses through that same proxy were made, all of them as
  long as there are no more exits than the limit; and no more sessions are kept than the limit.\<close>
theorem exits_keep_their_own_state:
  "fst (snd (for_route None (fold use_route history (per_proxy cookies validators max_routes factory))))
      = run_uses (own_uses history None) \<lparr>se_cookies = cookies, se_accept_ch = ac_new, se_validators = validators\<rparr>
    \<and> (\<exists>k. fst (snd (for_route (Some p) (fold use_route history (per_proxy cookies validators max_routes factory))))
        = run_uses (drop k (own_uses history (Some p))) (fresh_session factory validators))
    \<and> (card (exits history) \<le> max_routes \<longrightarrow>
        fst (snd (for_route (Some p) (fold use_route history (per_proxy cookies validators max_routes factory))))
        = run_uses (own_uses history (Some p)) (fresh_session factory validators))
    \<and> isolated_routes (fold use_route history (per_proxy cookies validators max_routes factory)) \<le> max max_routes 1"
proof -
  let ?init = "per_proxy cookies validators max_routes factory"
  let ?S = "fold use_route history ?init"
  obtain I0 where I0: "ss_isolated ?init = Some I0" "is_routes I0 = []" "is_max_routes I0 = max max_routes 1"
    "mint I0 = fresh_session factory validators"
    by (auto simp: per_proxy_def mint_def fresh_session_def ac_new_def option.map_comp comp_def)
  have base: "ss_base ?init = \<lparr>se_cookies = cookies, se_accept_ch = ac_new, se_validators = validators\<rparr>"
    by (simp add: per_proxy_def)
  note reached = reached_from_per_proxy [OF I0(1,2), of history]
  from reached(1) obtain I where I: "ss_isolated ?S = Some I" "same_setup I I0" "distinct (map fst (is_routes I))"
    "length (is_routes I) \<le> is_max_routes I"
    "\<forall>p s. route_map I p = Some s \<longrightarrow>
      (\<exists>k \<le> length (own_uses history (Some p)). s = run_uses (drop k (own_uses history (Some p))) (mint I0))"
    and b: "ss_base ?S = run_uses (own_uses history None) (ss_base ?init)"
    unfolding separate_def by blast
  have "\<exists>k. current I p = run_uses (drop k (own_uses history (Some p))) (mint I0)"
  proof (cases "route_map I p")
    case None
    then show ?thesis using same_setup_mint [OF I(2)]
      by (intro exI [of _ "length (own_uses history (Some p))"]) (simp add: current_def)
  next
    case (Some s)
    then show ?thesis using I(5) by (auto simp: current_def)
  qed
  moreover have "current I p = run_uses (own_uses history (Some p)) (mint I0)" if "card (exits history) \<le> max_routes"
    using reached(2) that I(1) I0(3) by (auto simp: complete_def)
  ultimately show ?thesis
    using for_route_current [OF I(1,3), of p] I(1,2,4) I0(3,4) b base
    by (simp add: for_route_def [of None] isolated_routes_def same_setup_def)
qed

definition sample_uses :: "nat route_use list" where
  "sample_uses = [(Some ''a'', \<lambda>s. s\<lparr>se_cookies := Some 1\<rparr>), (None, \<lambda>s. s\<lparr>se_cookies := Some 2\<rparr>),
     (Some ''b'', \<lambda>s. s\<lparr>se_cookies := map_option Suc (se_cookies s)\<rparr>)]"

theorem exits_keep_their_own_state_witness:
  "se_cookies (fst (snd (for_route None (fold use_route sample_uses (per_proxy None None 2 (Some 5)))))) = Some 2
   \<and> se_cookies (fst (snd (for_route (Some ''a'') (fold use_route sample_uses (per_proxy None None 2 (Some 5)))))) = Some 1
   \<and> se_cookies (fst (snd (for_route (Some ''b'') (fold use_route sample_uses (per_proxy None None 2 (Some 5)))))) = Some 6"
proof -
  have "exits sample_uses = {''a'', ''b''}" by (auto simp: sample_uses_def)
  then have c: "card (exits sample_uses) \<le> 2" by simp
  note t = exits_keep_their_own_state [of sample_uses None None 2 "Some 5"]
  have "own_uses sample_uses None = [\<lambda>s. s\<lparr>se_cookies := Some 2\<rparr>]"
    "own_uses sample_uses (Some ''a'') = [\<lambda>s. s\<lparr>se_cookies := Some 1\<rparr>]"
    "own_uses sample_uses (Some ''b'') = [\<lambda>s. s\<lparr>se_cookies := map_option Suc (se_cookies s)\<rparr>]"
    by (simp_all add: own_uses_def sample_uses_def)
  then show ?thesis using t [of "''a''"] t [of "''b''"] c by (simp add: fresh_session_def)
qed

end
