(* ===== verification/Engine.thy ===== *)
theory Engine
  imports Header_Engine Redirect Session Hsts Jar
begin

text \<open>
  The request engine (\<open>chromulate-http/src/engine.rs\<close>): one hop (session, conditioning, headers, exchange, what
  the response teaches) and the loop that follows a redirect chain, in a build without the response cache and
  with no concurrency limiter.

  The transport below it (choosing a proxy, taking or opening a connection, sending, deadlines and
  decompression) is the record \<open>network\<close> over a state of any type, which every exchange changes; the cookie
  store is a trait object, given by its two methods. One request runs at a time; timings, tracing and the
  deadline that \<open>finish\<close> attaches to the body are left out.
\<close>

section \<open>What the engine is built on\<close>

datatype protocol = ProtoHttp11 | ProtoHttp2

definition protocol_version :: "protocol \<Rightarrow> version" where
  "protocol_version p = (case p of ProtoHttp11 \<Rightarrow> Http11 | ProtoHttp2 \<Rightarrow> Http2)"

record 'w network =
  nw_now :: "'w \<Rightarrow> system_time"
  nw_check :: "'w \<Rightarrow> phase \<Rightarrow> error option"
  nw_route :: "'w \<Rightarrow> origin \<Rightarrow> string option \<times> 'w"
  nw_acquire :: "'w \<Rightarrow> origin \<Rightarrow> string option \<Rightarrow> (error + protocol) \<times> 'w"
  nw_send :: "'w \<Rightarrow> url \<Rightarrow> request \<Rightarrow> (error + response) \<times> 'w"
  nw_drain :: "'w \<Rightarrow> body \<Rightarrow> 'w"
  nw_decode :: "response \<Rightarrow> error + response"

record 'c cookie_ops =
  co_cookies_for :: "'c \<Rightarrow> url \<Rightarrow> cookie_context \<Rightarrow> system_time \<Rightarrow> header_value option \<times> 'c"
  co_store :: "'c \<Rightarrow> url \<Rightarrow> header_value list \<Rightarrow> system_time \<Rightarrow> 'c"

record ('h, 'p, 'v, 'c) engine =
  en_url :: url_ext
  en_psl :: psl
  en_preload :: "blob option"
  en_headers :: "('h, 'p, 'v) header_engine"
  en_redirect :: redirect_policy
  en_cookie_ops :: "'c cookie_ops"

record 'c engine_state =
  es_hsts :: hsts_store
  es_sessions :: "'c sessions"
  es_accept_ch_used :: bool

record response_info =
  ri_url :: url
  ri_hops :: "(url \<times> nat) list option"
  ri_exit :: "string option"

section \<open>One hop\<close>

definition insert_cookies ::
  "('h, 'p, 'v, 'c) engine \<Rightarrow> request \<Rightarrow> url \<Rightarrow> request_options \<Rightarrow> 'c session \<Rightarrow> system_time
   \<Rightarrow> request \<times> 'c session \<times> bool" where
  "insert_cookies E rq u opts ses now =
     (case se_cookies ses of
        None \<Rightarrow> (rq, ses, False)
      | Some cookies \<Rightarrow>
          (if hm_contains (rq_headers rq) ''cookie'' then (rq, ses, False)
           else (case co_cookies_for (en_cookie_ops E) cookies u (cookie_context_of opts) now of
                   (None, cookies') \<Rightarrow> (rq, ses\<lparr>se_cookies := Some cookies'\<rparr>, False)
                 | (Some val, cookies') \<Rightarrow>
                     (rq\<lparr>rq_headers := hm_insert ''cookie'' val (rq_headers rq)\<rparr>,
                      ses\<lparr>se_cookies := Some cookies'\<rparr>, True))))"

definition apply_headers ::
  "('h, 'p, 'v, 'c) engine \<Rightarrow> request \<Rightarrow> url \<Rightarrow> request_options \<Rightarrow> 'c session \<Rightarrow> bool \<Rightarrow> system_time
   \<Rightarrow> (error + request \<times> (header_name \<times> header_value) list) \<times> 'c session" where
  "apply_headers E rq u opts ses accept_ch_used now =
     (case insert_cookies E rq u opts ses now of
        (rq, ses, from_jar) \<Rightarrow>
          (case (if accept_ch_used
                 then (case apply_engine (en_url E) (en_psl E) (en_headers E) rq u opts (se_accept_ch ses) of
                         (r, accept_ch) \<Rightarrow> (r, ses\<lparr>se_accept_ch := accept_ch\<rparr>))
                 else (fst (apply_engine (en_url E) (en_psl E) (en_headers E) rq u opts ac_new), ses)) of
             (Inl e, ses) \<Rightarrow> (Inl e, ses)
           | (Inr (rq, ordered), ses) \<Rightarrow>
               (Inr (if from_jar then rq\<lparr>rq_headers := hm_remove ''cookie'' (rq_headers rq)\<rparr> else rq, ordered), ses)))"

definition outgoing_request ::
  "url_ext \<Rightarrow> request \<Rightarrow> url \<Rightarrow> protocol \<Rightarrow> body \<Rightarrow> (header_name \<times> header_value) list \<Rightarrow> error + request" where
  "outgoing_request U rq u protocol body ordered =
     (case (case protocol of
              ProtoHttp11 \<Rightarrow>
                (case ux_from_path U (case ux_path_and_query U (rq_uri rq) of Some p \<Rightarrow> p | None \<Rightarrow> ''/'') of
                   Inl e \<Rightarrow> Inl (UrlError (ux_text U u @ '' is not a usable request target: '' @ e))
                 | Inr uri \<Rightarrow> Inr uri)
            | ProtoHttp2 \<Rightarrow> Inr (rq_uri rq)) of
        Inl e \<Rightarrow> Inl e
      | Inr uri \<Rightarrow>
          Inr \<lparr>rq_method = rq_method rq, rq_uri = uri, rq_version = protocol_version protocol,
               rq_headers = fold (\<lambda>(name, val). hm_append name val) ordered [],
               rq_user_activated = False, rq_options = None, rq_url = None, rq_body = body\<rparr>)"

definition record_cookies ::
  "('h, 'p, 'v, 'c) engine \<Rightarrow> url \<Rightarrow> response \<Rightarrow> system_time \<Rightarrow> 'c session \<Rightarrow> 'c session" where
  "record_cookies E u rs now ses =
     (case se_cookies ses of
        None \<Rightarrow> ses
      | Some cookies \<Rightarrow>
          ses\<lparr>se_cookies := Some (co_store (en_cookie_ops E) cookies u (hm_get_all (rs_headers rs) ''set-cookie'') now)\<rparr>)"

definition record_hsts :: "url_ext \<Rightarrow> url \<Rightarrow> response \<Rightarrow> system_time \<Rightarrow> hsts_store \<Rightarrow> hsts_store" where
  "record_hsts U u rs now hsts =
     (case Option.bind (hm_get (rs_headers rs) ''strict-transport-security'') (ux_to_str U) of
        None \<Rightarrow> hsts
      | Some policy \<Rightarrow>
          (case url_host_str u of
             None \<Rightarrow> hsts
           | Some host \<Rightarrow> hsts_record host policy (url_scheme u = ''https'') now hsts))"

definition record_response ::
  "('h, 'p, 'v, 'c) engine \<Rightarrow> url \<Rightarrow> response \<Rightarrow> system_time \<Rightarrow> 'c session \<times> hsts_store \<times> bool
   \<Rightarrow> 'c session \<times> hsts_store \<times> bool" where
  "record_response E u rs now st =
     (case st of (ses, hsts, used) \<Rightarrow>
        (let ses = record_cookies E u rs now ses;
             hsts = record_hsts (en_url E) u rs now hsts
         in (case Option.bind (hm_get (rs_headers rs) ''accept-ch'') (ux_to_str (en_url E)) of
               None \<Rightarrow> (ses, hsts, used)
             | Some accept_ch \<Rightarrow>
                 (case origin_of u of
                    Inl _ \<Rightarrow> (ses, hsts, used)
                  | Inr origin \<Rightarrow> (ses\<lparr>se_accept_ch := ac_record origin accept_ch (se_accept_ch ses)\<rparr>, hsts, True)))))"

definition condition_request ::
  "url_ext \<Rightarrow> url \<Rightarrow> request \<Rightarrow> 'c session \<Rightarrow> request \<times> 'c session" where
  "condition_request U u rq ses =
     (case se_validators ses of
        None \<Rightarrow> (rq, ses)
      | Some v \<Rightarrow> (case vs_condition U u rq v of (rq, v) \<Rightarrow> (rq, ses\<lparr>se_validators := Some v\<rparr>)))"

definition observe_response ::
  "url_ext \<Rightarrow> url \<Rightarrow> request \<Rightarrow> response \<Rightarrow> 'c session \<Rightarrow> 'c session" where
  "observe_response U u rq rs ses = ses\<lparr>se_validators := map_option (vs_observe U u (rq_method rq) rs) (se_validators ses)\<rparr>"

text \<open>The part of a hop that works with the session of its exit.\<close>

definition hop_in_session ::
  "('h, 'p, 'v, 'c) engine \<Rightarrow> 'w network \<Rightarrow> request \<Rightarrow> body \<Rightarrow> url \<Rightarrow> request_options \<Rightarrow> origin \<Rightarrow> string option
   \<Rightarrow> 'c session \<times> hsts_store \<times> bool \<Rightarrow> 'w
   \<Rightarrow> (error + response \<times> request) \<times> ('c session \<times> hsts_store \<times> bool) \<times> 'w" where
  "hop_in_session E N rq body u opts origin label st w =
     (case nw_acquire N w origin label of
        (Inl e, w) \<Rightarrow> (Inl e, st, w)
      | (Inr protocol, w) \<Rightarrow>
          (case st of (ses, hsts, used) \<Rightarrow>
             (case condition_request (en_url E) u (rq\<lparr>rq_version := protocol_version protocol\<rparr>) ses of
                (rq, ses) \<Rightarrow>
                  (case apply_headers E rq u opts ses used (nw_now N w) of
                     (Inl e, ses) \<Rightarrow> (Inl e, (ses, hsts, used), w)
                   | (Inr (rq, ordered), ses) \<Rightarrow>
                       (case outgoing_request (en_url E) rq u protocol body ordered of
                          Inl e \<Rightarrow> (Inl e, (ses, hsts, used), w)
                        | Inr outgoing \<Rightarrow>
                            (case nw_send N w u outgoing of
                               (Inl e, w) \<Rightarrow> (Inl e, (ses, hsts, used), w)
                             | (Inr rs, w) \<Rightarrow>
                                 (case record_response E u rs (nw_now N w) (ses, hsts, used) of
                                    (ses, hsts, used) \<Rightarrow>
                                      (Inr (rs, rq), (observe_response (en_url E) u rq rs ses, hsts, used), w))))))))"

definition engine_hop ::
  "('h, 'p, 'v, 'c) engine \<Rightarrow> 'w network \<Rightarrow> request \<Rightarrow> body \<Rightarrow> url \<Rightarrow> request_options \<Rightarrow> string option
   \<Rightarrow> 'c engine_state \<Rightarrow> 'w \<Rightarrow> (error + response \<times> request) \<times> string option \<times> 'c engine_state \<times> 'w" where
  "engine_hop E N rq body u opts exit st w =
     (case nw_check N w PhaseConnect of
        Some e \<Rightarrow> (Inl e, exit, st, w)
      | None \<Rightarrow>
          (case origin_result (en_url E) u of
             Inl e \<Rightarrow> (Inl e, exit, st, w)
           | Inr origin \<Rightarrow>
               (case nw_route N w origin of
                  (label, w) \<Rightarrow>
                    (case for_route label (es_sessions st) of
                       (place, ses, sessions) \<Rightarrow>
                         (case hop_in_session E N rq body u opts origin label (ses, es_hsts st, es_accept_ch_used st) w of
                            (r, (ses, hsts, used), w) \<Rightarrow>
                              (r, label,
                               \<lparr>es_hsts = hsts, es_sessions = put_session place ses sessions, es_accept_ch_used = used\<rparr>,
                               w))))))"

section \<open>The redirect chain\<close>

definition apply_hsts :: "('h, 'p, 'v, 'c) engine \<Rightarrow> hsts_store \<Rightarrow> url \<Rightarrow> system_time \<Rightarrow> url" where
  "apply_hsts E hsts u now =
     (if url_scheme u \<noteq> ''http'' then u else fst (hsts_upgrade (en_url E) (en_preload E) hsts u now))"

definition finish ::
  "'w network \<Rightarrow> response \<Rightarrow> url \<Rightarrow> (url \<times> nat) list option \<Rightarrow> string option \<Rightarrow> error + response \<times> response_info" where
  "finish N rs u chain exit =
     (case nw_decode N rs of
        Inl e \<Rightarrow> Inl e
      | Inr rs \<Rightarrow> Inr (rs, \<lparr>ri_url = u, ri_hops = chain, ri_exit = exit\<rparr>))"

definition chain_len :: "(url \<times> nat) list option \<Rightarrow> nat" where
  "chain_len chain = (case chain of None \<Rightarrow> 0 | Some c \<Rightarrow> length c)"

definition push_hop :: "url \<times> nat \<Rightarrow> (url \<times> nat) list option \<Rightarrow> (url \<times> nat) list option" where
  "push_hop x chain = Some ((case chain of None \<Rightarrow> [] | Some c \<Rightarrow> c) @ [x])"

text \<open>One turn of the loop: either the run is over, or the next request, its URL, the chain and the exit.\<close>

type_synonym ('c, 'w) run_result = "(error + response \<times> response_info) \<times> 'c engine_state \<times> 'w"
type_synonym ('c, 'w) run_next = "request \<times> url \<times> (url \<times> nat) list option \<times> string option \<times> 'c engine_state \<times> 'w"

definition run_turn ::
  "('h, 'p, 'v, 'c) engine \<Rightarrow> 'w network \<Rightarrow> request_options \<Rightarrow> nat option \<Rightarrow> request \<Rightarrow> url
   \<Rightarrow> (url \<times> nat) list option \<Rightarrow> string option \<Rightarrow> 'c engine_state \<Rightarrow> 'w
   \<Rightarrow> ('c, 'w) run_result + ('c, 'w) run_next" where
  "run_turn E N opts limit rq u chain exit st w =
     (let hops = chain_len chain;
          body = rq_body rq;
          spare = try_clone body
      in (case engine_hop E N (rq\<lparr>rq_body := BodyEmpty\<rparr>) body u opts exit st w of
            (Inl e, exit, st, w) \<Rightarrow> Inl (Inl e, st, w)
          | (Inr (rs, rq), exit, st, w) \<Rightarrow>
              (case decide (en_url E) (rs_status rs) (rs_headers rs) u (rq_method rq) limit hops of
                 Inl e \<Rightarrow> Inl (Inl e, st, w)
               | Inr Stop \<Rightarrow> Inl (finish N rs u chain exit, st, w)
               | Inr (FollowHop h) \<Rightarrow>
                   (let w = nw_drain N w (rs_body rs)
                    in (case (if hop_drop_body h then Inr BodyEmpty
                              else (case spare of Some b \<Rightarrow> Inr b | None \<Rightarrow> Inl (streaming_redirect_error h))) of
                          Inl e \<Rightarrow> Inl (Inl e, st, w)
                        | Inr next_body \<Rightarrow>
                            (case rebuild (en_url E) rq h next_body of
                               Inl e \<Rightarrow> Inl (Inl e, st, w)
                             | Inr rq \<Rightarrow> Inr (rq, hop_url h, push_hop (u, rs_status rs) chain, exit, st, w)))))))"

lemma chain_len_push [simp]: "chain_len (push_hop x chain) = Suc (chain_len chain)"
  by (simp add: chain_len_def push_hop_def split: option.splits)

lemma run_turn_next:
  assumes "run_turn E N opts limit rq u chain exit st w = Inr (rq', u', chain', exit', st', w')"
  obtains rs rq1 w1 h b where
    "engine_hop E N (rq\<lparr>rq_body := BodyEmpty\<rparr>) (rq_body rq) u opts exit st w = (Inr (rs, rq1), exit', st', w1)"
    and "decide (en_url E) (rs_status rs) (rs_headers rs) u (rq_method rq1) limit (chain_len chain) = Inr (FollowHop h)"
    and "hop_drop_body h \<Longrightarrow> b = BodyEmpty" and "\<not> hop_drop_body h \<Longrightarrow> try_clone (rq_body rq) = Some b"
    and "rebuild (en_url E) rq1 h b = Inr rq'" and "u' = hop_url h" and "w' = nw_drain N w1 (rs_body rs)"
    and "chain' = push_hop (u, rs_status rs) chain"
  using assms unfolding run_turn_def Let_def
  by (auto split: prod.splits sum.splits decision.splits if_splits option.splits)

lemma run_turn_shorter:
  assumes "run_turn E N opts limit rq u chain exit st w = Inr (rq', u', chain', exit', st', w')"
  shows "chain_len chain < the limit \<and> chain_len chain' = Suc (chain_len chain)"
proof (rule run_turn_next [OF assms])
  fix rs rq1 h
  assume d: "decide (en_url E) (rs_status rs) (rs_headers rs) u (rq_method rq1) limit (chain_len chain) = Inr (FollowHop h)"
    and c: "chain' = push_hop (u, rs_status rs) chain"
  from d obtain l where "limit = Some l" "chain_len chain < l" by (rule decide_follow)
  with c show ?thesis by simp
qed

function run_loop ::
  "('h, 'p, 'v, 'c) engine \<Rightarrow> 'w network \<Rightarrow> request_options \<Rightarrow> nat option \<Rightarrow> request \<Rightarrow> url
   \<Rightarrow> (url \<times> nat) list option \<Rightarrow> string option \<Rightarrow> 'c engine_state \<Rightarrow> 'w \<Rightarrow> ('c, 'w) run_result" where
  "run_loop E N opts limit rq u chain exit st w =
     (case run_turn E N opts limit rq u chain exit st w of
        Inl result \<Rightarrow> result
      | Inr (rq', u', chain', exit', st', w') \<Rightarrow> run_loop E N opts limit rq' u' chain' exit' st' w')"
  by pat_completeness auto
termination
proof (relation "measure (\<lambda>(E, N, opts, limit, rq, u, chain, exit, st, w). the limit - chain_len chain)", goal_cases)
  case (2 E N opts limit rq u chain exit st w z rq' y u' y1 chain' y2 exit' y3 st' w')
  then have "run_turn E N opts limit rq u chain exit st w = Inr (rq', u', chain', exit', st', w')" by simp
  from run_turn_shorter [OF this] show ?case by (simp add: diff_less_mono2)
qed simp

declare run_loop.simps [simp del]

definition redirect_limit :: "redirect_policy \<Rightarrow> nat option" where
  "redirect_limit p = (case p of Follow limit \<Rightarrow> Some limit | NoRedirect \<Rightarrow> None)"

definition engine_run ::
  "('h, 'p, 'v, 'c) engine \<Rightarrow> 'w network \<Rightarrow> request \<Rightarrow> 'c engine_state \<Rightarrow> 'w \<Rightarrow> ('c, 'w) run_result" where
  "engine_run E N rq st w =
     (let opts = (case rq_options rq of Some opts \<Rightarrow> opts | None \<Rightarrow> default_options)
      in (case (case rq_url rq of Some parsed \<Rightarrow> Inr parsed | None \<Rightarrow> url_of (en_url E) (rq_uri rq)) of
            Inl e \<Rightarrow> (Inl e, st, w)
          | Inr u \<Rightarrow>
              run_loop E N opts (redirect_limit (effective_policy opts (en_redirect E)))
                (rq\<lparr>rq_url := None\<rparr>) (apply_hsts E (es_hsts st) u (nw_now N w)) None None st w))"

section \<open>What goes out\<close>

text \<open>A network that also keeps the requests it was given to send.\<close>

type_synonym sent = "(url \<times> request) list"

definition logged :: "'w network \<Rightarrow> ('w \<times> sent) network" where
  "logged N =
     \<lparr>nw_now = (\<lambda>(w, l). nw_now N w),
      nw_check = (\<lambda>(w, l) ph. nw_check N w ph),
      nw_route = (\<lambda>(w, l) g. case nw_route N w g of (r, w) \<Rightarrow> (r, w, l)),
      nw_acquire = (\<lambda>(w, l) g p. case nw_acquire N w g p of (r, w) \<Rightarrow> (r, w, l)),
      nw_send = (\<lambda>(w, l) u rq. case nw_send N w u rq of (r, w) \<Rightarrow> (r, w, l @ [(u, rq)])),
      nw_drain = (\<lambda>(w, l) b. (nw_drain N w b, l)),
      nw_decode = nw_decode N\<rparr>"

definition jar_answer :: "('h, 'p, 'v, 'c) engine \<Rightarrow> url \<Rightarrow> header_value \<Rightarrow> bool" where
  "jar_answer E u val \<longleftrightarrow> (\<exists>cookies cx now. fst (co_cookies_for (en_cookie_ops E) cookies u cx now) = Some val)"

text \<open>Of the credential fields, a request carries exactly those that are held for its URL; where no cookie is held,
  the cookie store may supply its answer for that URL.\<close>

definition carries :: "('h, 'p, 'v, 'c) engine \<Rightarrow> header_map \<Rightarrow> url \<Rightarrow> header_map \<Rightarrow> bool" where
  "carries E held u headers \<longleftrightarrow>
     hm_get_all headers ''authorization'' = hm_get_all held ''authorization''
     \<and> hm_get_all headers ''proxy-authorization'' = hm_get_all held ''proxy-authorization''
     \<and> (hm_get_all headers ''cookie'' = hm_get_all held ''cookie''
        \<or> hm_get_all held ''cookie'' = [] \<and> (\<exists>val. hm_get_all headers ''cookie'' = [val] \<and> jar_answer E u val))"

definition same_credentials :: "header_map \<Rightarrow> header_map \<Rightarrow> bool" where
  "same_credentials h g \<longleftrightarrow> (\<forall>n \<in> set credential_headers. hm_get_all h n = hm_get_all g n)"

lemma same_credentials_iff:
  "same_credentials h g \<longleftrightarrow> hm_get_all h ''authorization'' = hm_get_all g ''authorization''
     \<and> hm_get_all h ''cookie'' = hm_get_all g ''cookie''
     \<and> hm_get_all h ''proxy-authorization'' = hm_get_all g ''proxy-authorization''"
  by (auto simp: same_credentials_def credential_headers_def)

definition engine_ok :: "('h, 'p, 'v, 'c) engine \<Rightarrow> bool" where
  "engine_ok E \<longleftrightarrow> header_name_law (en_url E) \<and> lowercase_order (pf_header_order (hg_profile (en_headers E)))
     \<and> prepare (en_url E) (hg_profile (en_headers E)) (hg_high_entropy (en_headers E)) = Some (hg_prepared (en_headers E))"

lemma condition_keeps:
  assumes "condition_request U u rq ses = (rq', ses')"
  shows "rq_method rq' = rq_method rq" and "same_credentials (rq_headers rq') (rq_headers rq)"
  using assms
  by (auto simp: condition_request_def vs_condition_def same_credentials_iff add_condition_def hm_simps Let_def
      split: option.splits prod.splits if_splits)

lemma insert_cookies_effect:
  assumes "insert_cookies E rq u opts ses now = (rq', ses', from_jar)"
  shows "rq_method rq' = rq_method rq" and "carries E (rq_headers rq) u (rq_headers rq')"
    and "\<not> from_jar \<Longrightarrow> rq' = rq" and "from_jar \<Longrightarrow> \<not> hm_contains (rq_headers rq) ''cookie''"
    and "n \<noteq> ''cookie'' \<Longrightarrow> hm_get_all (rq_headers rq') n = hm_get_all (rq_headers rq) n"
  using assms
  by (auto simp: insert_cookies_def carries_def jar_answer_def hm_simps hm_contains_def
      split: option.splits prod.splits if_splits)
    (metis fst_conv)

lemma apply_engine_credentials:
  assumes "engine_ok E" and "fst (apply_engine (en_url E) psl (en_headers E) rq u opts ac) = Inr (rq', wire)"
  shows "same_credentials wire (rq_headers rq)" and "rq' = rq\<lparr>rq_headers := wire\<rparr>"
proof -
  obtain ac' where a: "apply_engine (en_url E) psl (en_headers E) rq u opts ac = (Inr (rq', wire), ac')"
    using assms(2) by (metis fst_conv prod.exhaust)
  obtain cx where wire: "wire = hm_flatten (all_blocks (en_url E) (en_headers E) cx (rq_headers rq) (order_for (en_headers E) cx))"
    and rq: "rq' = rq\<lparr>rq_headers := wire\<rparr>"
    using apply_engine_closed [OF a] by metis
  have "hm_get_all wire n = hm_get_all (rq_headers rq) n" if "n \<in> set credential_headers" for n
  proof (cases "hm_contains (rq_headers rq) n")
    case True
    then show ?thesis unfolding wire by (rule caller_block)
  next
    case False
    moreover have "\<not> hm_contains wire n"
      using engine_adds_no_credentials [where P = "hg_profile (en_headers E)" and hints = "hg_high_entropy (en_headers E)",
          OF _ _ _ a _ False] assms(1) that
      unfolding engine_ok_def credential_headers_def by simp
    ultimately show ?thesis by (simp add: hm_contains_def)
  qed
  then show "same_credentials wire (rq_headers rq)" by (simp add: same_credentials_def)
  show "rq' = rq\<lparr>rq_headers := wire\<rparr>" by (rule rq)
qed

lemma carries_cong: "same_credentials h h' \<Longrightarrow> same_credentials g g' \<Longrightarrow> carries E h u g = carries E h' u g'"
  by (simp add: carries_def same_credentials_iff)

lemma apply_headers_effect:
  assumes ok: "engine_ok E" and a: "apply_headers E rq u opts ses used now = (Inr (rq', ordered), ses')"
  shows "rq_method rq' = rq_method rq" and "same_credentials (rq_headers rq') (rq_headers rq)"
    and "carries E (rq_headers rq) u ordered"
proof -
  obtain rq1 ses1 from_jar where i: "insert_cookies E rq u opts ses now = (rq1, ses1, from_jar)"
    by (metis prod_cases3)
  obtain ac rq2 where e: "fst (apply_engine (en_url E) (en_psl E) (en_headers E) rq1 u opts ac) = Inr (rq2, ordered)"
    and rq': "rq' = (if from_jar then rq2\<lparr>rq_headers := hm_remove ''cookie'' (rq_headers rq2)\<rparr> else rq2)"
    using a i by (auto simp: apply_headers_def split: if_splits prod.splits sum.splits) (metis fst_conv)+
  note c = apply_engine_credentials [OF ok e]
  note f = insert_cookies_effect [OF i]
  show "rq_method rq' = rq_method rq" using f(1) c(2) rq' by simp
  show "carries E (rq_headers rq) u ordered"
    using f(2) carries_cong [of "rq_headers rq" "rq_headers rq" ordered "rq_headers rq1" E u] c(1)
    by (simp add: same_credentials_def)
  show "same_credentials (rq_headers rq') (rq_headers rq)"
  proof (cases from_jar)
    case True
    then show ?thesis using c f(4,5) rq' by (simp add: same_credentials_iff hm_simps hm_contains_def)
  next
    case False
    then show ?thesis using c f(3) rq' by simp
  qed
qed

lemma outgoing_facts:
  assumes "outgoing_request U rq u protocol body ordered = Inr out"
  shows "rq_method out = rq_method rq" and "rq_body out = body" and "rq_headers out = ordered"
proof -
  have "fold (\<lambda>(name, val). hm_append name val) xs h = h @ xs" for xs h
    by (induction xs arbitrary: h) (auto simp: hm_append_def)
  then show "rq_method out = rq_method rq" and "rq_body out = body" and "rq_headers out = ordered"
    using assms by (auto simp: outgoing_request_def split: sum.splits)
qed

definition sends :: "('h, 'p, 'v, 'c) engine \<Rightarrow> request \<Rightarrow> body \<Rightarrow> url \<Rightarrow> request \<Rightarrow> bool" where
  "sends E rq body u out \<longleftrightarrow>
     rq_method out = rq_method rq \<and> rq_body out = body \<and> carries E (rq_headers rq) u (rq_headers out)"

lemma hop_in_session_sends:
  assumes ok: "engine_ok E"
    and h: "hop_in_session E (logged N) rq body u opts origin label st (w, l) = (r, st', (w', l'))"
  shows "l' = l \<and> (\<exists>e. r = Inl e) \<or> (\<exists>out. l' = l @ [(u, out)] \<and> sends E rq body u out)"
    and "r = Inr (rs, rq') \<Longrightarrow> rq_method rq' = rq_method rq \<and> same_credentials (rq_headers rq') (rq_headers rq)
      \<and> (\<exists>out. l' = l @ [(u, out)])"
proof -
  obtain ses hsts used where st: "st = (ses, hsts, used)" by (metis prod_cases3)
  obtain a w1 where a: "nw_acquire N w origin label = (a, w1)" by fastforce
  have "(l' = l \<and> (\<exists>e. r = Inl e) \<or> (\<exists>out. l' = l @ [(u, out)] \<and> sends E rq body u out))
    \<and> (\<forall>rs rq'. r = Inr (rs, rq') \<longrightarrow> rq_method rq' = rq_method rq \<and> same_credentials (rq_headers rq') (rq_headers rq)
      \<and> (\<exists>out. l' = l @ [(u, out)]))"
  proof (cases a)
    case (Inl e)
    then show ?thesis using h a by (auto simp: hop_in_session_def logged_def)
  next
    case (Inr protocol)
    obtain rq1 ses1 where c: "condition_request (en_url E) u (rq\<lparr>rq_version := protocol_version protocol\<rparr>) ses = (rq1, ses1)"
      by fastforce
    obtain p ses2 where p: "apply_headers E rq1 u opts ses1 used (nw_now N w1) = (p, ses2)" by fastforce
    note c' = condition_keeps [OF c]
    show ?thesis
    proof (cases p)
      case (Inl e)
      then show ?thesis using h a Inr st c p by (auto simp: hop_in_session_def logged_def)
    next
      case p': (Inr q)
      obtain rq2 ordered where q: "q = (rq2, ordered)" by fastforce
      note f = apply_headers_effect [OF ok p [unfolded p' q]]
      have m: "rq_method rq2 = rq_method rq" using f(1) c'(1) by simp
      have k: "same_credentials (rq_headers rq2) (rq_headers rq)" using f(2) c'(2) by (simp add: same_credentials_def)
      have cr: "carries E (rq_headers rq) u ordered"
        using f(3) c'(2) carries_cong [of "rq_headers rq1" "rq_headers rq" ordered ordered E u]
        by (simp add: same_credentials_def)
      show ?thesis
      proof (cases "outgoing_request (en_url E) rq2 u protocol body ordered")
        case (Inl e)
        then show ?thesis using h a Inr st c p p' q by (auto simp: hop_in_session_def logged_def)
      next
        case out: (Inr out)
        note o = outgoing_facts [OF out]
        have s: "sends E rq body u out" using o m cr by (simp add: sends_def)
        show ?thesis using h a Inr st c p p' q out s m k
          by (auto simp: hop_in_session_def logged_def split: prod.splits sum.splits)
      qed
    qed
  qed
  then show "l' = l \<and> (\<exists>e. r = Inl e) \<or> (\<exists>out. l' = l @ [(u, out)] \<and> sends E rq body u out)"
    and "r = Inr (rs, rq') \<Longrightarrow> rq_method rq' = rq_method rq \<and> same_credentials (rq_headers rq') (rq_headers rq)
      \<and> (\<exists>out. l' = l @ [(u, out)])" by blast+
qed

lemma engine_hop_sends:
  assumes ok: "engine_ok E"
    and h: "engine_hop E (logged N) rq body u opts exit st (w, l) = (r, exit', st', (w', l'))"
  shows "l' = l \<and> (\<exists>e. r = Inl e)
      \<or> (\<exists>out g. l' = l @ [(u, out)] \<and> sends E rq body u out \<and> origin_of u = Inr g)"
    and "r = Inr (rs, rq') \<Longrightarrow> rq_method rq' = rq_method rq \<and> same_credentials (rq_headers rq') (rq_headers rq)
      \<and> (\<exists>out. l' = l @ [(u, out)])"
proof -
  consider e where "r = Inl e" "l' = l"
    | origin label ses0 w0 st0 where "origin_result (en_url E) u = Inr origin"
      "hop_in_session E (logged N) rq body u opts origin label ses0 (w0, l) = (r, st0, (w', l'))"
    using h by (auto simp: engine_hop_def split: option.splits sum.splits prod.splits) (auto simp: logged_def split: prod.splits)
  moreover have origin: "origin_of u = Inr g" if "origin_result (en_url E) u = Inr g" for g
    using that by (auto simp: origin_result_def split: sum.splits core_error.splits)
  ultimately have "(l' = l \<and> (\<exists>e. r = Inl e)
      \<or> (\<exists>out g. l' = l @ [(u, out)] \<and> sends E rq body u out \<and> origin_of u = Inr g))
    \<and> (r = Inr (rs, rq') \<longrightarrow> rq_method rq' = rq_method rq \<and> same_credentials (rq_headers rq') (rq_headers rq)
      \<and> (\<exists>out. l' = l @ [(u, out)]))"
  proof cases
    case 1
    then show ?thesis by simp
  next
    case (2 origin label ses0 w0 st0)
    show ?thesis using hop_in_session_sends [OF ok 2(2)] origin [OF 2(1)] by blast
  qed
  then show "l' = l \<and> (\<exists>e. r = Inl e)
      \<or> (\<exists>out g. l' = l @ [(u, out)] \<and> sends E rq body u out \<and> origin_of u = Inr g)"
    and "r = Inr (rs, rq') \<Longrightarrow> rq_method rq' = rq_method rq \<and> same_credentials (rq_headers rq') (rq_headers rq)
      \<and> (\<exists>out. l' = l @ [(u, out)])" by blast+
qed

section \<open>A whole chain\<close>

definition same_exchange :: "request \<Rightarrow> request \<Rightarrow> bool" where
  "same_exchange out next \<longleftrightarrow>
     rq_method next = rq_method out \<and> try_clone (rq_body out) = Some (rq_body next)
     \<or> rq_method out \<notin> {''GET'', ''HEAD''} \<and> rq_method next = ''GET'' \<and> rq_body next = BodyEmpty"

fun chain_ok :: "('h, 'p, 'v, 'c) engine \<Rightarrow> header_map \<Rightarrow> sent \<Rightarrow> bool" where
  "chain_ok E held [] \<longleftrightarrow> True"
| "chain_ok E held ((u, out) # rest) \<longleftrightarrow>
     (\<exists>g. origin_of u = Inr g) \<and> carries E held u (rq_headers out)
     \<and> (case rest of
          [] \<Rightarrow> True
        | (u', next) # _ \<Rightarrow>
            url_scheme u' \<in> {''http'', ''https''} \<and> same_exchange out next
            \<and> chain_ok E (if crosses_origin u u' then [] else held) rest)"

lemma chain_ok_cong: "same_credentials h g \<Longrightarrow> chain_ok E h l = chain_ok E g l"
proof (induction E h l arbitrary: g rule: chain_ok.induct)
  case (2 E held u out rest)
  have "carries E held u (rq_headers out) = carries E g u (rq_headers out)"
    by (rule carries_cong [OF 2(2)]) (simp add: same_credentials_def)
  moreover have "chain_ok E (if crosses_origin u u' then [] else held) rest
      = chain_ok E (if crosses_origin u u' then [] else g) rest" if "rest = (u', next) # more'" for u' "next" more'
    using 2(1) [OF that refl] 2(2) by (simp add: same_credentials_def)
  ultimately show ?case by (auto split: list.split)
qed simp

definition starts :: "request \<Rightarrow> url \<Rightarrow> sent \<Rightarrow> bool" where
  "starts rq u l \<longleftrightarrow> (case l of
     [] \<Rightarrow> True
   | (v, out) # _ \<Rightarrow> v = u \<and> rq_method out = rq_method rq \<and> rq_body out = rq_body rq)"

lemma method_changes: "method_after status m \<noteq> m \<Longrightarrow> m \<notin> {''GET'', ''HEAD''} \<and> method_after status m = ''GET''"
  by (auto simp: method_after_def split: if_splits)

lemma rebuild_credentials:
  assumes "rebuild U rq h b = Inr rq'"
  shows "same_credentials (rq_headers rq') (if hop_cross_origin h then [] else rq_headers rq)"
proof -
  have "hm_get_all [] n = []" for n by (simp add: hm_get_all_def)
  then show ?thesis
    using assms strip_credentials_clean [of "rq_headers rq"]
    by (auto simp: rebuild_def Let_def same_credentials_iff clean_iff hm_contains_def hm_simps split: sum.splits)
qed

lemma run_turn_ends:
  assumes ok: "engine_ok E"
    and t: "run_turn E (logged N) opts limit rq u chain exit st (w, l) = Inl (r, st', (w', l'))"
  obtains m where "l' = l @ m" and "chain_ok E (rq_headers rq) m" and "starts rq u m" and "length m \<le> 1"
proof -
  obtain r1 exit1 st1 w1 l1 where h: "engine_hop E (logged N) (rq\<lparr>rq_body := BodyEmpty\<rparr>) (rq_body rq) u opts exit st (w, l)
      = (r1, exit1, st1, (w1, l1))" by (metis prod_cases5)
  have "l' = l1"
    using t h by (auto simp: run_turn_def Let_def logged_def finish_def
        split: sum.splits prod.splits decision.splits if_splits option.splits)
  moreover obtain m where "l1 = l @ m" "m = [] \<or> (\<exists>out g. m = [(u, out)] \<and> sends E (rq\<lparr>rq_body := BodyEmpty\<rparr>) (rq_body rq) u out
      \<and> origin_of u = Inr g)"
    using engine_hop_sends(1) [OF ok h] by auto
  ultimately show ?thesis by (intro that [of m]) (auto simp: sends_def starts_def)
qed

lemma run_turn_continues:
  assumes ok: "engine_ok E"
    and t: "run_turn E (logged N) opts limit rq u chain exit st (w, l) = Inr (rq', u', chain', exit', st', (w', l'))"
  obtains out g where "l' = l @ [(u, out)]" and "origin_of u = Inr g" and "carries E (rq_headers rq) u (rq_headers out)"
    and "starts rq u [(u, out)]" and "url_scheme u' \<in> {''http'', ''https''}"
    and "same_exchange out (out\<lparr>rq_method := rq_method rq', rq_body := rq_body rq'\<rparr>)"
    and "same_credentials (rq_headers rq') (if crosses_origin u u' then [] else rq_headers rq)"
proof (rule run_turn_next [OF t])
  fix rs rq1 w1 h b
  assume e: "engine_hop E (logged N) (rq\<lparr>rq_body := BodyEmpty\<rparr>) (rq_body rq) u opts exit st (w, l) = (Inr (rs, rq1), exit', st', w1)"
    and d: "decide (en_url E) (rs_status rs) (rs_headers rs) u (rq_method rq1) limit (chain_len chain) = Inr (FollowHop h)"
    and b1: "hop_drop_body h \<Longrightarrow> b = BodyEmpty" and b2: "\<not> hop_drop_body h \<Longrightarrow> try_clone (rq_body rq) = Some b"
    and rb: "rebuild (en_url E) rq1 h b = Inr rq'" and u': "u' = hop_url h"
    and w': "(w', l') = nw_drain (logged N) w1 (rs_body rs)"
  obtain w2 l2 where w1: "w1 = (w2, l2)" by fastforce
  note s = engine_hop_sends [OF ok e [unfolded w1]]
  obtain out g where o: "l2 = l @ [(u, out)]" "sends E (rq\<lparr>rq_body := BodyEmpty\<rparr>) (rq_body rq) u out" "origin_of u = Inr g"
    using s(1) by blast
  have k: "rq_method rq1 = rq_method rq" "same_credentials (rq_headers rq1) (rq_headers rq)"
    using s(2) [OF refl] by simp_all
  note f = rebuild_facts(1,2) [OF rb]
  have hop: "hop_method h = method_after (rs_status rs) (rq_method rq1)" "hop_drop_body h \<longleftrightarrow> hop_method h \<noteq> rq_method rq1"
    "hop_cross_origin h = crosses_origin u u'" "url_scheme u' \<in> {''http'', ''https''}"
    using d u' by (auto elim: decide_follow)
  show ?thesis
  proof (rule that)
    show "l' = l @ [(u, out)]" using w' w1 o(1) by (simp add: logged_def)
    show "origin_of u = Inr g" by (rule o)
    show "carries E (rq_headers rq) u (rq_headers out)" "starts rq u [(u, out)]"
      using o(2) by (simp_all add: sends_def starts_def)
    show "url_scheme u' \<in> {''http'', ''https''}" by (rule hop)
    show "same_exchange out (out\<lparr>rq_method := rq_method rq', rq_body := rq_body rq'\<rparr>)"
      using f hop(1,2) k(1) b1 b2 o(2) method_changes [of "rs_status rs" "rq_method rq"]
      by (cases "hop_drop_body h") (auto simp: same_exchange_def sends_def)
    show "same_credentials (rq_headers rq') (if crosses_origin u u' then [] else rq_headers rq)"
      using rebuild_credentials [OF rb] hop(3) k(2) by (auto simp: same_credentials_def split: if_splits)
  qed
qed

lemma chain_ok_step:
  assumes "origin_of u = Inr g" and "carries E held u (rq_headers out)" and "url_scheme u' \<in> {''http'', ''https''}"
    and "same_exchange out (out\<lparr>rq_method := rq_method rq', rq_body := rq_body rq'\<rparr>)"
    and "same_credentials (rq_headers rq') (if crosses_origin u u' then [] else held)"
    and "chain_ok E (rq_headers rq') m" and "starts rq' u' m"
  shows "chain_ok E held ((u, out) # m)"
  using assms chain_ok_cong [OF assms(5), of E m]
  by (cases m) (auto simp: starts_def same_exchange_def)

definition redirects_allowed :: "nat option \<Rightarrow> nat" where
  "redirects_allowed limit = (case limit of None \<Rightarrow> 0 | Some n \<Rightarrow> n)"

lemma run_loop_chain:
  assumes ok: "engine_ok E"
    and "run_loop E (logged N) opts limit rq u chain exit st (w, l) = (r, st', (w', l'))"
  shows "\<exists>m. l' = l @ m \<and> chain_ok E (rq_headers rq) m \<and> starts rq u m
    \<and> length m \<le> Suc (redirects_allowed limit - chain_len chain)"
  using assms
proof (induction E "logged N" opts limit rq u chain exit st "(w, l)" arbitrary: w l rule: run_loop.induct)
  case (1 E opts limit rq u chain exit st)
  have run: "(case run_turn E (logged N) opts limit rq u chain exit st (w, l) of
      Inl result \<Rightarrow> result
    | Inr (rq', u', chain', exit', st', w') \<Rightarrow> run_loop E (logged N) opts limit rq' u' chain' exit' st' w')
    = (r, st', (w', l'))"
    using 1(3) by (subst (asm) run_loop.simps)
  show ?case
  proof (cases "run_turn E (logged N) opts limit rq u chain exit st (w, l)")
    case (Inl x)
    with run have "run_turn E (logged N) opts limit rq u chain exit st (w, l) = Inl (r, st', (w', l'))" by simp
    from run_turn_ends [OF 1(2) this] obtain m
      where "l' = l @ m" "chain_ok E (rq_headers rq) m" "starts rq u m" "length m \<le> 1" .
    then show ?thesis by auto
  next
    case (Inr x)
    obtain rq2 u2 chain2 exit2 st2 w2 l2 where x: "x = (rq2, u2, chain2, exit2, st2, (w2, l2))" by (metis prod_cases7)
    note t = Inr [unfolded x]
    from run_turn_continues [OF 1(2) t] obtain out g where l2: "l2 = l @ [(u, out)]"
      and c: "origin_of u = Inr g" "carries E (rq_headers rq) u (rq_headers out)" "url_scheme u2 \<in> {''http'', ''https''}"
        "same_exchange out (out\<lparr>rq_method := rq_method rq2, rq_body := rq_body rq2\<rparr>)"
        "same_credentials (rq_headers rq2) (if crosses_origin u u2 then [] else rq_headers rq)"
      and s: "starts rq u [(u, out)]" .
    have "run_loop E (logged N) opts limit rq2 u2 chain2 exit2 st2 (w2, l2) = (r, st', (w', l'))"
      using run t by simp
    from 1(1) [OF t refl refl refl refl refl 1(2) this] obtain m where m: "l' = l2 @ m" "chain_ok E (rq_headers rq2) m"
      "starts rq2 u2 m" "length m \<le> Suc (redirects_allowed limit - chain_len chain2)" by blast
    have "chain_ok E (rq_headers rq) ((u, out) # m)" by (rule chain_ok_step [OF c m(2,3)])
    moreover have "starts rq u ((u, out) # m)" using s by (simp add: starts_def)
    moreover have "length ((u, out) # m) \<le> Suc (redirects_allowed limit - chain_len chain)"
    proof -
      obtain k where "limit = Some k" using t by (auto elim!: run_turn_next decide_follow)
      then show ?thesis using run_turn_shorter [OF t] m(4) by (simp add: redirects_allowed_def) arith
    qed
    ultimately show ?thesis using m(1) l2 by (intro exI [of _ "(u, out) # m"]) simp
  qed
qed

definition origins_agree :: "sent \<Rightarrow> nat \<Rightarrow> bool" where
  "origins_agree m i \<longleftrightarrow> list_all (\<lambda>x. origin_of (fst x) = origin_of (fst (m ! 0))) (take (Suc i) m)"

lemma origins_agree_Cons:
  assumes "origin_of u = Inr g" and "\<exists>g. origin_of (fst (rest ! 0)) = Inr g" and "Suc i < length ((u, out) # rest)"
  shows "origins_agree ((u, out) # rest) (Suc i)
    \<longleftrightarrow> \<not> crosses_origin u (fst (rest ! 0)) \<and> origins_agree rest i"
  using assms by (cases rest) (auto simp: origins_agree_def crosses_origin_def list_all_iff)

lemma chain_ok_origin: "chain_ok E held m \<Longrightarrow> m \<noteq> [] \<Longrightarrow> \<exists>g. origin_of (fst (m ! 0)) = Inr g"
  by (cases m) auto

lemma chain_ok_nth:
  assumes "chain_ok E held m" and "i < length m"
  shows "carries E (if origins_agree m i then held else []) (fst (m ! i)) (rq_headers (snd (m ! i)))"
  using assms
proof (induction m arbitrary: held i)
  case (Cons x rest)
  obtain u out where x: "x = (u, out)" by fastforce
  show ?case
  proof (cases i)
    case 0
    then show ?thesis using Cons.prems x by (simp add: origins_agree_def)
  next
    case (Suc k)
    then obtain u' "next" rest' where rest: "rest = (u', next) # rest'" using Cons.prems by (cases rest) auto
    have c: "chain_ok E (if crosses_origin u u' then [] else held) rest" "k < length rest"
      "\<exists>g. origin_of u = Inr g"
      using Cons.prems x rest Suc by simp_all
    have "origins_agree (x # rest) i \<longleftrightarrow> \<not> crosses_origin u u' \<and> origins_agree rest k"
      using origins_agree_Cons [of u _ rest k out] chain_ok_origin [OF c(1)] c(2,3) x rest Suc by auto
    then have "(if origins_agree (x # rest) i then held else [])
        = (if origins_agree rest k then if crosses_origin u u' then [] else held else [])" by simp
    with Cons.IH [OF c(1,2)] Suc show ?thesis by simp
  qed
qed simp

lemma chain_ok_next:
  "chain_ok E held m \<Longrightarrow> Suc i < length m \<Longrightarrow>
     url_scheme (fst (m ! Suc i)) \<in> {''http'', ''https''} \<and> same_exchange (snd (m ! i)) (snd (m ! Suc i))"
proof (induction E held m arbitrary: i rule: chain_ok.induct)
  case (2 E held u out rest)
  then obtain u' "next" rest' where rest: "rest = (u', next) # rest'" by (cases rest) auto
  show ?case
  proof (cases i)
    case 0
    then show ?thesis using 2(2) rest by simp
  next
    case (Suc k)
    then show ?thesis using 2(1) [OF rest refl, of k] 2(2,3) rest by simp
  qed
qed simp

text \<open>C4: A redirect chain is bounded, and the caller's credentials never leave the origin they were set for. A run sends
  at most one request more than the redirects its policy allows. The first request has the caller's method and
  body. Every later one goes to an \<open>http\<close> or \<open>https\<close> URL and either repeats the method with a copy of the body,
  or turns a method other than \<open>GET\<close> and \<open>HEAD\<close> into a \<open>GET\<close> without a body. Of \<open>Authorization\<close>,
  \<open>Proxy-Authorization\<close> and \<open>Cookie\<close>, each request carries exactly what the caller set while all requests so far
  have gone to one origin, and nothing of it once one has gone elsewhere; a cookie that the caller did not set is
  the cookie store's answer for the URL of that very request.\<close>
theorem credentials_stay_with_their_origin:
  assumes "engine_ok E" and "engine_run E (logged N) rq st (w, []) = (r, st', (w', m))"
  shows "(case effective_policy (case rq_options rq of Some opts \<Rightarrow> opts | None \<Rightarrow> default_options) (en_redirect E) of
        Follow limit \<Rightarrow> length m \<le> Suc limit
      | NoRedirect \<Rightarrow> length m \<le> 1)
    \<and> (m \<noteq> [] \<longrightarrow> rq_method (snd (m ! 0)) = rq_method rq \<and> rq_body (snd (m ! 0)) = rq_body rq)
    \<and> (\<forall>i. Suc i < length m \<longrightarrow>
         url_scheme (fst (m ! Suc i)) \<in> {''http'', ''https''} \<and> same_exchange (snd (m ! i)) (snd (m ! Suc i)))
    \<and> (\<forall>i < length m.
         carries E (if origins_agree m i then rq_headers rq else []) (fst (m ! i)) (rq_headers (snd (m ! i))))"
proof (cases "case rq_url rq of Some parsed \<Rightarrow> Inr parsed | None \<Rightarrow> url_of (en_url E) (rq_uri rq)")
  case (Inl e)
  then have "m = []" using assms(2) by (simp add: engine_run_def)
  then show ?thesis by (auto split: redirect_policy.split)
next
  case (Inr u)
  obtain n where n: "m = [] @ n" "chain_ok E (rq_headers rq) n"
    "starts (rq\<lparr>rq_url := None\<rparr>) (apply_hsts E (es_hsts st) u (nw_now (logged N) (w, []))) n"
    "length n \<le> Suc (redirects_allowed (redirect_limit (effective_policy
       (case rq_options rq of Some opts \<Rightarrow> opts | None \<Rightarrow> default_options) (en_redirect E))) - chain_len None)"
    using run_loop_chain [OF assms(1), of N] assms(2) Inr by (fastforce simp: engine_run_def Let_def)
  have c: "chain_ok E (rq_headers rq) m" using n by simp
  have "m \<noteq> [] \<longrightarrow> rq_method (snd (m ! 0)) = rq_method rq \<and> rq_body (snd (m ! 0)) = rq_body rq"
    using n(1,3) by (cases m) (auto simp: starts_def)
  moreover have "case effective_policy (case rq_options rq of Some opts \<Rightarrow> opts | None \<Rightarrow> default_options) (en_redirect E) of
        Follow limit \<Rightarrow> length m \<le> Suc limit
      | NoRedirect \<Rightarrow> length m \<le> 1"
    using n(1,4) by (auto simp: redirects_allowed_def redirect_limit_def chain_len_def split: redirect_policy.splits)
  ultimately show ?thesis using chain_ok_next [OF c] chain_ok_nth [OF c] by blast
qed

definition scripted :: "response list network" where
  "scripted =
     \<lparr>nw_now = (\<lambda>_. 0), nw_check = (\<lambda>_ _. None), nw_route = (\<lambda>w _. (None, w)),
      nw_acquire = (\<lambda>w _ _. (Inr ProtoHttp11, w)),
      nw_send = (\<lambda>w _ _. case w of [] \<Rightarrow> (Inl (UrlError ''closed''), []) | rs # w \<Rightarrow> (Inr rs, w)),
      nw_drain = (\<lambda>w _. w), nw_decode = Inr\<rparr>"

definition host_cookies :: "unit cookie_ops" where
  "host_cookies =
     \<lparr>co_cookies_for = (\<lambda>_ u _ _. (if url_host_str u = Some ''b.test'' then Some ''k=b'' else None, ())),
      co_store = (\<lambda>c _ _ _. c)\<rparr>"

definition sample_engine :: "(unit, unit, unit, unit) engine" where
  "sample_engine =
     \<lparr>en_url = sample_url_ext, en_psl = Some, en_preload = None,
      en_headers = the (engine_new sample_url_ext sample_profile), en_redirect = default_redirect_policy,
      en_cookie_ops = host_cookies\<rparr>"

lemma sample_engine_ok: "engine_ok sample_engine"
proof -
  obtain e where e: "engine_new sample_url_ext sample_profile = Some e" "hg_profile e = sample_profile"
    using engine_new_total [OF sample_name_law] by blast
  have "lowercase_order (pf_header_order sample_profile)" by code_simp
  moreover have "prepare sample_url_ext (hg_profile e) (hg_high_entropy e) = Some (hg_prepared e)"
    using e(1) by (auto simp: engine_new_def)
  ultimately show ?thesis using e sample_name_law by (simp add: engine_ok_def sample_engine_def)
qed

definition sample_state :: "unit engine_state" where
  "sample_state = \<lparr>es_hsts = hsts_new, es_sessions = shared_sessions (Some ()) None, es_accept_ch_used = False\<rparr>"

definition sample_post :: request where
  "sample_post = sample_get\<lparr>rq_method := ''POST'', rq_headers := [(''authorization'', ''secret'')],
     rq_body := BodyFixed (Some ''data'')\<rparr>"

definition two_redirects :: "response list" where
  "two_redirects =
     [\<lparr>rs_status = 307, rs_headers = [(''location'', ''/q'')], rs_body = BodyEmpty\<rparr>,
      \<lparr>rs_status = 302, rs_headers = [(''location'', ''https://b.test/r'')], rs_body = BodyEmpty\<rparr>,
      \<lparr>rs_status = 200, rs_headers = [], rs_body = BodyEmpty\<rparr>]"

definition sample_log :: sent where
  "sample_log = snd (snd (snd (engine_run sample_engine (logged scripted) sample_post sample_state (two_redirects, []))))"

lemma sample_log_shows:
  "map (\<lambda>(u, out). (sample_key u, rq_method out, rq_body out, hm_get_all (rq_headers out) ''authorization'',
      hm_get_all (rq_headers out) ''cookie'')) sample_log
   = [(''https://a.test/p'', ''POST'', BodyFixed (Some ''data''), [''secret''], []),
      (''https://a.test/q'', ''POST'', BodyFixed (Some ''data''), [''secret''], []),
      (''https://b.test/r'', ''GET'', BodyEmpty, [], [''k=b''])]"
  by code_simp

theorem credentials_stay_with_their_origin_witness:
  "length sample_log = 3
   \<and> carries sample_engine (rq_headers sample_post) (fst (sample_log ! 1)) (rq_headers (snd (sample_log ! 1)))
   \<and> carries sample_engine [] (fst (sample_log ! 2)) (rq_headers (snd (sample_log ! 2)))
   \<and> same_exchange (snd (sample_log ! 1)) (snd (sample_log ! 2))"
proof -
  obtain r st' w' m where run: "engine_run sample_engine (logged scripted) sample_post sample_state (two_redirects, [])
      = (r, st', (w', m))" by (metis prod_cases4)
  then have m: "m = sample_log" by (simp add: sample_log_def)
  have len: "length sample_log = 3" using arg_cong [OF sample_log_shows, of length] by simp
  have agree: "origins_agree sample_log 1 = True" "origins_agree sample_log 2 = False" by code_simp+
  note result = credentials_stay_with_their_origin [OF sample_engine_ok run, unfolded m]
  have c: "carries sample_engine (if origins_agree sample_log i then rq_headers sample_post else [])
      (fst (sample_log ! i)) (rq_headers (snd (sample_log ! i)))" if "i < length sample_log" for i
    using result that by blast
  have "same_exchange (snd (sample_log ! 1)) (snd (sample_log ! Suc 1))" using result len by simp
  then show ?thesis using c [of 1, unfolded agree if_True] c [of 2, unfolded agree if_False] len by (simp add: numeral_2_eq_2)
qed

end
