(* ===== verification/Spec2Isabelle.thy ===== *)
theory Spec2Isabelle
  imports Rust_Std Calendar Core Ip_Addr Cookie_Scope Cookie_Date Cookie Bucket Site_Store Jar Jar_Laws
    Header_Map Http_Date Cache_Control Cache_Entry Cache_Policy Memory_Store Memory_Laws Http_Cache Cache_Laws Cache_Run
    Http_Core Hsts_Preload Hsts Lru Client_Hints Validators Profile Header_Engine Redirect Session Engine
begin

text \<open>
  A verification development for chromulate, an HTTP client that behaves like a browser. Sources are named
  relative to \<open>src/crates/\<close>.

  \<^bold>\<open>The program.\<close> A request enters \<open>Engine::run\<close> (\<open>chromulate-http\<close>). Each hop of its redirect chain picks the
  session of its exit (cookies, granted client hints, validators), makes the request conditional, lets the
  header engine (\<open>chromulate-header\<close>) fill in what the browser profile (\<open>chromulate-profile\<close>) dictates, sends
  it, and records what the response teaches: cookies (\<open>chromulate-cookie\<close>), HSTS policies, \<open>Accept-CH\<close> grants,
  validators. A response cache (\<open>chromulate-cache\<close>) can stand around the exchange. \<open>chromulate-core\<close> has the
  shared types.

  \<^bold>\<open>Conventions.\<close>
  \<^item> A string is its list of bytes, a \<open>u64\<close> counter a \<^typ>\<open>64 word\<close> that wraps where the code wraps, a
    \<open>SystemTime\<close> a signed number of nanoseconds, a \<open>Duration\<close> a natural number of them.
  \<^item> A panic is \<^const>\<open>None\<close>, an \<open>Err\<close> is \<^const>\<open>Inl\<close>.
  \<^item> A \<open>HashMap\<close> is an association list whose order stands for the iteration order. No statement fixes that
    order.
  \<^item> Third-party code is an argument: \<open>externals\<close> (\<open>Cookie\<close>), \<open>cache_ext\<close> (\<open>Cache_Control\<close>), \<open>url_ext\<close>
    (\<open>Http_Core\<close>), \<open>psl\<close> (\<open>Cookie_Scope\<close>), \<open>network\<close> and \<open>cookie_ops\<close> (\<open>Engine\<close>). What is relied on is a named
    hypothesis (\<open>value_law\<close>, \<open>name_law\<close>, \<open>header_name_law\<close>, \<open>url_upgrade_law\<close> and others). Each has a concrete
    instance (\<open>sample_externals\<close>, \<open>sample_cache_ext\<close>, \<open>sample_url_ext\<close>) on which the witnesses run.
  \<^item> An operation under a lock is one step. In the stores whose use counter is drawn before the lock is taken
    (the in-memory cache store, the validator store) the draw and the update are one step as well, so two
    threads between the two are not distinguished.

  \<^bold>\<open>Foundations.\<close>
  \<^item> \<open>Rust_Std\<close> is the prelude: standard-library operations and shared lemmas.
  \<^item> \<open>Lru\<close> has the theory of stamped, bounded maps: the bounded heap of an eviction pass, and the locale
    \<open>lru_store\<close>, the contract of a least-recently-used store. \<open>Client_Hints\<close> and \<open>Validators\<close> interpret it.
  \<^item> \<open>Calendar\<close> (\<open>days_from_civil\<close>) is shown to count days. \<open>Ip_Addr\<close> reads IP literals.
  \<^item> \<open>Header_Map\<close> is \<open>http::HeaderMap\<close>; the locale \<open>header_multimap\<close> has its laws.
  \<^item> \<open>Core\<close> (\<open>chromulate-core/src/uri.rs\<close>, \<open>request.rs\<close>): origins, referrers, request options. \<open>Http_Core\<close>
    (\<open>error.rs\<close>, \<open>body.rs\<close>): errors, bodies, requests. Shown: what a referrer reveals, and that an origin is
    determined by its serialisation.

  \<^bold>\<open>Cookies\<close> (\<open>chromulate-cookie\<close>).
  \<^item> \<open>Cookie_Scope\<close> (\<open>domain.rs\<close>, \<open>path.rs\<close>, \<open>same_site.rs\<close>), \<open>Cookie_Date\<close> (\<open>date.rs\<close>), \<open>Cookie\<close>
    (\<open>cookie.rs\<close>): matching, dates and \<open>Set-Cookie\<close> parsing. Shown: what matching means, that printed dates
    parse to their instant, and what an accepted cookie satisfies.
  \<^item> \<open>Bucket\<close>, \<open>Site_Store\<close>, \<open>Jar\<close> (\<open>jar.rs\<close>): the vector with its index, the buckets by site with the eviction
    pass, and the jar with \<open>store\<close>, \<open>cookies_for\<close>, \<open>export\<close> and \<open>import\<close>. The locale \<open>keyed_slots\<close> is the
    contract of a bucket. \<open>jar_reachable\<close> is the set of jars that operations produce.
  \<^item> \<open>Jar_Laws\<close> has the properties of the whole jar: it never panics and stays within its limits; storing
    refines the map of RFC 6265; a lookup sends exactly the eligible cookies in RFC order; a snapshot restores
    what it captured; what is stored is sound; a plaintext response leaves \<open>Secure\<close> cookies alone.

  \<^bold>\<open>Cache\<close> (\<open>chromulate-cache\<close>).
  \<^item> \<open>Http_Date\<close> (\<open>date.rs\<close>), \<open>Cache_Control\<close> (\<open>directive.rs\<close>), \<open>Cache_Entry\<close> (\<open>entry.rs\<close>), \<open>Cache_Policy\<close>
    (\<open>policy.rs\<close>): dates, directives, keys and \<open>Vary\<close> selectors, what may be stored and what is fresh.
  \<^item> \<open>Memory_Store\<close> (\<open>storage.rs\<close>): the storage trait as the locale \<open>cache_storage\<close>, and the sharded store that
    interprets it. \<open>Memory_Laws\<close>: its byte budget, its order of eviction and its contract.
  \<^item> \<open>Http_Cache\<close> (\<open>cache.rs\<close>, \<open>clock.rs\<close>): \<open>before\<close>, \<open>after\<close> and the recording and draining bodies.
    \<open>Cache_Laws\<close> proves what holds over every store that keeps the contract. \<open>Cache_Run\<close> interleaves
    concurrent exchanges as the step relation \<open>cache_run\<close>. Shown: what is held and what is served is sound,
    fresh and matching; a completed exchange is served again; recording is invisible to the reader.

  \<^bold>\<open>Engine\<close> (\<open>chromulate-http\<close>, \<open>chromulate-header\<close>, \<open>chromulate-profile\<close>).
  \<^item> \<open>Hsts_Preload\<close> (\<open>hsts/preload.rs\<close>, \<open>generate.py\<close>) and \<open>Hsts\<close> (\<open>hsts.rs\<close>): the encoded list round trips; the
    store answers what was announced to it, and an upgrade changes the scheme and the port only.
  \<^item> \<open>Client_Hints\<close> (\<open>client_hints.rs\<close>) and \<open>Validators\<close> (\<open>validators.rs\<close>): bounded per-origin and per-URL memory.
  \<^item> \<open>Profile\<close> (\<open>profile.rs\<close>) and \<open>Header_Engine\<close> (\<open>engine.rs\<close>, \<open>order.rs\<close>, \<open>fetch_site.rs\<close>, \<open>accept.rs\<close>,
    \<open>priority.rs\<close> of \<open>chromulate-header\<close>): brand lists round trip; the headers of a request are the caller's
    where the caller set them and the profile's elsewhere, in the profile's order.
  \<^item> \<open>Redirect\<close> (\<open>redirect.rs\<close>, \<open>rebuild\<close>), \<open>Session\<close> (\<open>session.rs\<close>), \<open>Engine\<close> (\<open>engine.rs\<close>): the redirect loop
    over the stores above. Shown: the chain is bounded, the caller's credentials stay with their origin, and
    isolated exits do not see each other's sessions.

  \<^bold>\<open>Termination and bounds.\<close> Every definition is total. \<open>run_loop\<close> ends because each turn adds a hop and the
  limit bounds them; the search in the preload list because its interval shrinks; the walk over parent
  domains because the name does; the eviction loops because each round removes an entry. The other loops run
  over a list. No definition has fuel. Counters of 64 bits wrap in the model; properties that need them not to have
  wrapped say so.

  \<^bold>\<open>Not modelled.\<close> Sockets, TLS, DNS, proxies, the connection pool, HTTP/2 and HTTP/3, timers and deadlines,
  decompression, concurrency limits, retries, rate limiting and challenges: asynchronous I/O or third-party
  protocol code, which the engine model has as the argument \<open>network\<close> or leaves out because it is optional.
  The engine is modelled without the cache feature; the cache is modelled on its own. Parsing of captures and
  fingerprint digests, the user-facing builders, the command line and the benchmarks are left out.
  \<open>Debug\<close> output and tracing are left out everywhere.
\<close>

end
